(* ===== verification/Prelude.thy ===== *)
theory Prelude
  imports Main "HOL-Library.Word"
begin

text \<open>
  Shared ground of the development: the collections of rewrite rules the component theories extend,
  lemmas on counting in a list that is updated in one place (a process list in which one process
  moves), and the interface of a transition system with its invariant rule, which every interleaving
  model of the repository instantiates.
\<close>

named_theorems c_lib \<open>defining equations of the modelled C library functions\<close>
named_theorems eff \<open>how the primitive effects change each field of a state\<close>

section \<open>Counting in a list\<close>

definition cnt :: "('a \<Rightarrow> bool) \<Rightarrow> 'a list \<Rightarrow> nat" where
  "cnt P xs = length (filter P xs)"

lemma cnt_simps [simp]:
  "cnt P [] = 0"
  "cnt P (x # xs) = of_bool (P x) + cnt P xs"
  "cnt P (xs @ ys) = cnt P xs + cnt P ys"
  by (auto simp: cnt_def)

lemma cnt_replicate: "cnt P (replicate n x) = (if P x then n else 0)"
  by (induction n) auto

lemma cnt_le_length: "cnt P xs \<le> length xs"
  by (simp add: cnt_def)

lemma cnt_update:
  "i < length xs \<Longrightarrow> cnt P (xs[i := y]) + of_bool (P (xs ! i)) = cnt P xs + of_bool (P y)"
proof (induction xs arbitrary: i)
  case Nil
  then show ?case by simp
next
  case (Cons x xs)
  then show ?case by (cases i) auto
qed

lemma cnt_pos: "i < length xs \<Longrightarrow> P (xs ! i) \<Longrightarrow> 0 < cnt P xs"
  by (auto simp: cnt_def filter_empty_conv dest: nth_mem)

lemma cnt_pos_ex: "0 < cnt P xs \<Longrightarrow> \<exists>i < length xs. P (xs ! i)"
  by (auto simp: cnt_def filter_empty_conv in_set_conv_nth)

lemma cnt_0_iff: "cnt P xs = 0 \<longleftrightarrow> (\<forall>x \<in> set xs. \<not> P x)"
  by (simp add: cnt_def filter_empty_conv)

lemma cnt_zero_nth: "cnt P xs = 0 \<longleftrightarrow> (\<forall>n < length xs. \<not> P (xs ! n))"
  by (auto simp: cnt_0_iff all_set_conv_all_nth)

lemma cnt_mono: "(\<And>x. P x \<Longrightarrow> Q x) \<Longrightarrow> cnt P xs \<le> cnt Q xs"
  by (induction xs) (auto simp: cnt_def)

lemma cnt_two:
  assumes "i < length xs" "j < length xs" "i \<noteq> j" "P (xs ! i)" "P (xs ! j)"
  shows "2 \<le> cnt P xs"
proof -
  have "{i, j} \<subseteq> {k. k < length xs \<and> P (xs ! k)}" using assms by auto
  then have "card {i, j} \<le> card {k. k < length xs \<and> P (xs ! k)}"
    by (rule card_mono [rotated]) simp
  also have "\<dots> = cnt P xs" by (simp add: cnt_def length_filter_conv_card)
  finally show ?thesis using assms(3) by simp
qed

text \<open>The same for sums over the list.\<close>

lemma sum_map_update:
  fixes f :: "'a \<Rightarrow> nat"
  shows "i < length xs \<Longrightarrow> sum_list (map f (xs[i := y])) + f (xs ! i) = sum_list (map f xs) + f y"
proof (induction xs arbitrary: i)
  case (Cons x xs)
  then show ?case by (cases i) auto
qed simp

lemma list_all_update: "list_all P xs \<Longrightarrow> P y \<Longrightarrow> list_all P (xs[i := y])"
  using set_update_subset_insert [of xs i y] by (auto simp: list_all_iff)

section \<open>Transition systems\<close>

text \<open>
  \<open>reach start step s\<close>: the state \<open>s\<close> is reachable from a state of \<open>start\<close> by \<open>step\<close>. The locale is
  the interface between a model's step relation and its safety proof: a predicate that holds at the
  start and is kept by every step holds in every reachable state.
\<close>

inductive reach :: "('s \<Rightarrow> bool) \<Rightarrow> ('s \<Rightarrow> 's \<Rightarrow> bool) \<Rightarrow> 's \<Rightarrow> bool"
  for start :: "'s \<Rightarrow> bool" and step :: "'s \<Rightarrow> 's \<Rightarrow> bool" where
  reach_start: "start s \<Longrightarrow> reach start step s"
| reach_step: "reach start step s \<Longrightarrow> step s t \<Longrightarrow> reach start step t"

locale invariant_system =
  fixes start :: "'s \<Rightarrow> bool" and step :: "'s \<Rightarrow> 's \<Rightarrow> bool" and inv :: "'s \<Rightarrow> bool"
  assumes inv_start: "start s \<Longrightarrow> inv s"
    and inv_step: "inv s \<Longrightarrow> step s t \<Longrightarrow> inv t"
begin

lemma reach_inv: "reach start step s \<Longrightarrow> inv s"
  by (induction rule: reach.induct) (auto intro: inv_start inv_step)

lemma reach_stepwise:
  "reach start step s \<Longrightarrow> step s t \<Longrightarrow> inv s \<and> inv t"
  by (auto intro: reach_inv reach_step)

end

section \<open>Runs that end\<close>

text \<open>
  \<open>runs_to start turn wake n k s\<close>: \<open>s\<close> is reached in \<open>n\<close> turns of the program and \<open>k\<close> wake-ups from
  outside. The interface below is that of a termination proof: a potential that every turn lowers and
  that a wake-up raises by at most \<open>gain\<close>.
\<close>

inductive runs_to :: "('s \<Rightarrow> bool) \<Rightarrow> ('s \<Rightarrow> 's \<Rightarrow> bool) \<Rightarrow> ('s \<Rightarrow> 's \<Rightarrow> bool) \<Rightarrow> nat \<Rightarrow> nat \<Rightarrow> 's \<Rightarrow> bool"
  for start :: "'s \<Rightarrow> bool" and turn :: "'s \<Rightarrow> 's \<Rightarrow> bool" and wake :: "'s \<Rightarrow> 's \<Rightarrow> bool" where
  counted_start: "start s \<Longrightarrow> runs_to start turn wake 0 0 s"
| counted_turn: "runs_to start turn wake n k s \<Longrightarrow> turn s t \<Longrightarrow> runs_to start turn wake (Suc n) k t"
| counted_wake: "runs_to start turn wake n k s \<Longrightarrow> wake s t \<Longrightarrow> runs_to start turn wake n (Suc k) t"

lemma counted_reach:
  "runs_to start turn wake n k s \<Longrightarrow> (\<And>s t. turn s t \<or> wake s t \<Longrightarrow> step s t) \<Longrightarrow> reach start step s"
  by (induction rule: runs_to.induct) (auto intro: reach_start reach_step)

locale bounded_system = invariant_system start step inv
  for start :: "'s \<Rightarrow> bool" and step :: "'s \<Rightarrow> 's \<Rightarrow> bool" and inv :: "'s \<Rightarrow> bool" +
  fixes turn :: "'s \<Rightarrow> 's \<Rightarrow> bool" and wake :: "'s \<Rightarrow> 's \<Rightarrow> bool"
    and potential :: "'s \<Rightarrow> nat" and budget :: nat and gain :: nat
  assumes steps: "turn s t \<or> wake s t \<Longrightarrow> step s t"
    and start_budget: "start s \<Longrightarrow> potential s \<le> budget"
    and turn_lowers: "inv s \<Longrightarrow> turn s t \<Longrightarrow> potential t < potential s"
    and wake_gains: "inv s \<Longrightarrow> wake s t \<Longrightarrow> potential t \<le> potential s + gain"
begin

lemma counted_inv: "runs_to start turn wake n k s \<Longrightarrow> inv s"
  using counted_reach [of start turn wake n k s step] steps reach_inv by blast

lemma turns_bounded: "runs_to start turn wake n k s \<Longrightarrow> n + potential s \<le> budget + gain * k"
proof (induction rule: runs_to.induct)
  case (counted_start s)
  then show ?case using start_budget by simp
next
  case (counted_turn n k s t)
  with turn_lowers [OF counted_inv [OF counted_turn.hyps(1)]] show ?case by fastforce
next
  case (counted_wake n k s t)
  with wake_gains [OF counted_inv [OF counted_wake.hyps(1)]] show ?case by fastforce
qed

end

end
