(* ===== verification/C_Lib.thy ===== *)
theory C_Lib
  imports Prelude
begin

text \<open>
  The parts of the C library the programs call on strings and numbers: \<open>atoi\<close> and \<open>strtol\<close>,
  \<open>strtok\<close>, \<open>strcspn\<close>, \<open>strncmp\<close>, \<open>fgets\<close>, \<open>snprintf\<close> and the decimal conversion of \<open>printf\<close>.
  A C string is modelled by its characters before the terminating NUL; a byte buffer that may hold
  NULs is read as a C string through \<open>c_str\<close>. \<open>long\<close> is 64 bits and \<open>int\<close> 32 bits (LP64).
\<close>

type_synonym int32 = "32 word"

definition newline :: char where
  "newline = CHR 0x0A"

definition c_str :: "string \<Rightarrow> string" where
  [c_lib]: "c_str bs = takeWhile (\<lambda>c. c \<noteq> CHR 0x00) bs"

lemma c_str_id: "CHR 0x00 \<notin> set s \<Longrightarrow> c_str s = s"
  by (auto simp: c_str_def takeWhile_eq_all_conv)

lemma c_str_no_nul [simp]: "CHR 0x00 \<notin> set (c_str s)"
  by (auto simp: c_str_def dest: set_takeWhileD)

lemma c_str_idem [simp]: "c_str (c_str s) = c_str s"
  by (simp add: c_str_id)

lemma length_c_str: "length (c_str s) \<le> length s"
  by (simp add: c_str_def length_takeWhile_le)

lemma c_str_terminated: "CHR 0x00 \<notin> set s \<Longrightarrow> c_str (s @ CHR 0x00 # r) = s"
  by (induction s) (auto simp: c_str_def)

text \<open>\<open>strncmp (a, b, n) == 0\<close>: the first \<open>n\<close> characters agree, or the strings end together before.\<close>

definition strncmp_eq :: "string \<Rightarrow> string \<Rightarrow> nat \<Rightarrow> bool" where
  [c_lib]: "strncmp_eq a b n \<longleftrightarrow> take n (c_str a) = take n (c_str b)"

text \<open>\<open>s[strcspn (s, reject)] = 0\<close>: cut the string at the first character of \<open>reject\<close>.\<close>

definition strcspn :: "string \<Rightarrow> string \<Rightarrow> nat" where
  [c_lib]: "strcspn s reject = length (takeWhile (\<lambda>c. c \<notin> set reject) s)"

definition cut_at :: "nat \<Rightarrow> string \<Rightarrow> string" where
  [c_lib]: "cut_at n s = take n s"

lemma cut_strcspn: "cut_at (strcspn s r) s = takeWhile (\<lambda>c. c \<notin> set r) s"
  by (simp add: cut_at_def strcspn_def takeWhile_eq_take [symmetric])

section \<open>Decimal numbers\<close>

definition c_isdigit :: "char \<Rightarrow> bool" where
  "c_isdigit c \<longleftrightarrow> 48 \<le> (of_char c :: nat) \<and> (of_char c :: nat) \<le> 57"

definition digit_val :: "char \<Rightarrow> nat" where
  "digit_val c = of_char c - 48"

definition digit_char :: "nat \<Rightarrow> char" where
  "digit_char d = char_of (48 + d)"

definition c_isspace :: "char \<Rightarrow> bool" where
  "c_isspace c \<longleftrightarrow> c \<in> set [CHR '' '', CHR 0x09, CHR 0x0A, CHR 0x0B, CHR 0x0C, CHR 0x0D]"

definition digits_val :: "string \<Rightarrow> nat" where
  "digits_val ds = foldl (\<lambda>n c. 10 * n + digit_val c) 0 ds"

fun dec :: "nat \<Rightarrow> string" where
  "dec n = (if n < 10 then [digit_char n] else dec (n div 10) @ [digit_char (n mod 10)])"

declare dec.simps [simp del]

lemma digit_char_val [simp]: "d < 10 \<Longrightarrow> digit_val (digit_char d) = d"
  by (simp add: digit_val_def digit_char_def of_char_of)

lemma digit_char_isdigit [simp]: "d < 10 \<Longrightarrow> c_isdigit (digit_char d)"
  by (simp add: c_isdigit_def digit_char_def of_char_of)

lemma digit_val_char [simp]: "c_isdigit c \<Longrightarrow> digit_char (digit_val c) = c"
  by (simp add: c_isdigit_def digit_char_def digit_val_def)

lemma digit_val_less: "c_isdigit c \<Longrightarrow> digit_val c < 10"
  by (auto simp: c_isdigit_def digit_val_def)

lemma digits_val_simps [simp]:
  "digits_val [] = 0"
  "digits_val (ds @ [d]) = 10 * digits_val ds + digit_val d"
  by (simp_all add: digits_val_def)

lemma digits_val_single [simp]: "digits_val [d] = digit_val d"
  by (simp add: digits_val_def)

lemma dec_digits: "c \<in> set (dec n) \<Longrightarrow> c_isdigit c"
proof (induction n rule: dec.induct)
  case (1 n)
  then show ?case by (subst (asm) dec.simps) (auto split: if_splits)
qed

lemma dec_nonempty [simp]: "dec n \<noteq> []"
  by (subst dec.simps) simp

lemma digits_val_dec [simp]: "digits_val (dec n) = n"
proof (induction n rule: dec.induct)
  case (1 n)
  then show ?case by (subst dec.simps) simp
qed

lemma dec_inject [simp]: "dec m = dec n \<longleftrightarrow> m = n"
  by (metis digits_val_dec)

text \<open>A digit string without a leading zero is the decimal form of its value.\<close>

definition canonical_dec :: "string \<Rightarrow> bool" where
  "canonical_dec ds \<longleftrightarrow> ds \<noteq> [] \<and> list_all c_isdigit ds \<and> (hd ds = CHR ''0'' \<longrightarrow> tl ds = [])"

lemma digit_char_0: "digit_char 0 = CHR ''0''"
  by (simp add: digit_char_def char_of_def bit_0)

lemma digit_val_0:
  assumes "c_isdigit c"
  shows "digit_val c = 0 \<longleftrightarrow> c = CHR ''0''"
proof
  assume "digit_val c = 0"
  then have "c = digit_char 0" using digit_val_char [OF assms] by simp
  then show "c = CHR ''0''" by (simp add: digit_char_0)
qed (simp add: digit_val_def)

lemma canonical_dec_pos:
  "canonical_dec ds \<Longrightarrow> tl ds \<noteq> [] \<Longrightarrow> 0 < digits_val (butlast ds)"
proof (induction ds rule: rev_induct)
  case Nil
  then show ?case by simp
next
  case (snoc d ds)
  show ?case
  proof (cases "tl ds = []")
    case True
    with snoc.prems obtain e where "ds = [e]" by (cases ds) auto
    with snoc.prems show ?thesis by (auto simp: canonical_dec_def digit_val_0 intro!: gr0I)
  next
    case False
    with snoc.prems have "canonical_dec ds" by (cases ds) (auto simp: canonical_dec_def)
    with snoc.IH False have "0 < digits_val (butlast ds)" by simp
    moreover have "ds = butlast ds @ [last ds]" using False by (cases ds) auto
    ultimately show ?thesis
      by (metis add_gr_0 butlast_snoc digits_val_simps(2) mult_pos_pos zero_less_numeral)
  qed
qed

lemma dec_digits_val: "canonical_dec ds \<Longrightarrow> dec (digits_val ds) = ds"
proof (induction ds rule: rev_induct)
  case Nil
  then show ?case by (simp add: canonical_dec_def)
next
  case (snoc d ds)
  have d: "c_isdigit d" using snoc.prems by (simp add: canonical_dec_def)
  show ?case
  proof (cases "ds = []")
    case True
    with d show ?thesis by (subst dec.simps) (simp add: digit_val_less)
  next
    case False
    with snoc.prems have c: "canonical_dec ds" by (cases ds) (auto simp: canonical_dec_def)
    have "0 < digits_val ds"
      using canonical_dec_pos [OF snoc.prems] False by (cases ds) auto
    then have "\<not> digits_val (ds @ [d]) < 10" by simp
    with snoc.IH [OF c] d show ?thesis
      by (subst dec.simps) (simp add: digit_val_less)
  qed
qed

lemma canonical_dec_dec [simp]: "canonical_dec (dec n)"
proof (induction n rule: dec.induct)
  case (1 n)
  show ?case
  proof (cases "n < 10")
    case True
    then show ?thesis by (subst dec.simps) (simp add: canonical_dec_def)
  next
    case False
    have ne: "digits_val (dec (n div 10)) \<noteq> 0" using False by simp
    have "hd (dec (n div 10)) \<noteq> CHR ''0''"
    proof
      assume h: "hd (dec (n div 10)) = CHR ''0''"
      with 1 False have "tl (dec (n div 10)) = []" by (simp add: canonical_dec_def)
      with h have "dec (n div 10) = [CHR ''0'']" by (metis dec_nonempty list.collapse)
      with ne show False by (simp add: digit_val_def)
    qed
    with 1 False show ?thesis
      by (subst dec.simps) (auto simp: canonical_dec_def hd_append)
  qed
qed

section \<open>strtol and atoi\<close>

text \<open>
  \<open>strtol (s, &endp, 10)\<close> skips white space, reads an optional sign and the longest run of digits,
  and clamps the value to the range of \<open>long\<close>; with no digit it returns 0 and leaves \<open>endp\<close> at
  \<open>s\<close>. The second component is the string at \<open>endp\<close>. \<open>atoi\<close> is \<open>(int) strtol (s, NULL, 10)\<close>,
  so the value is reduced to 32 bits.
\<close>

definition strtol_sign :: "string \<Rightarrow> bool \<times> string" where
  "strtol_sign s = (case s of
      [] \<Rightarrow> (False, [])
    | c # r \<Rightarrow> if c = CHR ''-'' then (True, r) else if c = CHR ''+'' then (False, r) else (False, s))"

definition clamp_long :: "int \<Rightarrow> int" where
  "clamp_long v = max (- (2 ^ 63)) (min (2 ^ 63 - 1) v)"

definition strtol :: "string \<Rightarrow> int \<times> string" where
  "strtol s =
     (let (neg, u) = strtol_sign (dropWhile c_isspace s);
          ds = takeWhile c_isdigit u;
          v = int (digits_val ds)
      in if ds = [] then (0, s)
         else (clamp_long (if neg then - v else v), dropWhile c_isdigit u))"

definition atoi :: "string \<Rightarrow> int32" where
  "atoi s = word_of_int (fst (strtol s))"

lemma isdigit_not_space: "c_isdigit c \<Longrightarrow> \<not> c_isspace c"
  by (auto simp: c_isdigit_def c_isspace_def)

lemma isdigit_not_sign: "c_isdigit c \<Longrightarrow> c \<noteq> CHR ''-'' \<and> c \<noteq> CHR ''+''"
  by (auto simp: c_isdigit_def)

lemma strtol_digits:
  assumes "ds \<noteq> []" and "list_all c_isdigit ds" and "rest = [] \<or> \<not> c_isdigit (hd rest)"
  shows "strtol (ds @ rest) = (clamp_long (int (digits_val ds)), rest)"
proof -
  obtain d ds' where ds: "ds = d # ds'" using assms(1) by (cases ds) auto
  have d: "c_isdigit d" using assms(2) ds by simp
  have "dropWhile c_isspace (ds @ rest) = ds @ rest"
    using ds isdigit_not_space [OF d] by simp
  moreover have "strtol_sign (ds @ rest) = (False, ds @ rest)"
    using ds isdigit_not_sign [OF d] by (simp add: strtol_sign_def)
  moreover have "takeWhile c_isdigit (ds @ rest) = ds"
    using assms(2,3) by (cases rest) (auto simp: takeWhile_append2 list_all_iff takeWhile_tail)
  moreover have "dropWhile c_isdigit (ds @ rest) = rest"
    using assms(2,3) by (cases rest) (auto simp: dropWhile_append2 list_all_iff)
  ultimately show ?thesis using assms(1) by (simp add: strtol_def Let_def)
qed

lemma strtol_dec:
  assumes "rest = [] \<or> \<not> c_isdigit (hd rest)"
  shows "strtol (dec n @ rest) = (min (2 ^ 63 - 1) (int n), rest)"
proof -
  have "list_all c_isdigit (dec n)" by (auto simp: list_all_iff dest: dec_digits)
  from strtol_digits [OF dec_nonempty this assms] show ?thesis
    by (auto simp: clamp_long_def)
qed

lemma atoi_dec: "n < 2 ^ 31 \<Longrightarrow> sint (atoi (dec n)) = int n"
  using strtol_dec [of "[]" n] by (simp add: atoi_def signed_of_int signed_take_bit_int_eq_self del: of_int_of_nat_eq)

lemma strtol_bounds: "- (2 ^ 63) \<le> fst (strtol s) \<and> fst (strtol s) \<le> 2 ^ 63 - 1"
  by (auto simp: strtol_def Let_def clamp_long_def split: prod.splits)

section \<open>strtok\<close>

text \<open>
  \<open>strtok\<close> keeps a pointer into the string it splits; the model returns the token and the rest of
  the string that the next call with a null pointer continues from. With an empty delimiter set
  the token is the whole rest.
\<close>

definition strtok :: "string \<Rightarrow> string \<Rightarrow> string option \<times> string" where
  "strtok delims s =
     (let t = dropWhile (\<lambda>c. c \<in> set delims) s
      in if t = [] then (None, [])
         else (Some (takeWhile (\<lambda>c. c \<notin> set delims) t),
               drop 1 (dropWhile (\<lambda>c. c \<notin> set delims) t)))"

lemma dropWhile_True [simp]: "dropWhile (\<lambda>c. True) s = []"
  by (induction s) auto

lemma strtok_empty_delims: "strtok [] s = (if s = [] then (None, []) else (Some s, []))"
  by (cases s) (auto simp: strtok_def Let_def)

lemma strtok_nil [simp]: "strtok delims [] = (None, [])"
  by (simp add: strtok_def)

lemma strtok_token:
  assumes "tok \<noteq> []" "set tok \<inter> set delims = {}" "d \<in> set delims"
  shows "strtok delims (tok @ d # rest) = (Some tok, rest)"
proof -
  have "dropWhile (\<lambda>c. c \<in> set delims) (tok @ d # rest) = tok @ d # rest"
    using assms(1,2) by (cases tok) auto
  moreover have "takeWhile (\<lambda>c. c \<notin> set delims) (tok @ d # rest) = tok"
    using assms(2,3) by (subst takeWhile_append2) (auto simp: disjoint_iff)
  moreover have "dropWhile (\<lambda>c. c \<notin> set delims) (tok @ d # rest) = d # rest"
    using assms(2,3) by (subst dropWhile_append2) (auto simp: disjoint_iff)
  ultimately show ?thesis using assms(1) by (simp add: strtok_def)
qed

lemma strtok_last:
  assumes "tok \<noteq> []" "set tok \<inter> set delims = {}"
  shows "strtok delims tok = (Some tok, [])"
proof -
  have "dropWhile (\<lambda>c. c \<in> set delims) tok = tok" using assms by (cases tok) auto
  moreover have "takeWhile (\<lambda>c. c \<notin> set delims) tok = tok"
    using assms(2) by (auto simp: takeWhile_eq_all_conv disjoint_iff)
  moreover have "dropWhile (\<lambda>c. c \<notin> set delims) tok = []"
    using assms(2) by (auto simp: disjoint_iff)
  ultimately show ?thesis using assms(1) by (simp add: strtok_def del: dropWhile_eq_Nil_conv)
qed

lemma strtok_None: "fst (strtok delims s) = None \<longleftrightarrow> set s \<subseteq> set delims"
  by (auto simp: strtok_def Let_def)

lemma strtok_Some:
  assumes "strtok delims s = (Some tok, rest)"
  shows "tok \<noteq> [] \<and> set tok \<inter> set delims = {} \<and> set tok \<subseteq> set s \<and> set rest \<subseteq> set s"
proof -
  let ?t = "dropWhile (\<lambda>c. c \<in> set delims) s"
  have ne: "?t \<noteq> []" and tok: "tok = takeWhile (\<lambda>c. c \<notin> set delims) ?t"
    and rest: "rest = drop 1 (dropWhile (\<lambda>c. c \<notin> set delims) ?t)"
    using assms by (auto simp: strtok_def Let_def split: if_splits)
  from ne obtain c t where t: "?t = c # t" by (cases ?t) auto
  then have "c \<notin> set delims" by (metis hd_dropWhile list.sel(1) ne)
  with tok t have "tok \<noteq> []" by simp
  moreover have "set tok \<inter> set delims = {}" using tok by (auto dest: set_takeWhileD)
  moreover have "set ?t \<subseteq> set s" by (auto dest: set_dropWhileD)
  moreover have "set tok \<subseteq> set ?t" using tok by (auto dest: set_takeWhileD)
  moreover have "set rest \<subseteq> set ?t" using rest by (auto dest!: in_set_dropD set_dropWhileD)
  ultimately show ?thesis by blast
qed

section \<open>fgets, snprintf\<close>

text \<open>
  \<open>fgets (buf, n, stdin)\<close> on the bytes still to be read: a null pointer at end of file, otherwise
  the bytes up to and with the first newline, at most \<open>n - 1\<close> of them, and the input that is left.
\<close>

definition fgets :: "nat \<Rightarrow> string \<Rightarrow> (string \<times> string) option" where
  "fgets n inp =
     (if inp = [] then None
      else let k = min (n - 1) (Suc (length (takeWhile (\<lambda>c. c \<noteq> newline) inp)))
           in Some (take k inp, drop k inp))"

lemma fgets_None [simp]: "fgets n inp = None \<longleftrightarrow> inp = []"
  by (simp add: fgets_def Let_def)

lemma fgets_shrinks:
  "1 < n \<Longrightarrow> fgets n inp = Some (buf, rest) \<Longrightarrow> length rest < length inp"
  by (auto simp: fgets_def Let_def split: if_splits)

lemma fgets_bound: "fgets n inp = Some (buf, rest) \<Longrightarrow> length buf \<le> n - 1"
  by (auto simp: fgets_def Let_def split: if_splits)

lemma fgets_split: "fgets n inp = Some (buf, rest) \<Longrightarrow> buf @ rest = inp"
  by (auto simp: fgets_def Let_def split: if_splits)

lemma fgets_line:
  assumes "newline \<notin> set l" "length l + 2 \<le> n"
  shows "fgets n (l @ newline # rest) = Some (l @ [newline], rest)"
proof -
  have "takeWhile (\<lambda>c. c \<noteq> newline) (l @ newline # rest) = l"
    using assms(1) by (subst takeWhile_append2) auto
  with assms(2) show ?thesis by (simp add: fgets_def Let_def)
qed

text \<open>\<open>snprintf (buf, n, ...)\<close> stores at most \<open>n - 1\<close> characters of the formatted text.\<close>

definition snprintf :: "nat \<Rightarrow> string \<Rightarrow> string" where
  [c_lib]: "snprintf n text = take (n - 1) text"

lemma snprintf_fits: "length text < n \<Longrightarrow> snprintf n text = text"
  by (simp add: snprintf_def)

end
