(* ===== verification/Inet.thy ===== *)
theory Inet
  imports C_Lib
begin

unbundle bit_operations_syntax

text \<open>
  IPv4 addresses as the chat program handles them: \<open>inet_pton\<close> and \<open>inet_ntop\<close> for \<open>AF_INET\<close>
  (glibc: four decimal octets without leading zeros), \<open>htons\<close> and \<open>ntohs\<close>, and \<open>is_valid_ipv4\<close> of
  \<open>src/connection.c\<close>. The lemmas show that printing an address is a right inverse of parsing it
  and that only the printed form parses, which is what lets the program compare addresses as
  strings.
\<close>

datatype in_addr = In_addr "8 word" "8 word" "8 word" "8 word"

record sockaddr_in =
  sin_port :: "16 word"
  sin_addr :: in_addr

definition htons :: "16 word \<Rightarrow> 16 word" where
  "htons w = (push_bit 8 w OR drop_bit 8 w)"

definition ntohs :: "16 word \<Rightarrow> 16 word" where
  "ntohs w = (push_bit 8 w OR drop_bit 8 w)"

lemma ntohs_htons [simp]: "ntohs (htons w) = w"
  by (rule bit_word_eqI) (auto simp: ntohs_def htons_def bit_simps dest: bit_imp_le_length)

lemma port_roundtrip:
  "0 < port \<Longrightarrow> port \<le> 65535 \<Longrightarrow> uint (ntohs (htons (word_of_int port))) = port"
  by (simp add: uint_word_of_int)

section \<open>Dotted decimal\<close>

fun split_dots :: "string \<Rightarrow> string list" where
  "split_dots [] = [[]]"
| "split_dots (c # s) =
     (if c = CHR ''.'' then [] # split_dots s
      else case split_dots s of [] \<Rightarrow> [[c]] | p # ps \<Rightarrow> (c # p) # ps)"

definition octet_of :: "string \<Rightarrow> 8 word option" where
  "octet_of p = (if canonical_dec p \<and> digits_val p \<le> 255 then Some (word_of_nat (digits_val p)) else None)"

definition inet_pton :: "string \<Rightarrow> in_addr option" where
  "inet_pton s = (case map octet_of (split_dots s) of
      [Some a, Some b, Some c, Some d] \<Rightarrow> Some (In_addr a b c d)
    | _ \<Rightarrow> None)"

fun inet_ntop :: "in_addr \<Rightarrow> string" where
  "inet_ntop (In_addr a b c d) =
     dec (unat a) @ ''.'' @ dec (unat b) @ ''.'' @ dec (unat c) @ ''.'' @ dec (unat d)"

lemma split_dots_nonempty [simp]: "split_dots s \<noteq> []"
  by (induction s) (auto split: list.splits)

lemma split_dots_piece [simp]: "CHR ''.'' \<notin> set p \<Longrightarrow> split_dots p = [p]"
  by (induction p) auto

lemma split_dots_append:
  "CHR ''.'' \<notin> set p \<Longrightarrow> split_dots (p @ CHR ''.'' # s) = p # split_dots s"
  by (induction p) auto

fun join_dots :: "string list \<Rightarrow> string" where
  "join_dots [] = []"
| "join_dots [p] = p"
| "join_dots (p # q # ps) = p @ ''.'' @ join_dots (q # ps)"

lemma join_split_dots [simp]: "join_dots (split_dots s) = s"
proof (induction s)
  case Nil
  then show ?case by simp
next
  case (Cons c s)
  obtain p ps where "split_dots s = p # ps" by (cases "split_dots s") auto
  with Cons show ?case by (cases ps) auto
qed

lemma dec_no_dot [simp]: "CHR ''.'' \<notin> set (dec n)"
  by (auto dest!: dec_digits simp: c_isdigit_def)

lemma octet_of_dec [simp]: "octet_of (dec (unat (w :: 8 word))) = Some w"
proof -
  have "unat w < 2 ^ LENGTH(8)" by (rule unsigned_less)
  then show ?thesis by (simp add: octet_of_def)
qed

lemma octet_of_Some: "octet_of p = Some w \<Longrightarrow> p = dec (unat w)"
  by (auto simp: octet_of_def dec_digits_val unat_of_nat split: if_splits)

lemma inet_pton_ntop [simp]: "inet_pton (inet_ntop a) = Some a"
  by (cases a) (simp add: inet_pton_def split_dots_append)

lemma map_eq4:
  assumes "map f xs = [a, b, c, d]"
  obtains p q r s where "xs = [p, q, r, s]" "f p = a" "f q = b" "f r = c" "f s = d"
  using assms by (auto simp: map_eq_Cons_conv)

lemma inet_pton_Some:
  assumes "inet_pton s = Some a"
  shows "inet_ntop a = s"
proof -
  from assms obtain a1 a2 a3 a4 where
    m: "map octet_of (split_dots s) = [Some a1, Some a2, Some a3, Some a4]"
    and a: "a = In_addr a1 a2 a3 a4"
    by (auto simp: inet_pton_def split: list.splits option.splits)
  from m obtain p q r t where sp: "split_dots s = [p, q, r, t]"
    and o: "octet_of p = Some a1" "octet_of q = Some a2" "octet_of r = Some a3" "octet_of t = Some a4"
    by (rule map_eq4)
  have "s = join_dots [p, q, r, t]" by (metis sp join_split_dots)
  with a o [THEN octet_of_Some] show ?thesis by simp
qed

lemma inet_pton_iff: "inet_pton s = Some a \<longleftrightarrow> s = inet_ntop a"
  by (auto dest: inet_pton_Some)

lemma inet_ntop_inject [simp]: "inet_ntop a = inet_ntop b \<longleftrightarrow> a = b"
  by (metis inet_pton_ntop option.inject)

lemma length_dec_le: "n < 10 ^ k \<Longrightarrow> 0 < k \<Longrightarrow> length (dec n) \<le> k"
proof (induction k arbitrary: n)
  case 0
  then show ?case by simp
next
  case (Suc k)
  show ?case
  proof (cases "n < 10")
    case True
    then show ?thesis by (subst dec.simps) simp
  next
    case False
    then have "0 < k" using Suc.prems(1) by (cases k) auto
    moreover have "n div 10 < 10 ^ k" using Suc.prems(1) by (simp add: div_less_iff_less_mult mult.commute)
    ultimately have "length (dec (n div 10)) \<le> k" using Suc.IH by blast
    with False show ?thesis by (subst dec.simps) simp
  qed
qed

lemma length_octet: "length (dec (unat (w :: 8 word))) \<le> 3"
proof -
  have "unat w < 2 ^ LENGTH(8)" by (rule unsigned_less)
  then show ?thesis by (intro length_dec_le) auto
qed

text \<open>\<open>INET_ADDRSTRLEN\<close> is 16: the address and its NUL fit every \<open>char ip[INET_ADDRSTRLEN]\<close>.\<close>

lemma inet_ntop_fits: "length (inet_ntop a) < 16"
proof (cases a)
  case (In_addr a b c d)
  then show ?thesis
    using length_octet [of a] length_octet [of b] length_octet [of c] length_octet [of d] by simp
qed

section \<open>is_valid_ipv4\<close>

text \<open>A null \<open>const char *\<close> is \<open>None\<close>.\<close>

definition is_valid_ipv4 :: "string option \<Rightarrow> bool" where
  "is_valid_ipv4 ip = (case ip of
      None \<Rightarrow> False
    | Some s \<Rightarrow> if s = [] then False else inet_pton s \<noteq> None)"

lemma inet_ntop_nonempty [simp]: "inet_ntop a \<noteq> []" "[] \<noteq> inet_ntop a"
  by (cases a; simp)+

lemma is_valid_ipv4_iff: "is_valid_ipv4 (Some s) \<longleftrightarrow> (\<exists>a. s = inet_ntop a)"
  by (auto simp: is_valid_ipv4_def inet_pton_iff)

end
