(* ===== verification/Conn_State.thy ===== *)
theory Conn_State
  imports Inet
begin

text \<open>
  The data of the peer-to-peer chat (\<open>S6_IPC_Socket/ex2_p2pchat\<close>): the \<open>PeerConn\<close> node, the global
  variables, what the program prints and which system calls it makes, and the linked list of
  connections in a heap.

  The heap maps the address of every allocated node to its fields; a freed address is not mapped,
  so reading it has no value. The trace records, in order, the lock operations, output, socket
  calls, joins and frees. Functions that walk the list are \<open>partial_function (option)\<close>: \<open>None\<close>
  is an execution that does not come back (a cyclic list, a join that never ends) or reads memory
  that is not allocated.
\<close>

section \<open>Nodes, globals, effects\<close>

type_synonym addr = nat
type_synonym tid = nat

text \<open>\<open>PeerConn\<close> of \<open>common.h\<close>. \<open>pc_thread\<close> is \<open>None\<close> until \<open>pthread_create\<close> stores it.\<close>

record peer_conn =
  pc_id :: int32
  pc_sockfd :: int
  pc_ip :: string
  pc_port :: int
  pc_thread :: "tid option"
  pc_active :: bool
  pc_should_remove :: bool
  pc_next :: "addr option"

datatype mutex = Conn_mutex | Print_mutex

text \<open>
  The program's output: one constructor per format string, with the printed arguments (an
  argument read from freed memory has no value: \<open>None\<close>). Messages of
  the network threads (\<open>connection.c\<close>, \<open>listener.c\<close>), of the commands (\<open>command.c\<close>) and of \<open>main\<close>.
\<close>

datatype net_msg =
    M_peer_disconnect string int
  | M_message string int string
  | M_peer_closed string int
  | M_recv_failed string int int
  | M_removed "int32 option"
  | M_accept_failed int
  | M_listener_add_failed
  | M_listener_create_failed
  | M_accepted "(int32 \<times> string \<times> int) option"

datatype link_msg =
    M_invalid_ip "string option"
  | M_invalid_port "string option"
  | M_self_connect
  | M_duplicate string int int32
  | M_socket_failed int
  | M_pton_failed string
  | M_connect_failed string int int
  | M_add_failed
  | M_create_failed
  | M_connected string int int32

datatype cmd_msg =
    M_help
  | M_list_header
  | M_list_row int32 string int
  | M_not_found int32
  | M_terminated int32
  | M_too_long
  | M_not_active int32
  | M_send_failed int
  | M_sent int32 string int string
  | M_exiting

datatype main_msg =
    M_usage
  | M_bad_port
  | M_local_ip string int32
  | M_perror string
  | M_prompt
  | M_myip string
  | M_myport int32
  | M_usage_connect
  | M_usage_terminate
  | M_usage_send
  | M_invalid_id
  | M_goodbye
  | M_unknown

datatype msg = Net net_msg | Link link_msg | Cmd cmd_msg | Main main_msg

datatype event =
    Lock mutex
  | Unlock mutex
  | Out msg
  | Sock_send int string
  | Sock_shutdown int
  | Sock_close int
  | Join "tid option"
  | Free addr
  | Stale_read addr

text \<open>
  The globals of \<open>connection.c\<close> and \<open>listener.c\<close>, and the threads: \<open>next_tid\<close> names the next thread
  \<open>pthread_create\<close> makes, \<open>finished\<close> lists the receiving threads that have returned and
  \<open>listener_done\<close> says that the listener has, which is what \<open>pthread_join\<close> waits for.
\<close>

record p2p =
  heap :: "addr \<rightharpoonup> peer_conn"
  conn_head :: "addr option"
  next_conn_id :: int32
  server_sock :: int
  listen_port :: int32
  local_ip :: string
  listener_thread_id :: "tid option"
  running :: bool
  finished :: "tid list"
  next_tid :: tid
  listener_done :: bool
  trace :: "event list"

definition initial_p2p :: p2p where
  "initial_p2p = \<lparr>heap = Map.empty, conn_head = None, next_conn_id = 1, server_sock = -1,
     listen_port = 0, local_ip = ''0.0.0.0'', listener_thread_id = None, running = True,
     finished = [], next_tid = 0, listener_done = False, trace = []\<rparr>"

definition emit :: "event \<Rightarrow> p2p \<Rightarrow> p2p" where
  "emit e st = st\<lparr>trace := trace st @ [e]\<rparr>"

definition printf :: "msg \<Rightarrow> p2p \<Rightarrow> p2p" where
  "printf m st = emit (Out m) st"

definition safe_printf :: "msg \<Rightarrow> p2p \<Rightarrow> p2p" where
  "safe_printf m st = emit (Unlock Print_mutex) (emit (Out m) (emit (Lock Print_mutex) st))"

definition put_node :: "addr \<Rightarrow> peer_conn \<Rightarrow> p2p \<Rightarrow> p2p" where
  "put_node a c st = st\<lparr>heap := (heap st)(a \<mapsto> c)\<rparr>"

definition free_node :: "addr \<Rightarrow> p2p \<Rightarrow> p2p" where
  "free_node a st = emit (Free a) (st\<lparr>heap := (heap st)(a := None)\<rparr>)"

lemma emit_fields [eff]:
  "heap (emit e st) = heap st" "conn_head (emit e st) = conn_head st"
  "next_conn_id (emit e st) = next_conn_id st" "server_sock (emit e st) = server_sock st"
  "listen_port (emit e st) = listen_port st" "local_ip (emit e st) = local_ip st"
  "listener_thread_id (emit e st) = listener_thread_id st"
  "running (emit e st) = running st" "finished (emit e st) = finished st"
  "next_tid (emit e st) = next_tid st"
  "listener_done (emit e st) = listener_done st"
  "trace (emit e st) = trace st @ [e]"
  by (simp_all add: emit_def)

lemma printf_fields [eff]:
  "heap (printf m st) = heap st" "conn_head (printf m st) = conn_head st"
  "next_conn_id (printf m st) = next_conn_id st" "server_sock (printf m st) = server_sock st"
  "listen_port (printf m st) = listen_port st" "local_ip (printf m st) = local_ip st"
  "listener_thread_id (printf m st) = listener_thread_id st"
  "running (printf m st) = running st" "finished (printf m st) = finished st"
  "next_tid (printf m st) = next_tid st"
  "listener_done (printf m st) = listener_done st"
  "trace (printf m st) = trace st @ [Out m]"
  by (simp_all add: printf_def eff)

lemma safe_printf_fields [eff]:
  "heap (safe_printf m st) = heap st" "conn_head (safe_printf m st) = conn_head st"
  "next_conn_id (safe_printf m st) = next_conn_id st"
  "server_sock (safe_printf m st) = server_sock st"
  "listen_port (safe_printf m st) = listen_port st" "local_ip (safe_printf m st) = local_ip st"
  "listener_thread_id (safe_printf m st) = listener_thread_id st"
  "running (safe_printf m st) = running st" "finished (safe_printf m st) = finished st"
  "next_tid (safe_printf m st) = next_tid st"
  "listener_done (safe_printf m st) = listener_done st"
  "trace (safe_printf m st) = trace st @ [Lock Print_mutex, Out m, Unlock Print_mutex]"
  by (simp_all add: safe_printf_def eff)

lemma put_node_fields [eff]:
  "heap (put_node a c st) = (heap st)(a \<mapsto> c)" "conn_head (put_node a c st) = conn_head st"
  "next_conn_id (put_node a c st) = next_conn_id st" "server_sock (put_node a c st) = server_sock st"
  "listen_port (put_node a c st) = listen_port st" "local_ip (put_node a c st) = local_ip st"
  "listener_thread_id (put_node a c st) = listener_thread_id st"
  "running (put_node a c st) = running st" "finished (put_node a c st) = finished st"
  "next_tid (put_node a c st) = next_tid st"
  "listener_done (put_node a c st) = listener_done st"
  "trace (put_node a c st) = trace st"
  by (simp_all add: put_node_def)

lemma free_node_fields [eff]:
  "heap (free_node a st) = (heap st)(a := None)" "conn_head (free_node a st) = conn_head st"
  "next_conn_id (free_node a st) = next_conn_id st" "server_sock (free_node a st) = server_sock st"
  "listen_port (free_node a st) = listen_port st" "local_ip (free_node a st) = local_ip st"
  "listener_thread_id (free_node a st) = listener_thread_id st"
  "running (free_node a st) = running st" "finished (free_node a st) = finished st"
  "next_tid (free_node a st) = next_tid st"
  "listener_done (free_node a st) = listener_done st"
  "trace (free_node a st) = trace st @ [Free a]"
  by (simp_all add: free_node_def eff)

section \<open>Lock discipline\<close>

text \<open>
  \<open>locks held es\<close> checks a trace: no mutex is taken twice or released without being held,
  \<open>conn_mutex\<close> is never taken while \<open>print_mutex\<close> is held (so the two cannot deadlock), and nobody waits
  for a thread while holding \<open>conn_mutex\<close>, which the thread needs to finish. The result is what is held
  at the end.
\<close>

fun locks :: "mutex list \<Rightarrow> event list \<Rightarrow> mutex list option" where
  "locks held [] = Some held"
| "locks held (Lock m # es) =
     (if m \<in> set held \<or> Print_mutex \<in> set held then None else locks (m # held) es)"
| "locks held (Unlock m # es) = (if m \<in> set held then locks (remove1 m held) es else None)"
| "locks held (Join t # es) = (if Conn_mutex \<in> set held then None else locks held es)"
| "locks held (_ # es) = locks held es"

lemma locks_append: "locks held (es @ fs) = Option.bind (locks held es) (\<lambda>h. locks h fs)"
  by (induction held es rule: locks.induct) auto

definition runs :: "mutex list \<Rightarrow> p2p \<Rightarrow> mutex list \<Rightarrow> p2p \<Rightarrow> bool" where
  "runs h st h' st' \<longleftrightarrow> (\<exists>es. trace st' = trace st @ es \<and> locks h es = Some h')"

lemma runs_refl [simp, intro]: "runs h st h st"
  by (auto simp: runs_def)

lemma runs_trans: "runs h st h1 st1 \<Longrightarrow> runs h1 st1 h2 st2 \<Longrightarrow> runs h st h2 st2"
  unfolding runs_def by (fastforce simp: locks_append)

lemma runs_trace: "trace st' = trace st @ es \<Longrightarrow> locks h es = Some h' \<Longrightarrow> runs h st h' st'"
  by (auto simp: runs_def)

lemma runs_same: "trace st' = trace st \<Longrightarrow> runs h st h st'"
  by (simp add: runs_def)

text \<open>The variables no list operation writes.\<close>

definition globals :: "p2p \<Rightarrow> bool \<times> int \<times> int32 \<times> string \<times> tid option" where
  "globals st = (running st, server_sock st, listen_port st, local_ip st, listener_thread_id st)"

lemma globals_eff [eff]:
  "globals (emit e st) = globals st" "globals (printf m st) = globals st"
  "globals (safe_printf m st) = globals st" "globals (put_node a c st) = globals st"
  "globals (free_node a st) = globals st" "globals (st\<lparr>finished := f\<rparr>) = globals st"
  "globals (st\<lparr>conn_head := p\<rparr>) = globals st" "globals (st\<lparr>next_conn_id := i\<rparr>) = globals st"
  "globals (st\<lparr>next_tid := t\<rparr>) = globals st" "globals (st\<lparr>listener_done := b\<rparr>) = globals st"
  by (simp_all add: globals_def eff)

section \<open>The linked list in the heap\<close>

text \<open>
  \<open>conn_list h p xs\<close>: from \<open>p\<close> the \<open>next\<close> pointers lead through exactly the nodes \<open>xs\<close>, each an
  address with its fields, \<open>next\<close> erased (\<open>unlinked\<close>), to a null pointer.
\<close>

definition unlinked :: "peer_conn \<Rightarrow> peer_conn" where
  "unlinked c = c\<lparr>pc_next := None\<rparr>"

lemma unlinked_fields [simp]:
  "pc_id (unlinked c) = pc_id c" "pc_sockfd (unlinked c) = pc_sockfd c"
  "pc_ip (unlinked c) = pc_ip c" "pc_port (unlinked c) = pc_port c"
  "pc_thread (unlinked c) = pc_thread c" "pc_active (unlinked c) = pc_active c"
  "pc_should_remove (unlinked c) = pc_should_remove c" "pc_next (unlinked c) = None"
  "unlinked (unlinked c) = unlinked c" "unlinked (c\<lparr>pc_next := q\<rparr>) = unlinked c"
  "(unlinked c)\<lparr>pc_thread := t\<rparr> = unlinked (c\<lparr>pc_thread := t\<rparr>)"
  "(unlinked c)\<lparr>pc_active := b\<rparr> = unlinked (c\<lparr>pc_active := b\<rparr>)"
  "(unlinked c)\<lparr>pc_should_remove := b\<rparr> = unlinked (c\<lparr>pc_should_remove := b\<rparr>)"
  by (simp_all add: unlinked_def)

type_synonym peer_list = "(addr \<times> peer_conn) list"

fun conn_list :: "(addr \<rightharpoonup> peer_conn) \<Rightarrow> addr option \<Rightarrow> peer_list \<Rightarrow> bool" where
  "conn_list h p [] \<longleftrightarrow> p = None"
| "conn_list h p ((a, i) # xs) \<longleftrightarrow>
     p = Some a \<and> (\<exists>c. h a = Some c \<and> i = unlinked c \<and> conn_list h (pc_next c) xs)"

lemma conn_list_None [simp]: "conn_list h None xs \<longleftrightarrow> xs = []"
  by (cases xs) auto

lemma conn_list_SomeE:
  assumes "conn_list h (Some a) xs"
  obtains c ys where "xs = (a, unlinked c) # ys" "h a = Some c" "conn_list h (pc_next c) ys"
  using assms by (cases xs) auto

lemma conn_list_unique: "conn_list h p xs \<Longrightarrow> conn_list h p ys \<Longrightarrow> xs = ys"
proof (induction xs arbitrary: p ys)
  case Nil
  then show ?case by (cases ys) auto
next
  case (Cons x xs)
  then show ?case by (cases x, cases ys) auto
qed

lemma conn_list_mapped: "conn_list h p xs \<Longrightarrow> (a, i) \<in> set xs \<Longrightarrow> \<exists>c. h a = Some c \<and> i = unlinked c"
  by (induction xs arbitrary: p) auto

lemma conn_list_frame:
  "a \<notin> fst ` set xs \<Longrightarrow> conn_list (h(a := v)) p xs = conn_list h p xs"
  by (induction xs arbitrary: p) auto

lemma conn_list_agree:
  "conn_list h p xs \<Longrightarrow> (\<And>b i. (b, i) \<in> set xs \<Longrightarrow> g b = h b) \<Longrightarrow> conn_list g p xs"
proof (induction xs arbitrary: p)
  case Nil
  then show ?case by simp
next
  case (Cons x xs)
  obtain a i where x: "x = (a, i)" by (cases x)
  have "g a = h a" by (rule Cons.prems(2) [of a i]) (simp add: x)
  moreover have "\<And>q. conn_list h q xs \<Longrightarrow> conn_list g q xs"
    by (meson Cons.IH Cons.prems(2) list.set_intros(2))
  ultimately show ?case using Cons.prems(1) by (auto simp: x)
qed

lemma conn_list_suffix:
  "conn_list h p (xs @ (a, i) # ys) \<Longrightarrow> conn_list h (Some a) ((a, i) # ys)"
  by (induction xs arbitrary: p) auto

lemma conn_list_head_notin:
  assumes "conn_list h (Some a) ((a, i) # xs)"
  shows "a \<notin> fst ` set xs"
proof
  assume "a \<in> fst ` set xs"
  then obtain j ys zs where xs: "xs = ys @ (a, j) # zs" by (auto simp: in_set_conv_decomp)
  with assms have "conn_list h (Some a) ((a, i) # ys @ (a, j) # zs)" by simp
  moreover from this have "conn_list h (Some a) ((a, j) # zs)"
    using conn_list_suffix [of h _ "(a, i) # ys" a j zs] by simp
  ultimately have "(a, i) # ys @ (a, j) # zs = (a, j) # zs" by (rule conn_list_unique)
  then have "length ((a, i) # ys @ (a, j) # zs) = length ((a, j) # zs)" by (rule arg_cong)
  then show False by simp
qed

lemma conn_list_distinct: "conn_list h p xs \<Longrightarrow> distinct (map fst xs)"
proof (induction xs arbitrary: p)
  case Nil
  then show ?case by simp
next
  case (Cons x xs)
  then show ?case
    using conn_list_head_notin [of h "fst x" "snd x" xs] by (cases x) auto
qed

text \<open>Changing the fields of one node, but not its \<open>next\<close>, changes that node of the list.\<close>

lemma conn_list_update:
  assumes "conn_list h p xs" "h a = Some c" "pc_next d = pc_next c"
  shows "conn_list (h(a \<mapsto> d)) p (map (\<lambda>(b, i). if b = a then (b, unlinked d) else (b, i)) xs)"
  using assms
proof (induction xs arbitrary: p)
  case Nil
  then show ?case by simp
next
  case (Cons x xs)
  obtain b i where x: "x = (b, i)" by (cases x)
  from Cons.prems(1) x obtain e where e: "p = Some b" "h b = Some e" "conn_list h (pc_next e) xs"
    by auto
  have "conn_list (h(a \<mapsto> d)) (pc_next e)
      (map (\<lambda>(b, i). if b = a then (b, unlinked d) else (b, i)) xs)"
    by (rule Cons.IH [OF e(3) Cons.prems(2,3)])
  with x e Cons.prems show ?case by (auto simp: fun_upd_def)
qed

section \<open>Walking the list\<close>

text \<open>
  The loop \<open>while (cur) { if (P cur) break; prev = cur; cur = cur->next; }\<close>, which the code writes
  for \<open>find_connection_by_id\<close>, \<open>cmd_terminate\<close>, \<open>cmd_send\<close>, the duplicate check and the searches for a
  node: the final \<open>(prev, cur)\<close>.
\<close>

partial_function (option) list_search ::
  "(addr \<Rightarrow> peer_conn \<Rightarrow> bool) \<Rightarrow> (addr \<rightharpoonup> peer_conn) \<Rightarrow> addr option \<Rightarrow> addr option \<Rightarrow>
     (addr option \<times> addr option) option" where
  [code]: "list_search P h prev cur =
     (case cur of
        None \<Rightarrow> Some (prev, None)
      | Some a \<Rightarrow>
          (case h a of
             None \<Rightarrow> None
           | Some c \<Rightarrow> if P a c then Some (prev, cur)
                      else list_search P h cur (pc_next c)))"

text \<open>On a list the search always returns: the first node that satisfies the test.\<close>

lemma list_search_miss:
  "conn_list h cur xs \<Longrightarrow> \<forall>(a, i) \<in> set xs. \<forall>c. h a = Some c \<longrightarrow> \<not> P a c \<Longrightarrow>
   list_search P h prev cur = Some (if xs = [] then prev else Some (fst (last xs)), None)"
proof (induction xs arbitrary: prev cur)
  case Nil
  then show ?case by (subst list_search.simps) simp
next
  case (Cons x xs)
  obtain a i where x: "x = (a, i)" by (cases x)
  with Cons.prems(1) obtain c where c: "cur = Some a" "h a = Some c" "conn_list h (pc_next c) xs"
    by auto
  have "\<not> P a c" using Cons.prems(2) x c(2) by auto
  moreover have "list_search P h (Some a) (pc_next c) =
      Some (if xs = [] then Some a else Some (fst (last xs)), None)"
    using Cons.IH [OF c(3)] Cons.prems(2) by simp
  ultimately show ?case using x c by (subst list_search.simps) simp
qed

lemma list_search_hit:
  "conn_list h cur (xs @ (a, i) # ys) \<Longrightarrow>
   \<forall>(b, j) \<in> set xs. \<forall>c. h b = Some c \<longrightarrow> \<not> P b c \<Longrightarrow> h a = Some c \<Longrightarrow> P a c \<Longrightarrow>
   list_search P h prev cur = Some (if xs = [] then prev else Some (fst (last xs)), Some a)"
proof (induction xs arbitrary: prev cur)
  case Nil
  then show ?case by (subst list_search.simps) auto
next
  case (Cons x xs)
  obtain b j where x: "x = (b, j)" by (cases x)
  with Cons.prems(1) obtain d where d: "cur = Some b" "h b = Some d"
    "conn_list h (pc_next d) (xs @ (a, i) # ys)" by auto
  have "\<not> P b d" using Cons.prems(2) x d(2) by auto
  moreover have "list_search P h (Some b) (pc_next d) =
      Some (if xs = [] then Some b else Some (fst (last xs)), Some a)"
    using Cons.IH [OF d(3) _ Cons.prems(3,4)] Cons.prems(2) by simp
  ultimately show ?case using x d by (subst list_search.simps) simp
qed

end
