(* ===== verification/Connection.thy ===== *)
theory Connection
  imports Conn_State
begin

text \<open>
  \<open>src/connection.c\<close>: adding, finding and removing a node of the connection list, and the receiving
  thread of a connection. \<open>conns st xs\<close> says that the global list holds exactly the nodes \<open>xs\<close> and that no
  other node is allocated; the lemmas give the effect of each operation on \<open>xs\<close>.
\<close>

definition conns :: "p2p \<Rightarrow> peer_list \<Rightarrow> bool" where
  "conns st xs \<longleftrightarrow> conn_list (heap st) (conn_head st) xs \<and> dom (heap st) = fst ` set xs"

lemma conns_unique: "conns st xs \<Longrightarrow> conns st ys \<Longrightarrow> xs = ys"
  by (auto simp: conns_def intro: conn_list_unique)

lemma conns_distinct: "conns st xs \<Longrightarrow> distinct (map fst xs)"
  by (auto simp: conns_def intro: conn_list_distinct)

lemma conns_mapped: "conns st xs \<Longrightarrow> (a, i) \<in> set xs \<Longrightarrow> \<exists>c. heap st a = Some c \<and> i = unlinked c"
  by (auto simp: conns_def dest: conn_list_mapped)

lemma conns_emit [simp]: "conns (emit e st) xs = conns st xs"
  by (simp add: conns_def eff)

lemma conns_printf [simp]:
  "conns (printf m st) xs = conns st xs" "conns (safe_printf m st) xs = conns st xs"
  by (simp_all add: conns_def eff)

lemma conns_initial: "conns initial_p2p []"
  by (simp add: conns_def initial_p2p_def)

text \<open>Changing fields of one node of the list, its \<open>next\<close> excepted.\<close>

definition at_addr :: "addr \<Rightarrow> (peer_conn \<Rightarrow> peer_conn) \<Rightarrow> peer_list \<Rightarrow> peer_list" where
  "at_addr a f xs = map (\<lambda>(b, i). if b = a then (b, f i) else (b, i)) xs"

lemma at_addr_fst [simp]: "map fst (at_addr a f xs) = map fst xs"
  by (induction xs) (auto simp: at_addr_def)

lemma at_addr_dom [simp]: "fst ` set (at_addr a f xs) = fst ` set xs"
  by (metis at_addr_fst image_set)

lemma at_addr_append [simp]: "at_addr a f (xs @ ys) = at_addr a f xs @ at_addr a f ys"
  by (simp add: at_addr_def)

lemma at_addr_simps [simp]:
  "at_addr a f [] = []"
  "at_addr a f ((b, i) # xs) = (if b = a then (b, f i) else (b, i)) # at_addr a f xs"
  by (simp_all add: at_addr_def)

lemma at_addr_other: "b \<noteq> a \<Longrightarrow> (b, i) \<in> set (at_addr a f xs) \<longleftrightarrow> (b, i) \<in> set xs"
  by (induction xs) (auto split: if_splits)

lemma at_addr_fresh: "a \<notin> fst ` set xs \<Longrightarrow> at_addr a f xs = xs"
  by (induction xs) auto

lemma conns_put_node:
  assumes "conns st xs" "heap st a = Some c" "pc_next d = pc_next c" "unlinked d = f (unlinked c)"
  shows "conns (put_node a d st) (at_addr a f xs)"
proof -
  have cl: "conn_list (heap st) (conn_head st) xs" using assms(1) by (simp add: conns_def)
  have "map (\<lambda>(b, i). if b = a then (b, unlinked d) else (b, i)) xs = at_addr a f xs"
    using conn_list_mapped [OF cl] assms(2,4) by (fastforce simp: at_addr_def)
  with conn_list_update [OF cl assms(2,3)]
  have "conn_list ((heap st)(a \<mapsto> d)) (conn_head st) (at_addr a f xs)" by simp
  moreover have "dom ((heap st)(a \<mapsto> d)) = fst ` set (at_addr a f xs)"
    using assms(1,2) by (auto simp: conns_def)
  ultimately show ?thesis by (simp add: conns_def eff)
qed

section \<open>add_connection\<close>

text \<open>
  \<open>malloc\<close> gives the address of the new node, or \<open>None\<close> when it fails. \<open>__sync_fetch_and_add\<close> wraps
  around at 32 bits.
\<close>

definition new_conn :: "int32 \<Rightarrow> int \<Rightarrow> sockaddr_in \<Rightarrow> peer_conn" where
  "new_conn i fd peer =
     \<lparr>pc_id = i, pc_sockfd = fd, pc_ip = inet_ntop (sin_addr peer),
      pc_port = uint (ntohs (sin_port peer)), pc_thread = None, pc_active = True,
      pc_should_remove = False, pc_next = None\<rparr>"

definition add_connection ::
  "int \<Rightarrow> sockaddr_in \<Rightarrow> addr option \<Rightarrow> p2p \<Rightarrow> addr option \<times> p2p" where
  "add_connection fd peer malloc st =
     (case malloc of
        None \<Rightarrow> (None, st)
      | Some a \<Rightarrow>
          (let c = new_conn (next_conn_id st) fd peer;
               st1 = put_node a c (st\<lparr>next_conn_id := next_conn_id st + 1\<rparr>);
               st2 = emit (Lock Conn_mutex) st1;
               st3 = put_node a (c\<lparr>pc_next := conn_head st2\<rparr>) st2;
               st4 = st3\<lparr>conn_head := Some a\<rparr>
           in (Some a, emit (Unlock Conn_mutex) st4)))"

lemma add_connection_fail: "add_connection fd peer None st = (None, st)"
  by (simp add: add_connection_def)

lemma add_connection_conns:
  assumes "conns st xs" "a \<notin> dom (heap st)" "add_connection fd peer (Some a) st = (r, st')"
  shows "r = Some a" "conns st' ((a, new_conn (next_conn_id st) fd peer) # xs)"
    "next_conn_id st' = next_conn_id st + 1"
    "trace st' = trace st @ [Lock Conn_mutex, Unlock Conn_mutex]"
proof -
  let ?c = "new_conn (next_conn_id st) fd peer"
  have h: "heap st' = (heap st)(a \<mapsto> ?c\<lparr>pc_next := conn_head st\<rparr>)" "conn_head st' = Some a"
    using assms(3) by (auto simp: add_connection_def Let_def eff)
  have a: "a \<notin> fst ` set xs" using assms(1,2) by (simp add: conns_def)
  have "unlinked ?c = ?c" by (simp add: unlinked_def new_conn_def)
  then have "conn_list (heap st') (conn_head st') ((a, ?c) # xs)"
    using h a assms(1) by (simp add: conns_def conn_list_frame)
  moreover have "dom (heap st') = fst ` set ((a, ?c) # xs)"
    using h assms(1) by (simp add: conns_def)
  ultimately show "conns st' ((a, ?c) # xs)" by (simp add: conns_def)
  show "r = Some a" "next_conn_id st' = next_conn_id st + 1"
    "trace st' = trace st @ [Lock Conn_mutex, Unlock Conn_mutex]"
    using assms(3) by (auto simp: add_connection_def Let_def eff)
qed

lemma add_connection_frame:
  assumes "add_connection fd peer m st = (r, st')"
  shows "finished st' = finished st" "next_tid st' = next_tid st" "globals st' = globals st"
  using assms by (auto simp: add_connection_def Let_def eff split: option.splits)

section \<open>find_connection_by_id\<close>

definition find_connection_by_id :: "int32 \<Rightarrow> p2p \<Rightarrow> addr option option" where
  "find_connection_by_id cid st =
     map_option snd (list_search (\<lambda>_ c. pc_id c = cid) (heap st) None (conn_head st))"

text \<open>The reference: the first entry of an association list that satisfies a test.\<close>

definition first_addr :: "(peer_conn \<Rightarrow> bool) \<Rightarrow> peer_list \<Rightarrow> addr option" where
  "first_addr P xs = map_option fst (List.find (\<lambda>(a, i). P i) xs)"

lemma first_addr_hit: "P i \<Longrightarrow> \<forall>x \<in> set ys. \<not> P (snd x) \<Longrightarrow> first_addr P (ys @ (a, i) # zs) = Some a"
  by (induction ys) (auto simp: first_addr_def)

lemma first_addr_None: "first_addr P xs = None \<longleftrightarrow> (\<forall>x \<in> set xs. \<not> P (snd x))"
  by (auto simp: first_addr_def find_None_iff)

lemma first_addr_Some:
  assumes "first_addr P xs = Some a"
  obtains ys i zs where "xs = ys @ (a, i) # zs" "P i" "\<forall>x \<in> set ys. \<not> P (snd x)"
proof -
  have "\<exists>x \<in> set xs. P (snd x)" using assms first_addr_None [of P xs] by auto
  then obtain ys x zs where xs: "xs = ys @ x # zs" "P (snd x)" "\<forall>y \<in> set ys. \<not> P (snd y)"
    by (auto dest!: split_list_first_prop [of xs "\<lambda>x. P (snd x)"])
  then have "first_addr P xs = Some (fst x)"
    using first_addr_hit [of P "snd x" ys "fst x" zs] by simp
  with assms xs that [of ys "snd x" zs] show ?thesis by simp
qed

text \<open>A test that does not look at \<open>next\<close> may be evaluated on the erased nodes.\<close>

lemma search_first_addr:
  assumes "conn_list h cur xs" "\<And>c. P (unlinked c) = P c"
  shows "\<exists>prev'. list_search (\<lambda>_. P) h prev cur = Some (prev', first_addr P xs)"
proof (cases "first_addr P xs")
  case None
  then have "\<forall>(a, i) \<in> set xs. \<forall>c. h a = Some c \<longrightarrow> \<not> P c"
    using conn_list_mapped [OF assms(1)] assms(2) by (fastforce simp: first_addr_None)
  from list_search_miss [where P = "\<lambda>_. P", OF assms(1) this] None show ?thesis by auto
next
  case (Some a)
  then obtain ys i zs where xs: "xs = ys @ (a, i) # zs" and i: "P i"
    and ys: "\<forall>x \<in> set ys. \<not> P (snd x)" by (rule first_addr_Some)
  have m: "\<And>b j. (b, j) \<in> set xs \<Longrightarrow> \<exists>c. h b = Some c \<and> j = unlinked c"
    by (rule conn_list_mapped [OF assms(1)])
  from m [of a i] xs i assms(2) obtain c where c: "h a = Some c" "P c" by auto
  have "\<forall>(b, j) \<in> set ys. \<forall>c. h b = Some c \<longrightarrow> \<not> P c"
    using m ys assms(2) xs by fastforce
  then show ?thesis
    using list_search_hit [where P = "\<lambda>_. P", OF assms(1) [unfolded xs] _ c] Some by auto
qed

lemma find_connection_by_id_conns:
  "conns st xs \<Longrightarrow> find_connection_by_id cid st = Some (first_addr (\<lambda>c. pc_id c = cid) xs)"
  using search_first_addr [of "heap st" "conn_head st" xs "\<lambda>c. pc_id c = cid" None]
  by (auto simp: find_connection_by_id_def conns_def)

section \<open>remove_node_locked\<close>

definition remove_node_locked :: "addr option \<Rightarrow> addr option \<Rightarrow> p2p \<Rightarrow> p2p option" where
  "remove_node_locked prev cur st =
     (case cur of
        None \<Rightarrow> Some st
      | Some a \<Rightarrow>
          (case heap st a of
             None \<Rightarrow> None
           | Some c \<Rightarrow>
               (case prev of
                  Some p \<Rightarrow>
                    (case heap st p of
                       None \<Rightarrow> None
                     | Some pc \<Rightarrow> Some (free_node a (put_node p (pc\<lparr>pc_next := pc_next c\<rparr>) st)))
                | None \<Rightarrow> Some (free_node a (st\<lparr>conn_head := pc_next c\<rparr>)))))"

text \<open>The state after \<open>x\<close> has been cut out between \<open>ys\<close> and \<open>zs\<close>.\<close>

definition drop_addr :: "addr \<Rightarrow> peer_list \<Rightarrow> peer_list" where
  "drop_addr a xs = filter (\<lambda>(b, _). b \<noteq> a) xs"

lemma drop_addr_append [simp]: "drop_addr a (xs @ ys) = drop_addr a xs @ drop_addr a ys"
  by (simp add: drop_addr_def)

lemma drop_addr_Cons [simp]:
  "drop_addr a ((b, i) # xs) = (if b = a then drop_addr a xs else (b, i) # drop_addr a xs)"
  by (simp add: drop_addr_def)

lemma drop_addr_fresh: "a \<notin> fst ` set xs \<Longrightarrow> drop_addr a xs = xs"
  by (force simp: drop_addr_def filter_id_conv)

lemma drop_addr_set: "fst ` set (drop_addr a xs) = fst ` set xs - {a}"
  by (force simp: drop_addr_def)

lemma conn_list_relink:
  assumes "conn_list h p (ys @ (b, j) # (a, i) # zs)" "h a = Some c" "h b = Some d"
  shows "conn_list (h(b \<mapsto> d\<lparr>pc_next := pc_next c\<rparr>, a := None)) p (ys @ (b, j) # zs)"
  using assms
proof (induction ys arbitrary: p)
  case Nil
  then have "\<forall>k. (a, k) \<notin> set zs" "\<forall>k. (b, k) \<notin> set zs" "a \<noteq> b"
    using conn_list_distinct [OF Nil(1)] by (force simp: image_iff)+
  with Nil show ?case by (auto elim!: conn_list_agree)
next
  case (Cons y ys)
  obtain e k where y: "y = (e, k)" by (cases y)
  have "e \<noteq> a" "e \<noteq> b" using conn_list_distinct [OF Cons.prems(1)] y by auto
  with Cons y show ?case by auto
qed

lemma remove_node_locked_conns:
  assumes "conns st (ys @ (a, i) # zs)"
    and "prev = (if ys = [] then None else Some (fst (last ys)))"
  obtains st' where "remove_node_locked prev (Some a) st = Some st'" "conns st' (ys @ zs)"
    "trace st' = trace st @ [Free a]" "finished st' = finished st" "heap st' a = None"
    "next_conn_id st' = next_conn_id st"
    "next_tid st' = next_tid st" "globals st' = globals st"
proof (cases ys rule: rev_cases)
  case Nil
  with assms have l: "conn_list (heap st) (conn_head st) ((a, i) # zs)"
    and d: "dom (heap st) = fst ` set ((a, i) # zs)" by (auto simp: conns_def)
  from l obtain c where c: "heap st a = Some c" "conn_list (heap st) (pc_next c) zs" by auto
  have "a \<notin> fst ` set zs" using conn_list_distinct [OF l] by (auto simp: image_iff)
  with c d Nil have "conns (free_node a (st\<lparr>conn_head := pc_next c\<rparr>)) (ys @ zs)"
    by (auto simp: conns_def eff conn_list_frame)
  with c Nil assms(2) show ?thesis
    by (intro that [of "free_node a (st\<lparr>conn_head := pc_next c\<rparr>)"])
      (simp_all add: remove_node_locked_def eff)
next
  case (snoc ws y)
  obtain b j where y: "y = (b, j)" by (cases y)
  from assms have l: "conn_list (heap st) (conn_head st) (ws @ (b, j) # (a, i) # zs)"
    and d: "dom (heap st) = fst ` set (ws @ (b, j) # (a, i) # zs)"
    by (auto simp: conns_def snoc y)
  obtain c where c: "heap st a = Some c" using conn_list_mapped [OF l, of a i] by auto
  obtain e where e: "heap st b = Some e" using conn_list_mapped [OF l, of b j] by auto
  let ?st' = "free_node a (put_node b (e\<lparr>pc_next := pc_next c\<rparr>) st)"
  have "conn_list (heap ?st') (conn_head ?st') (ys @ zs)"
    using conn_list_relink [OF l c e] by (simp add: eff snoc y)
  moreover have "dom (heap ?st') = fst ` set (ys @ zs)"
    using d e conn_list_distinct [OF l] by (auto simp: eff snoc y)
  ultimately have "conns ?st' (ys @ zs)" by (simp add: conns_def)
  with c e assms(2) show ?thesis
    by (intro that [of ?st']) (simp_all add: remove_node_locked_def eff snoc y)
qed

section \<open>Taking back a node\<close>

text \<open>
  When \<open>pthread_create\<close> fails, \<open>listener_thread\<close> and \<open>cmd_connect\<close> take the node they have just added
  out of the list again: the head is advanced, or the node before it is searched and relinked.
\<close>

definition unlink_and_free :: "addr \<Rightarrow> p2p \<Rightarrow> p2p option" where
  "unlink_and_free p st =
     (let st1 = emit (Lock Conn_mutex) st in
      case heap st1 p of
        None \<Rightarrow> None
      | Some c \<Rightarrow>
          map_option (\<lambda>st2. emit (Unlock Conn_mutex) (free_node p st2))
            (if conn_head st1 = Some p then Some (st1\<lparr>conn_head := pc_next c\<rparr>)
             else case list_search (\<lambda>_ d. pc_next d = Some p) (heap st1) None (conn_head st1) of
                    None \<Rightarrow> None
                  | Some (_, None) \<Rightarrow> Some st1
                  | Some (_, Some b) \<Rightarrow>
                      (case heap st1 b of
                         None \<Rightarrow> None
                       | Some d \<Rightarrow> Some (put_node b (d\<lparr>pc_next := pc_next c\<rparr>) st1))))"

lemma list_search_pred:
  "conn_list h p (ys @ (b, j) # (a, i) # zs) \<Longrightarrow>
   \<exists>q. list_search (\<lambda>_ d. pc_next d = Some a) h prev p = Some (q, Some b)"
proof (induction ys arbitrary: p prev)
  case Nil
  then show ?case by (subst list_search.simps) auto
next
  case (Cons y ys)
  obtain e k where y: "y = (e, k)" by (cases y)
  from Cons.prems y obtain c where c: "p = Some e" "h e = Some c"
    "conn_list h (pc_next c) (ys @ (b, j) # (a, i) # zs)" by auto
  have "pc_next c \<noteq> Some a"
  proof (cases ys)
    case Nil
    with c(3) conn_list_distinct [OF Cons.prems] show ?thesis by auto
  next
    case (Cons z zs)
    with c(3) conn_list_distinct [OF c(3)] show ?thesis by (cases z) auto
  qed
  with Cons.IH [OF c(3), of p] c show ?case by (subst list_search.simps) simp
qed

lemma unlink_and_free_conns:
  assumes "conns st xs" "(p, i) \<in> set xs"
  obtains st' where "unlink_and_free p st = Some st'" "conns st' (drop_addr p xs)"
    "trace st' = trace st @ [Lock Conn_mutex, Free p, Unlock Conn_mutex]"
    "finished st' = finished st" "next_conn_id st' = next_conn_id st"
    "next_tid st' = next_tid st" "globals st' = globals st"
proof -
  obtain ys zs where xs: "xs = ys @ (p, i) # zs" using assms(2) by (auto simp: in_set_conv_decomp)
  have dist: "distinct (map fst xs)" using assms(1) by (rule conns_distinct)
  have drop: "drop_addr p xs = ys @ zs"
    using dist by (auto simp: xs drop_addr_fresh)
  obtain c where c: "heap st p = Some c" using conns_mapped [OF assms] by auto
  show ?thesis
  proof (cases ys rule: rev_cases)
    case Nil
    with assms(1) xs c have h: "conn_head st = Some p" by (auto simp: conns_def)
    obtain st' where st': "remove_node_locked None (Some p) st = Some st'" "conns st' (ys @ zs)"
      using remove_node_locked_conns [of st ys p i zs None] assms(1) xs Nil by auto
    have u: "unlink_and_free p st = Some (emit (Unlock Conn_mutex)
        (free_node p ((emit (Lock Conn_mutex) st)\<lparr>conn_head := pc_next c\<rparr>)))"
      using c h by (simp add: unlink_and_free_def eff)
    have "st' = free_node p (st\<lparr>conn_head := pc_next c\<rparr>)"
      using st'(1) c by (simp add: remove_node_locked_def)
    then show ?thesis using st'(2) drop
      by (intro that [OF u]) (auto simp: conns_def eff)
  next
    case (snoc ws y)
    obtain b j where y: "y = (b, j)" by (cases y)
    have l: "conn_list (heap st) (conn_head st) (ws @ (b, j) # (p, i) # zs)"
      using assms(1) by (simp add: conns_def xs snoc y)
    obtain q where q: "list_search (\<lambda>_ d. pc_next d = Some p) (heap st) None (conn_head st) = Some (q, Some b)"
      using list_search_pred [OF l] by blast
    have "conn_head st \<noteq> Some p"
      using l conn_list_distinct [OF l] by (cases ws) auto
    moreover obtain d where d: "heap st b = Some d" using conn_list_mapped [OF l, of b j] by auto
    ultimately have u: "unlink_and_free p st = Some (emit (Unlock Conn_mutex)
        (free_node p (put_node b (d\<lparr>pc_next := pc_next c\<rparr>) (emit (Lock Conn_mutex) st))))"
      using c q by (simp add: unlink_and_free_def eff)
    have r: "remove_node_locked (Some b) (Some p) st =
        Some (free_node p (put_node b (d\<lparr>pc_next := pc_next c\<rparr>) st))"
      using c d by (simp add: remove_node_locked_def)
    obtain st' where "remove_node_locked (Some b) (Some p) st = Some st'" "conns st' (ys @ zs)"
      using remove_node_locked_conns [of st ys p i zs "Some b"] assms(1) xs snoc y by auto
    with r have "conns (free_node p (put_node b (d\<lparr>pc_next := pc_next c\<rparr>) st)) (ys @ zs)" by simp
    with drop show ?thesis by (intro that [OF u]) (auto simp: conns_def eff)
  qed
qed

end
