(* ===== verification/Receiver.thy ===== *)
theory Receiver
  imports Connection
begin

text \<open>
  \<open>conn_recv_thread\<close> of \<open>src/connection.c\<close>: the thread that receives from one connection. What the
  kernel delivers is a script: \<open>Rx bs\<close> is data that has arrived (\<open>recv\<close> takes at most \<open>BUFSIZE - 1\<close> bytes of
  it and leaves the rest for the next call), \<open>Rx []\<close> is the end of the stream (\<open>recv\<close> returns 0) and
  \<open>Rx_err e\<close> a call that fails with \<open>errno = e\<close>. At the end of the script the thread is blocked in
  \<open>recv\<close>.
\<close>

definition BUFSIZE :: nat where
  "BUFSIZE = 512"

definition EINTR :: int where
  "EINTR = 4"

definition disconnect_cmd :: string where
  "disconnect_cmd = ''CMD:DISCONNECT''"

datatype recv_res = Rx string | Rx_err int

definition recv_size :: "recv_res \<Rightarrow> nat" where
  "recv_size r = (case r of Rx bs \<Rightarrow> Suc (length bs) | Rx_err e \<Rightarrow> 1)"

lemma recv_size_simps [simp]: "recv_size (Rx bs) = Suc (length bs)" "recv_size (Rx_err e) = 1"
  by (simp_all add: recv_size_def)

text \<open>
  The loop. The result says whether the thread left the loop (\<open>break\<close>) or is still receiving.
\<close>

function recv_loop :: "addr \<Rightarrow> recv_res list \<Rightarrow> p2p \<Rightarrow> (bool \<times> p2p) option" where
  "recv_loop a [] st = Some (False, st)"
| "recv_loop a (Rx bs # rs) st =
     (case heap st a of
        None \<Rightarrow> None
      | Some conn \<Rightarrow>
          if bs \<noteq> [] then
            (let buf = take (BUFSIZE - 1) bs; rest = drop (BUFSIZE - 1) bs in
             if strncmp_eq buf disconnect_cmd 14 then
               Some (True, safe_printf (Net (M_peer_disconnect (pc_ip conn) (pc_port conn))) st)
             else recv_loop a (if rest = [] then rs else Rx rest # rs)
                    (safe_printf (Net (M_message (pc_ip conn) (pc_port conn) (c_str buf))) st))
          else Some (True, safe_printf (Net (M_peer_closed (pc_ip conn) (pc_port conn))) st))"
| "recv_loop a (Rx_err e # rs) st =
     (case heap st a of
        None \<Rightarrow> None
      | Some conn \<Rightarrow>
          if e = EINTR then recv_loop a rs st
          else Some (True, safe_printf (Net (M_recv_failed (pc_ip conn) (pc_port conn) e)) st))"
  by pat_completeness auto
termination
  by (relation "measure (\<lambda>(a, rs, st). sum_list (map recv_size rs))") (auto simp: BUFSIZE_def)

declare recv_loop.simps(2,3) [simp del]

lemma recv_loop_closed:
  "heap st a = Some c \<Longrightarrow> recv_loop a (Rx [] # rs) st =
     Some (True, safe_printf (Net (M_peer_closed (pc_ip c) (pc_port c))) st)"
  by (simp add: recv_loop.simps)

lemma recv_loop_disconnect:
  "heap st a = Some c \<Longrightarrow> bs \<noteq> [] \<Longrightarrow> strncmp_eq (take (BUFSIZE - 1) bs) disconnect_cmd 14 \<Longrightarrow>
   recv_loop a (Rx bs # rs) st =
     Some (True, safe_printf (Net (M_peer_disconnect (pc_ip c) (pc_port c))) st)"
  by (simp add: recv_loop.simps)

lemma recv_loop_message:
  "heap st a = Some c \<Longrightarrow> bs \<noteq> [] \<Longrightarrow> \<not> strncmp_eq (take (BUFSIZE - 1) bs) disconnect_cmd 14 \<Longrightarrow>
   recv_loop a (Rx bs # rs) st =
     recv_loop a (if drop (BUFSIZE - 1) bs = [] then rs else Rx (drop (BUFSIZE - 1) bs) # rs)
       (safe_printf (Net (M_message (pc_ip c) (pc_port c) (c_str (take (BUFSIZE - 1) bs)))) st)"
  by (subst recv_loop.simps) (simp only: Let_def option.case if_True if_False not_False_eq_True)

lemma recv_loop_eintr:
  "heap st a = Some c \<Longrightarrow> recv_loop a (Rx_err EINTR # rs) st = recv_loop a rs st"
  by (simp add: recv_loop.simps)

lemma recv_loop_error:
  "heap st a = Some c \<Longrightarrow> e \<noteq> EINTR \<Longrightarrow> recv_loop a (Rx_err e # rs) st =
     Some (True, safe_printf (Net (M_recv_failed (pc_ip c) (pc_port c) e)) st)"
  by (simp add: recv_loop.simps)

text \<open>
  The end of the thread: under the lock it marks the connection dead and to be removed. All that is left of the
  function after the unlock is \<open>return NULL\<close>, which nothing can hinder; it is taken together with the marking as one
  step, so that joining the thread of a marked connection returns at once, where the real call waits for that return.
\<close>

definition recv_exit :: "addr \<Rightarrow> p2p \<Rightarrow> p2p option" where
  "recv_exit a st =
     (let st1 = emit (Lock Conn_mutex) st in
      case heap st1 a of
        None \<Rightarrow> None
      | Some c \<Rightarrow>
          (let st2 = put_node a (c\<lparr>pc_active := False, pc_should_remove := True\<rparr>) st1;
               st3 = emit (Unlock Conn_mutex) st2
           in Some (st3\<lparr>finished :=
                (case pc_thread c of None \<Rightarrow> finished st3 | Some t \<Rightarrow> t # finished st3)\<rparr>)))"

definition conn_recv_thread :: "addr \<Rightarrow> recv_res list \<Rightarrow> p2p \<Rightarrow> p2p option" where
  "conn_recv_thread a rs st =
     (case recv_loop a rs st of
        None \<Rightarrow> None
      | Some (left, st') \<Rightarrow> if left then recv_exit a st' else Some st')"

section \<open>What the loop prints\<close>

text \<open>
  Printing changes nothing but the trace; the loop therefore never fails on an allocated node and
  changes nothing but the trace.
\<close>

definition printed :: "p2p \<Rightarrow> msg list \<Rightarrow> p2p" where
  "printed st ms = fold safe_printf ms st"

lemma printed_fields [eff]:
  "heap (printed st ms) = heap st" "conn_head (printed st ms) = conn_head st"
  "next_conn_id (printed st ms) = next_conn_id st" "finished (printed st ms) = finished st"
  "next_tid (printed st ms) = next_tid st"
  "globals (printed st ms) = globals st"
  by (induction ms arbitrary: st) (auto simp: printed_def eff)

lemma printed_simps [simp]: "printed st [] = st" "printed st (m # ms) = printed (safe_printf m st) ms"
  by (simp_all add: printed_def)

lemma printed_append [simp]: "printed st (ms @ ns) = printed (printed st ms) ns"
  by (simp add: printed_def)

lemma recv_loop_prints:
  "heap st a = Some c \<Longrightarrow> \<exists>left ms. recv_loop a rs st = Some (left, printed st ms)"
proof (induction a rs st rule: recv_loop.induct)
  case (1 a st)
  show ?case by (intro exI [of _ False] exI [of _ "[]"]) simp
next
  case (2 a bs rs st)
  let ?buf = "take (BUFSIZE - 1) bs" and ?rest = "drop (BUFSIZE - 1) bs"
  let ?m = "Net (M_message (pc_ip c) (pc_port c) (c_str ?buf))"
  consider "bs = []" | "bs \<noteq> []" "strncmp_eq ?buf disconnect_cmd 14"
    | "bs \<noteq> []" "\<not> strncmp_eq ?buf disconnect_cmd 14" by blast
  then show ?case
  proof cases
    case 1
    with recv_loop_closed [OF "2.prems"] show ?thesis
      by (intro exI [of _ True] exI [of _ "[Net (M_peer_closed (pc_ip c) (pc_port c))]"]) simp
  next
    case 2
    with recv_loop_disconnect [OF "2.prems" 2] show ?thesis
      by (intro exI [of _ True] exI [of _ "[Net (M_peer_disconnect (pc_ip c) (pc_port c))]"]) simp
  next
    case 3
    from "2.IH" [OF "2.prems" 3(1) refl refl 3(2)] "2.prems" obtain left ms where
      ih: "recv_loop a (if ?rest = [] then rs else Rx ?rest # rs) (safe_printf ?m st) =
        Some (left, printed (safe_printf ?m st) ms)" by (auto simp: eff)
    show ?thesis
      by (intro exI [of _ left] exI [of _ "?m # ms"])
        (simp only: recv_loop_message [OF "2.prems" 3] ih printed_simps)
  qed
next
  case (3 a e rs st)
  show ?case
  proof (cases "e = EINTR")
    case True
    with "3.IH" [OF "3.prems"] "3.prems" recv_loop_eintr [OF "3.prems"] show ?thesis by simp
  next
    case False
    show ?thesis
      by (intro exI [of _ True] exI [of _ "[Net (M_recv_failed (pc_ip c) (pc_port c) e)]"])
        (simp add: recv_loop_error [OF "3.prems" False])
  qed
qed

section \<open>The end of the thread\<close>

definition mark_dead :: "peer_conn \<Rightarrow> peer_conn" where
  "mark_dead c = c\<lparr>pc_active := False, pc_should_remove := True\<rparr>"

lemma mark_dead_fields [simp]:
  "pc_id (mark_dead c) = pc_id c" "pc_sockfd (mark_dead c) = pc_sockfd c"
  "pc_ip (mark_dead c) = pc_ip c" "pc_port (mark_dead c) = pc_port c"
  "pc_thread (mark_dead c) = pc_thread c" "\<not> pc_active (mark_dead c)"
  "pc_should_remove (mark_dead c)" "pc_next (mark_dead c) = pc_next c"
  "mark_dead (unlinked c) = unlinked (mark_dead c)"
  by (simp_all add: mark_dead_def)

lemma recv_exit_conns:
  assumes "conns st xs" "heap st a = Some c"
  obtains st' where "recv_exit a st = Some st'" "conns st' (at_addr a mark_dead xs)"
    "finished st' = (case pc_thread c of None \<Rightarrow> finished st | Some t \<Rightarrow> t # finished st)"
    "trace st' = trace st @ [Lock Conn_mutex, Unlock Conn_mutex]"
    "next_conn_id st' = next_conn_id st" "next_tid st' = next_tid st" "globals st' = globals st"
proof -
  let ?st = "emit (Unlock Conn_mutex) (put_node a (mark_dead c) (emit (Lock Conn_mutex) st))"
  let ?f = "case pc_thread c of None \<Rightarrow> finished ?st | Some t \<Rightarrow> t # finished ?st"
  have r: "recv_exit a st = Some (?st\<lparr>finished := ?f\<rparr>)"
    using assms(2) by (simp add: recv_exit_def Let_def emit_fields(1) mark_dead_def [symmetric])
  have "conns (put_node a (mark_dead c) (emit (Lock Conn_mutex) st)) (at_addr a mark_dead xs)"
    by (rule conns_put_node) (use assms in \<open>simp_all add: eff\<close>)
  then have "conns (?st\<lparr>finished := ?f\<rparr>) (at_addr a mark_dead xs)" by (simp add: conns_def eff)
  then show ?thesis by (intro that [OF r]) (simp_all add: eff split: option.split)
qed

end
