(* ===== verification/Listener.thy ===== *)
theory Listener
  imports Receiver
begin

text \<open>
  \<open>src/listener.c\<close>: the thread that accepts connections, and the invariant of the connection list
  (\<open>p2p_ok\<close>): every node has the thread that serves it, no two nodes share one, and a node is marked for
  removal exactly when its thread has returned.
\<close>

section \<open>The invariant of the list\<close>

definition node_ok :: "tid list \<Rightarrow> tid \<Rightarrow> peer_conn \<Rightarrow> bool" where
  "node_ok fin nt i \<longleftrightarrow>
     (\<exists>t < nt. pc_thread i = Some t \<and> (pc_should_remove i \<longleftrightarrow> t \<in> set fin)) \<and>
     (pc_should_remove i \<longrightarrow> \<not> pc_active i)"

definition p2p_ok :: "p2p \<Rightarrow> peer_list \<Rightarrow> bool" where
  "p2p_ok st xs \<longleftrightarrow> conns st xs \<and> distinct (map (\<lambda>x. pc_thread (snd x)) xs) \<and>
     (\<forall>x \<in> set xs. node_ok (finished st) (next_tid st) (snd x)) \<and>
     (\<forall>t \<in> set (finished st). t < next_tid st)"

text \<open>
  The same while the threads of some nodes, those at the addresses \<open>Q\<close>, are still to be created: between
  \<open>add_connection\<close> and \<open>pthread_create\<close> a node is in the list and has no thread.
\<close>

definition served :: "tid list \<Rightarrow> tid \<Rightarrow> peer_list \<Rightarrow> bool" where
  "served fin nt xs \<longleftrightarrow> distinct (map (\<lambda>x. pc_thread (snd x)) xs) \<and> (\<forall>x \<in> set xs. node_ok fin nt (snd x)) \<and>
     (\<forall>t \<in> set fin. t < nt)"

definition others :: "addr set \<Rightarrow> peer_list \<Rightarrow> peer_list" where
  "others Q xs = filter (\<lambda>x. fst x \<notin> Q) xs"

definition starting :: "peer_conn \<Rightarrow> bool" where
  "starting i \<longleftrightarrow> pc_thread i = None \<and> pc_active i \<and> \<not> pc_should_remove i"

definition p2p_on :: "addr set \<Rightarrow> p2p \<Rightarrow> peer_list \<Rightarrow> bool" where
  "p2p_on Q st xs \<longleftrightarrow> conns st xs \<and> served (finished st) (next_tid st) (others Q xs) \<and>
     Q \<subseteq> fst ` set xs \<and> (\<forall>x \<in> set xs. fst x \<in> Q \<longrightarrow> starting (snd x))"

lemma p2p_ok_served: "p2p_ok st xs \<longleftrightarrow> conns st xs \<and> served (finished st) (next_tid st) xs"
  by (simp add: p2p_ok_def served_def)

lemma others_simps [simp]:
  "others {} xs = xs" "others Q [] = []" "others Q (x # xs) = (if fst x \<in> Q then others Q xs else x # others Q xs)"
  "others Q (xs @ ys) = others Q xs @ others Q ys" "x \<in> set (others Q xs) \<longleftrightarrow> x \<in> set xs \<and> fst x \<notin> Q"
  by (auto simp: others_def)

lemma p2p_on_empty: "p2p_on {} st xs \<longleftrightarrow> p2p_ok st xs"
  by (simp add: p2p_on_def p2p_ok_served)

lemma on_conns: "p2p_on Q st xs \<Longrightarrow> conns st xs"
  by (simp add: p2p_on_def)

lemma on_cong:
  "p2p_on Q st xs \<Longrightarrow> conns st' xs \<Longrightarrow> finished st' = finished st \<Longrightarrow> next_tid st' = next_tid st \<Longrightarrow> p2p_on Q st' xs"
  by (simp add: p2p_on_def)

lemma on_emit [simp]: "p2p_on Q (emit e st) xs = p2p_on Q st xs"
  by (simp add: p2p_on_def eff)

lemma on_printf [simp]: "p2p_on Q (printf m st) xs = p2p_on Q st xs" "p2p_on Q (safe_printf m st) xs = p2p_on Q st xs"
  by (simp_all add: p2p_on_def eff)

lemma on_printed [simp]: "p2p_on Q (printed st ms) xs = p2p_on Q st xs"
  by (induction ms arbitrary: st) auto

lemma served_mark:
  assumes s: "served F n xs" "distinct (map fst xs)" and m: "(a, i) \<in> set xs" "pc_thread i = Some t" "t \<notin> set F"
  shows "served (t # F) n (at_addr a mark_dead xs)"
proof -
  have thr: "map (\<lambda>x. pc_thread (snd x)) (at_addr a mark_dead xs) = map (\<lambda>x. pc_thread (snd x)) xs"
    by (auto simp: at_addr_def)
  have dist: "distinct (map (\<lambda>x. pc_thread (snd x)) xs)" using s(1) by (simp add: served_def)
  have i: "node_ok F n i" using s(1) m(1) by (force simp: served_def)
  have "node_ok (t # F) n (snd y)" if "y \<in> set (at_addr a mark_dead xs)" for y
  proof -
    from that obtain b j where bj: "(b, j) \<in> set xs"
      and y: "y = (if b = a then (b, mark_dead j) else (b, j))" by (auto simp: at_addr_def)
    have ok: "node_ok F n j" using s(1) bj by (force simp: served_def)
    show ?thesis
    proof (cases "b = a")
      case True
      then have "j = i" using s(2) bj m(1) by (metis eq_key_imp_eq_value)
      with True y m ok show ?thesis by (auto simp: node_ok_def)
    next
      case False
      have "pc_thread j \<noteq> Some t"
      proof
        assume "pc_thread j = Some t"
        then have "(b, j) = (a, i)"
          using dist bj m(1,2)
          by (intro inj_onD [of "\<lambda>x. pc_thread (snd x)" "set xs"]) (auto simp: distinct_map)
        with False show False by simp
      qed
      with ok False y show ?thesis by (auto simp: node_ok_def)
    qed
  qed
  moreover have "t < n" using i m(2) by (simp add: node_ok_def)
  ultimately show ?thesis using s(1) dist by (simp add: served_def thr)
qed

lemma served_add:
  assumes "served F n xs" "pc_thread i = Some n" "\<not> pc_should_remove i"
  shows "served F (Suc n) ((a, i) # xs)"
proof -
  have "n \<notin> set F" "pc_thread i \<notin> (\<lambda>x. pc_thread (snd x)) ` set xs"
    using assms by (fastforce simp: served_def node_ok_def)+
  moreover have "node_ok F (Suc n) (snd x)" if "x \<in> set xs" for x
    using that assms(1) by (fastforce simp: served_def node_ok_def)
  ultimately show ?thesis using assms by (auto simp: served_def node_ok_def less_Suc_eq)
qed

lemma others_at_addr: "a \<notin> Q \<Longrightarrow> others Q (at_addr a f xs) = at_addr a f (others Q xs)"
  by (induction xs) auto

lemma on_distinct: "p2p_on Q st xs \<Longrightarrow> distinct (map fst (others Q xs))"
  using conns_distinct [OF on_conns] by (simp add: others_def distinct_map_filter)

lemma on_heap:
  assumes "p2p_on Q st xs" "heap st a = Some c"
  shows "(a, unlinked c) \<in> set xs"
proof -
  have "a \<in> fst ` set xs" using assms by (auto simp: p2p_on_def conns_def)
  then obtain i where i: "(a, i) \<in> set xs" by auto
  with conns_mapped [OF on_conns [OF assms(1)] i] assms(2) show ?thesis by auto
qed

lemma wf_conns: "p2p_ok st xs \<Longrightarrow> conns st xs"
  by (simp add: p2p_ok_def)

lemma wf_initial: "p2p_ok initial_p2p []"
  using conns_initial by (simp add: p2p_ok_def initial_p2p_def)

lemma wf_cong:
  "p2p_ok st xs \<Longrightarrow> conns st' xs \<Longrightarrow> finished st' = finished st \<Longrightarrow> next_tid st' = next_tid st \<Longrightarrow> p2p_ok st' xs"
  by (simp add: p2p_ok_def)

lemma wf_emit [simp]: "p2p_ok (emit e st) xs = p2p_ok st xs"
  by (simp add: p2p_ok_def eff)

lemma wf_printf [simp]: "p2p_ok (printf m st) xs = p2p_ok st xs" "p2p_ok (safe_printf m st) xs = p2p_ok st xs"
  by (simp_all add: p2p_ok_def eff)

lemma wf_printed [simp]: "p2p_ok (printed st ms) xs = p2p_ok st xs"
  by (induction ms arbitrary: st) auto

lemma wf_drop:
  assumes "p2p_ok st xs" "conns st' (drop_addr a xs)" "finished st' = finished st"
    "next_tid st' = next_tid st"
  shows "p2p_ok st' (drop_addr a xs)"
  using assms by (auto simp: p2p_ok_def drop_addr_def intro!: distinct_map_filter)

lemma wf_node:
  assumes "p2p_ok st xs" "(a, i) \<in> set xs"
  obtains c t where "heap st a = Some c" "i = unlinked c" "pc_thread c = Some t" "t < next_tid st"
    "pc_should_remove c \<longleftrightarrow> t \<in> set (finished st)" "pc_should_remove c \<longrightarrow> \<not> pc_active c"
proof -
  obtain c where "heap st a = Some c" "i = unlinked c"
    using conns_mapped [OF wf_conns [OF assms(1)] assms(2)] by blast
  moreover have "node_ok (finished st) (next_tid st) i"
    using assms by (force simp: p2p_ok_def)
  ultimately show ?thesis using that by (auto simp: node_ok_def)
qed

lemma wf_heap:
  assumes "p2p_ok st xs" "heap st a = Some c"
  shows "(a, unlinked c) \<in> set xs"
proof -
  have "a \<in> fst ` set xs" using assms by (auto simp: p2p_ok_def conns_def)
  then obtain i where i: "(a, i) \<in> set xs" by auto
  with conns_mapped [OF wf_conns [OF assms(1)] i] assms(2) show ?thesis by auto
qed

lemma on_recv_exit:
  assumes "p2p_on Q st xs" "heap st a = Some c" "\<not> pc_should_remove c" "a \<notin> Q"
  obtains st' where "recv_exit a st = Some st'" "p2p_on Q st' (at_addr a mark_dead xs)"
    "set (finished st) \<subseteq> set (finished st')" "globals st' = globals st"
    "trace st' = trace st @ [Lock Conn_mutex, Unlock Conn_mutex]"
    "next_conn_id st' = next_conn_id st"
proof -
  have mem: "(a, unlinked c) \<in> set (others Q xs)" using on_heap [OF assms(1,2)] assms(4) by simp
  have s: "served (finished st) (next_tid st) (others Q xs)" using assms(1) by (simp add: p2p_on_def)
  then have "node_ok (finished st) (next_tid st) (unlinked c)" using mem by (force simp: served_def)
  then obtain t where t: "pc_thread c = Some t" "t \<notin> set (finished st)" using assms(3) by (auto simp: node_ok_def)
  obtain st' where r: "recv_exit a st = Some st'" "conns st' (at_addr a mark_dead xs)"
    "finished st' = t # finished st" "globals st' = globals st" "next_tid st' = next_tid st"
    "trace st' = trace st @ [Lock Conn_mutex, Unlock Conn_mutex]"
    "next_conn_id st' = next_conn_id st"
    using recv_exit_conns [OF on_conns [OF assms(1)] assms(2)] t(1) by auto
  have "served (t # finished st) (next_tid st) (at_addr a mark_dead (others Q xs))"
    by (rule served_mark [OF s on_distinct [OF assms(1)] mem]) (use t in simp_all)
  moreover have "\<forall>x \<in> set (at_addr a mark_dead xs). fst x \<in> Q \<longrightarrow> starting (snd x)"
  proof
    fix x assume "x \<in> set (at_addr a mark_dead xs)"
    then have "x \<in> set xs \<or> fst x = a" by (auto simp: at_addr_def split: if_splits)
    then show "fst x \<in> Q \<longrightarrow> starting (snd x)" using assms(1,4) by (auto simp: p2p_on_def)
  qed
  ultimately have "p2p_on Q st' (at_addr a mark_dead xs)"
    using assms(1,4) r by (simp add: p2p_on_def others_at_addr)
  with r show ?thesis by (intro that [OF r(1)]) auto
qed

lemma wf_recv_exit:
  assumes "p2p_ok st xs" "heap st a = Some c" "\<not> pc_should_remove c"
  obtains st' where "recv_exit a st = Some st'" "p2p_ok st' (at_addr a mark_dead xs)"
    "set (finished st) \<subseteq> set (finished st')" "globals st' = globals st"
    "trace st' = trace st @ [Lock Conn_mutex, Unlock Conn_mutex]"
    "next_conn_id st' = next_conn_id st"
  using on_recv_exit [of "{}" st xs a c] assms that by (auto simp: p2p_on_empty)

section \<open>The thread\<close>

text \<open>
  \<open>pthread_create (&p->thread, NULL, conn_recv_thread, p)\<close> succeeded: the node gets its thread.
\<close>

definition start_receiver :: "addr \<Rightarrow> p2p \<Rightarrow> p2p option" where
  "start_receiver p st =
     (case heap st p of
        None \<Rightarrow> None
      | Some c \<Rightarrow> Some ((put_node p (c\<lparr>pc_thread := Some (next_tid st)\<rparr>) st)
                       \<lparr>next_tid := Suc (next_tid st)\<rparr>))"

text \<open>
  What one \<open>accept\<close> gives: an error with its \<open>errno\<close>, or a socket and the peer's address, with the results
  of the \<open>malloc\<close> and the \<open>pthread_create\<close> that follow.
\<close>

datatype accept_res = Accept_err int | Accepted int sockaddr_in "addr option" bool

datatype listener_next = L_break | L_continue | L_announce addr

text \<open>One round of the loop up to the last message.\<close>

definition listener_accept :: "accept_res \<Rightarrow> p2p \<Rightarrow> (listener_next \<times> p2p) option" where
  "listener_accept r st =
     (case r of
        Accept_err e \<Rightarrow>
          if \<not> running st then Some (L_break, st)
          else Some (L_continue, safe_printf (Net (M_accept_failed e)) st)
      | Accepted newfd peer malloc create_ok \<Rightarrow>
          (case add_connection newfd peer malloc st of
             (None, st1) \<Rightarrow>
               Some (L_continue, emit (Sock_close newfd) (safe_printf (Net M_listener_add_failed) st1))
           | (Some p, st1) \<Rightarrow>
               if create_ok then map_option (\<lambda>st2. (L_announce p, st2)) (start_receiver p st1)
               else map_option (\<lambda>st2. (L_continue, st2))
                      (unlink_and_free p (emit (Sock_close newfd)
                         (safe_printf (Net M_listener_create_failed) st1)))))"

text \<open>The message of an accepted connection reads the node's fields, without the lock.\<close>

definition listener_announce :: "addr \<Rightarrow> p2p \<Rightarrow> p2p" where
  "listener_announce p st =
     (case heap st p of
        None \<Rightarrow> safe_printf (Net (M_accepted None)) (emit (Stale_read p) st)
      | Some c \<Rightarrow> safe_printf (Net (M_accepted (Some (pc_id c, pc_ip c, pc_port c)))) st)"

definition listener_iteration :: "accept_res \<Rightarrow> p2p \<Rightarrow> (bool \<times> p2p) option" where
  "listener_iteration r st =
     map_option (\<lambda>(nxt, st'). case nxt of
         L_break \<Rightarrow> (False, st')
       | L_continue \<Rightarrow> (True, st')
       | L_announce p \<Rightarrow> (True, listener_announce p st')) (listener_accept r st)"

text \<open>
  The whole loop over what \<open>accept\<close> gives; \<open>True\<close>: the thread has returned, \<open>False\<close>: it is blocked in
  \<open>accept\<close>.
\<close>

fun listener_thread :: "accept_res list \<Rightarrow> p2p \<Rightarrow> (bool \<times> p2p) option" where
  "listener_thread rs st =
     (if \<not> running st then Some (True, st)
      else case rs of
        [] \<Rightarrow> Some (False, st)
      | r # rs' \<Rightarrow>
          (case listener_iteration r st of
             None \<Rightarrow> None
           | Some (go, st') \<Rightarrow> if go then listener_thread rs' st' else Some (True, st')))"

declare listener_thread.simps [simp del]

section \<open>Its effect on the list\<close>

lemma unlinked_new [simp]: "unlinked (new_conn i fd peer) = new_conn i fd peer"
  by (simp add: unlinked_def new_conn_def)

lemma new_conn_fields [simp]:
  "pc_id (new_conn i fd peer) = i" "pc_sockfd (new_conn i fd peer) = fd"
  "pc_ip (new_conn i fd peer) = inet_ntop (sin_addr peer)"
  "pc_port (new_conn i fd peer) = uint (ntohs (sin_port peer))"
  "pc_thread (new_conn i fd peer) = None" "pc_active (new_conn i fd peer)"
  "\<not> pc_should_remove (new_conn i fd peer)"
  by (simp_all add: new_conn_def)

text \<open>A connection is added, with its thread, at the head of a well-formed list.\<close>

definition new_served :: "int32 \<Rightarrow> int \<Rightarrow> sockaddr_in \<Rightarrow> tid \<Rightarrow> peer_conn" where
  "new_served i fd peer t = (new_conn i fd peer)\<lparr>pc_thread := Some t\<rparr>"

lemma new_served_fields [simp]:
  "pc_id (new_served i fd peer t) = i" "pc_sockfd (new_served i fd peer t) = fd"
  "pc_ip (new_served i fd peer t) = inet_ntop (sin_addr peer)"
  "pc_port (new_served i fd peer t) = uint (ntohs (sin_port peer))"
  "pc_thread (new_served i fd peer t) = Some t" "pc_active (new_served i fd peer t)"
  "\<not> pc_should_remove (new_served i fd peer t)"
  by (simp_all add: new_served_def)

text \<open>A node gets its thread: it is not among those to be served any more.\<close>

lemma on_start:
  assumes "p2p_on (insert p Q) st (ys @ (p, i) # zs)" "p \<notin> Q"
  obtains st' where "start_receiver p st = Some st'"
    "p2p_on Q st' (ys @ (p, i\<lparr>pc_thread := Some (next_tid st)\<rparr>) # zs)" "finished st' = finished st"
    "globals st' = globals st" "trace st' = trace st" "next_conn_id st' = next_conn_id st" "next_tid st' = Suc (next_tid st)"
proof -
  let ?f = "\<lambda>i. i\<lparr>pc_thread := Some (next_tid st)\<rparr>"
  note cs = on_conns [OF assms(1)]
  obtain c where c: "heap st p = Some c" "unlinked c = i" using conns_mapped [OF cs, of p i] by auto
  let ?st' = "(put_node p (?f c) st)\<lparr>next_tid := Suc (next_tid st)\<rparr>"
  have r: "start_receiver p st = Some ?st'" using c by (simp add: start_receiver_def)
  have dist: "p \<notin> fst ` set ys" "p \<notin> fst ` set zs" using conns_distinct [OF cs] by auto
  then have at: "at_addr p ?f (ys @ (p, i) # zs) = ys @ (p, ?f i) # zs" by (simp add: at_addr_fresh)
  have "conns (put_node p (?f c) st) (at_addr p ?f (ys @ (p, i) # zs))"
    by (rule conns_put_node [OF cs c(1)]) (use c(2) in \<open>auto simp: unlinked_def\<close>)
  then have cs': "conns ?st' (ys @ (p, ?f i) # zs)" unfolding at by (simp add: conns_def)
  have q: "others (insert p Q) xs = others Q xs" if "p \<notin> fst ` set xs" for xs
    using that by (auto simp: others_def intro!: filter_cong)
  have "served (finished st) (next_tid st) (others Q ys @ others Q zs)"
    using assms(1) dist by (simp add: p2p_on_def q)
  then have "served (finished st) (Suc (next_tid st)) ((p, ?f i) # others Q ys @ others Q zs)"
    by (rule served_add) (use assms(1) in \<open>simp_all add: p2p_on_def starting_def\<close>)
  then have "served (finished st) (Suc (next_tid st)) (others Q (ys @ (p, ?f i) # zs))"
    using assms(2) by (auto simp: served_def)
  moreover have "Q \<subseteq> fst ` set (ys @ (p, ?f i) # zs)" using assms(1) by (auto simp: p2p_on_def)
  moreover have "\<forall>x \<in> set (ys @ (p, ?f i) # zs). fst x \<in> Q \<longrightarrow> starting (snd x)"
    using assms by (auto simp: p2p_on_def)
  ultimately have "p2p_on Q ?st' (ys @ (p, ?f i) # zs)" using cs' by (simp add: p2p_on_def eff)
  then show ?thesis by (intro that [OF r]) (simp_all add: eff)
qed

text \<open>A connection that has been added waits for its thread.\<close>

lemma on_add:
  assumes "p2p_on Q st xs" "heap st p = None" "add_connection fd peer (Some p) st = (r, st1)"
  shows "r = Some p" "p2p_on (insert p Q) st1 ((p, new_conn (next_conn_id st) fd peer) # xs)" "p \<notin> Q" "p \<notin> fst ` set xs"
    "next_conn_id st1 = next_conn_id st + 1"
proof -
  have "p \<notin> dom (heap st)" using assms(2) by auto
  note add = add_connection_conns [OF on_conns [OF assms(1)] this assms(3)]
  note frame = add_connection_frame [OF assms(3)]
  show "r = Some p" "next_conn_id st1 = next_conn_id st + 1" using add by simp_all
  show p: "p \<notin> fst ` set xs" using conns_distinct [OF add(2)] by simp
  then show "p \<notin> Q" using assms(1) by (auto simp: p2p_on_def)
  have "others (insert p Q) xs = others Q xs" using p by (auto simp: others_def intro!: filter_cong)
  then show "p2p_on (insert p Q) st1 ((p, new_conn (next_conn_id st) fd peer) # xs)"
    using assms(1) add(2) frame p by (auto simp: p2p_on_def starting_def)
qed

text \<open>The rollback takes the node out again, wherever it is.\<close>

lemma on_unlink:
  assumes "p2p_on (insert p Q) st (ys @ (p, i) # zs)" "p \<notin> Q"
  obtains st' where "unlink_and_free p st = Some st'" "p2p_on Q st' (ys @ zs)" "heap st' p = None"
    "trace st' = trace st @ [Lock Conn_mutex, Free p, Unlock Conn_mutex]" "finished st' = finished st"
    "globals st' = globals st" "next_conn_id st' = next_conn_id st"
proof -
  note cs = on_conns [OF assms(1)]
  have dist: "p \<notin> fst ` set ys" "p \<notin> fst ` set zs" using conns_distinct [OF cs] by auto
  then have drop: "drop_addr p (ys @ (p, i) # zs) = ys @ zs" by (simp add: drop_addr_fresh)
  have q: "others (insert p Q) xs = others Q xs" if "p \<notin> fst ` set xs" for xs
    using that by (auto simp: others_def intro!: filter_cong)
  have mem: "(p, i) \<in> set (ys @ (p, i) # zs)" by simp
  show ?thesis
  proof (rule unlink_and_free_conns [OF cs mem])
    fix st'
    assume u: "unlink_and_free p st = Some st'" "conns st' (drop_addr p (ys @ (p, i) # zs))"
      "trace st' = trace st @ [Lock Conn_mutex, Free p, Unlock Conn_mutex]" "finished st' = finished st"
      "next_conn_id st' = next_conn_id st" "next_tid st' = next_tid st" "globals st' = globals st"
    then have cs': "conns st' (ys @ zs)" unfolding drop by blast
    then have "p2p_on Q st' (ys @ zs)"
      using assms dist u(4,6) by (auto simp: p2p_on_def q)
    moreover have "heap st' p = None" using cs' dist by (auto simp: conns_def)
    ultimately show ?thesis using u by (intro that [OF u(1)]) simp_all
  qed
qed

text \<open>
  Whatever \<open>accept\<close>, \<open>malloc\<close> and \<open>pthread_create\<close> give, a round keeps the list well formed and either
  leaves it as it was or adds one connection with a running thread.
\<close>

definition accept_enabled :: "accept_res \<Rightarrow> p2p \<Rightarrow> bool" where
  "accept_enabled r st = (case r of
      Accept_err e \<Rightarrow> True
    | Accepted fd peer malloc create_ok \<Rightarrow>
        (case malloc of None \<Rightarrow> True | Some a \<Rightarrow> heap st a = None))"

lemma on_listener_accept:
  assumes "p2p_on Q st xs" "accept_enabled r st"
  obtains nxt st' ys where "listener_accept r st = Some (nxt, st')" "p2p_on Q st' (ys @ xs)"
    "\<forall>y \<in> set ys. pc_active (snd y) \<and> \<not> pc_should_remove (snd y)"
    "finished st' = finished st" "globals st' = globals st" "length ys \<le> 1"
    "\<And>p. nxt = L_announce p \<Longrightarrow> \<exists>i. ys = [(p, i)]"
    "nxt = L_break \<longleftrightarrow> \<not> running st \<and> (\<exists>e. r = Accept_err e)"
proof (cases r)
  case (Accept_err e)
  with assms(1) show ?thesis
    by (cases "running st") (auto simp: listener_accept_def eff intro: that [of _ _ "[]"])
next
  case (Accepted fd peer m create_ok)
  show ?thesis
  proof (cases m)
    case None
    with assms(1) Accepted show ?thesis
      by (auto simp: listener_accept_def add_connection_fail eff intro: that [of _ _ "[]"])
  next
    case (Some p)
    with assms(2) Accepted have p: "heap st p = None" by (simp add: accept_enabled_def)
    obtain r' st1 where a: "add_connection fd peer (Some p) st = (r', st1)" by fastforce
    let ?n = "new_conn (next_conn_id st) fd peer"
    note add = on_add [OF assms(1) p a]
    note frame = add_connection_frame [OF a]
    show ?thesis
    proof (cases create_ok)
      case True
      have "p2p_on (insert p Q) st1 ([] @ (p, ?n) # xs)" using add(2) by simp
      then obtain st2 where "start_receiver p st1 = Some st2"
        "p2p_on Q st2 ([] @ (p, ?n\<lparr>pc_thread := Some (next_tid st1)\<rparr>) # xs)"
        "finished st2 = finished st1" "globals st2 = globals st1" using on_start add(3) by metis
      with True Accepted Some a add(1) frame show ?thesis
        by (intro that [of "L_announce p" st2 "[(p, ?n\<lparr>pc_thread := Some (next_tid st1)\<rparr>)]"])
          (auto simp: listener_accept_def)
    next
      case False
      let ?st1 = "emit (Sock_close fd) (safe_printf (Net M_listener_create_failed) st1)"
      have "p2p_on (insert p Q) ?st1 ([] @ (p, ?n) # xs)" using add(2) by simp
      then obtain st2 where "unlink_and_free p ?st1 = Some st2" "p2p_on Q st2 ([] @ xs)"
        "finished st2 = finished ?st1" "globals st2 = globals ?st1" using on_unlink add(3) by metis
      with frame False Accepted Some a add(1) show ?thesis
        by (intro that [of L_continue st2 "[]"]) (auto simp: listener_accept_def eff)
    qed
  qed
qed

lemmas listener_accept_wf = on_listener_accept [of "{}", unfolded p2p_on_empty]

lemma listener_announce_fields [eff]:
  "heap (listener_announce p st) = heap st" "conn_head (listener_announce p st) = conn_head st"
  "finished (listener_announce p st) = finished st" "next_tid (listener_announce p st) = next_tid st"
  "next_conn_id (listener_announce p st) = next_conn_id st"
  "globals (listener_announce p st) = globals st"
  by (auto simp: listener_announce_def eff split: option.split)

lemma wf_announce [simp]: "p2p_ok (listener_announce p st) xs = p2p_ok st xs"
  by (simp add: p2p_ok_def conns_def eff)

end
