(* ===== verification/Reaper.thy ===== *)
theory Reaper
  imports Listener "HOL-Library.Product_Lexorder"
begin

text \<open>
  \<open>reap_connections\<close> of \<open>src/connection.c\<close>, run against the other threads. The function drops
  \<open>conn_mutex\<close> while it waits in \<open>pthread_join\<close>, and there the listener and the receiving threads
  move. What they do in such a window is a list of actions (\<open>env_act\<close>), each a step of the thread's
  own code between two points where it does not hold the lock; an action that cannot be taken in the
  current state (a thread that has returned, an address \<open>malloc\<close> cannot give) is skipped. The theorems
  hold for every such schedule.
\<close>

section \<open>The other threads\<close>

datatype env_act =
    Env_accept accept_res
  | Env_announce addr
  | Env_recv addr "recv_res list"

text \<open>The listener at the head of its loop: it returns when \<open>running\<close> is 0.\<close>

definition listener_head :: "p2p \<Rightarrow> p2p" where
  "listener_head st = (if running st then st else st\<lparr>listener_done := True\<rparr>)"

definition env_step :: "env_act \<Rightarrow> p2p \<Rightarrow> p2p option" where
  "env_step e st =
     (case e of
        Env_accept r \<Rightarrow>
          if listener_done st \<or> \<not> accept_enabled r st then Some st
          else map_option (\<lambda>(nxt, st'). case nxt of
                   L_break \<Rightarrow> st'\<lparr>listener_done := True\<rparr>
                 | L_continue \<Rightarrow> listener_head st'
                 | L_announce p \<Rightarrow> st') (listener_accept r st)
      | Env_announce p \<Rightarrow>
          if listener_done st then Some st else Some (listener_head (listener_announce p st))
      | Env_recv a rs \<Rightarrow>
          (case heap st a of
             None \<Rightarrow> Some st
           | Some c \<Rightarrow> if pc_should_remove c \<or> pc_thread c = None then Some st
                      else conn_recv_thread a rs st))"

fun env_run :: "env_act list \<Rightarrow> p2p \<Rightarrow> p2p option" where
  "env_run [] st = Some st"
| "env_run (e # es) st = (case env_step e st of None \<Rightarrow> None | Some st' \<Rightarrow> env_run es st')"

text \<open>
  What the other threads can do to the list: put connections in front of it, and mark
  connections dead whose thread returns. They take nothing out and change nothing else.
\<close>

definition aged :: "addr \<times> peer_conn \<Rightarrow> addr \<times> peer_conn \<Rightarrow> bool" where
  "aged x y \<longleftrightarrow> fst x = fst y \<and> (snd y = snd x \<or> snd y = mark_dead (snd x))"

definition evolves :: "p2p \<Rightarrow> peer_list \<Rightarrow> p2p \<Rightarrow> peer_list \<Rightarrow> bool" where
  "evolves st xs st' xs' \<longleftrightarrow> p2p_ok st' xs' \<and> set (finished st) \<subseteq> set (finished st') \<and>
     globals st' = globals st \<and> (\<exists>ys zs. xs' = ys @ zs \<and> list_all2 aged xs zs)"

text \<open>The same while the nodes at \<open>Q\<close> wait for their threads; their own nodes nobody touches.\<close>

definition evolves_on :: "addr set \<Rightarrow> p2p \<Rightarrow> peer_list \<Rightarrow> p2p \<Rightarrow> peer_list \<Rightarrow> bool" where
  "evolves_on Q st xs st' xs' \<longleftrightarrow> p2p_on Q st' xs' \<and> set (finished st) \<subseteq> set (finished st') \<and>
     globals st' = globals st \<and> (\<exists>ys zs. xs' = ys @ zs \<and> list_all2 aged xs zs)"

lemma evolves_on_empty: "evolves_on {} st xs st' xs' \<longleftrightarrow> evolves st xs st' xs'"
  by (simp add: evolves_on_def evolves_def p2p_on_empty)

lemma mark_dead_idem [simp]: "mark_dead (mark_dead c) = mark_dead c"
  by (simp add: mark_dead_def)

lemma aged_refl [simp]: "aged x x"
  by (simp add: aged_def)

lemma aged_trans: "aged x y \<Longrightarrow> aged y z \<Longrightarrow> aged x z"
  by (auto simp: aged_def)

lemma aged_all_refl [simp]: "list_all2 aged xs xs"
  by (simp add: list_all2_refl)

lemma aged_all_trans: "list_all2 aged xs ys \<Longrightarrow> list_all2 aged ys zs \<Longrightarrow> list_all2 aged xs zs"
  by (rule list_all2_trans [of aged aged aged]) (auto intro: aged_trans)

lemma evolves_onI:
  "p2p_on Q st' (ys @ xs) \<Longrightarrow> finished st' = finished st \<Longrightarrow> globals st' = globals st \<Longrightarrow>
   evolves_on Q st xs st' (ys @ xs)"
  unfolding evolves_on_def by (intro conjI exI [of _ ys] exI [of _ xs]) auto

lemma evolves_on_refl: "p2p_on Q st xs \<Longrightarrow> evolves_on Q st xs st xs"
  using evolves_onI [of Q st "[]" xs st] by simp

lemma evolves_on_trans:
  assumes "evolves_on Q st xs st1 xs1" "evolves_on Q st1 xs1 st2 xs2"
  shows "evolves_on Q st xs st2 xs2"
proof -
  obtain ys zs where 1: "xs1 = ys @ zs" "list_all2 aged xs zs"
    using assms(1) by (auto simp: evolves_on_def)
  obtain us vs where 2: "xs2 = us @ vs" "list_all2 aged xs1 vs"
    using assms(2) by (auto simp: evolves_on_def)
  from 2(2) 1(1) obtain vs1 vs2 where v: "vs = vs1 @ vs2" "list_all2 aged zs vs2"
    by (auto simp: list_all2_append1)
  have "list_all2 aged xs vs2" by (rule aged_all_trans [OF 1(2) v(2)])
  then have "\<exists>ys zs. xs2 = ys @ zs \<and> list_all2 aged xs zs"
    using 2(1) v(1) by (intro exI [of _ "us @ vs1"] exI [of _ vs2]) simp
  with assms show ?thesis by (auto simp: evolves_on_def)
qed

lemmas evolves_refl = evolves_on_refl [of "{}", unfolded p2p_on_empty evolves_on_empty]
lemmas evolves_trans = evolves_on_trans [of "{}", unfolded evolves_on_empty]

lemma evolves_mem:
  assumes "evolves st xs st' xs'" "x \<in> set xs"
  obtains y where "y \<in> set xs'" "aged x y"
proof -
  obtain ys zs where 1: "xs' = ys @ zs" "list_all2 aged xs zs"
    using assms(1) by (auto simp: evolves_def)
  obtain i where "i < length xs" "x = xs ! i" using assms(2) by (auto simp: in_set_conv_nth)
  with 1 have "zs ! i \<in> set xs'" "aged x (zs ! i)"
    by (auto simp: list_all2_conv_all_nth)
  then show ?thesis by (rule that)
qed

lemma aged_mark: "list_all2 aged xs (at_addr a mark_dead xs)"
  by (induction xs) (auto simp: aged_def)

lemma recv_thread_evolves:
  assumes "p2p_on Q st xs" "heap st a = Some c" "\<not> pc_should_remove c" "a \<notin> Q"
  obtains st' xs' where "conn_recv_thread a rs st = Some st'" "evolves_on Q st xs st' xs'"
proof -
  obtain left ms where l: "recv_loop a rs st = Some (left, printed st ms)"
    using recv_loop_prints [OF assms(2)] by blast
  show ?thesis
  proof (cases left)
    case False
    have "evolves_on Q st xs (printed st ms) xs"
      using evolves_onI [of Q "printed st ms" "[]" xs st] assms(1) by (simp add: eff)
    then show ?thesis using False l by (intro that) (simp_all add: conn_recv_thread_def)
  next
    case True
    have ok: "p2p_on Q (printed st ms) xs" "heap (printed st ms) a = Some c"
      using assms by (simp_all add: eff)
    obtain st' where r: "recv_exit a (printed st ms) = Some st'"
      "p2p_on Q st' (at_addr a mark_dead xs)"
      "set (finished (printed st ms)) \<subseteq> set (finished st')" "globals st' = globals (printed st ms)"
      using on_recv_exit [OF ok assms(3,4)] by metis
    have "evolves_on Q st xs st' (at_addr a mark_dead xs)"
      unfolding evolves_on_def using r aged_mark [of xs a]
      by (intro conjI exI [of _ "[]"] exI [of _ "at_addr a mark_dead xs"]) (auto simp: eff)
    then show ?thesis using True l r(1) by (intro that) (simp_all add: conn_recv_thread_def)
  qed
qed

lemma on_env_step:
  assumes "p2p_on Q st xs"
  obtains st' xs' where "env_step e st = Some st'" "evolves_on Q st xs st' xs'"
proof (cases e)
  case (Env_accept r)
  show ?thesis
  proof (cases "listener_done st \<or> \<not> accept_enabled r st")
    case True
    then have "env_step e st = Some st" using Env_accept by (simp add: env_step_def)
    then show ?thesis using evolves_on_refl [OF assms] by (rule that)
  next
    case False
    then obtain nxt st' ys where r: "listener_accept r st = Some (nxt, st')" "p2p_on Q st' (ys @ xs)"
      "finished st' = finished st" "globals st' = globals st"
      using on_listener_accept [OF assms] by metis
    let ?s = "case nxt of L_break \<Rightarrow> st'\<lparr>listener_done := True\<rparr>
      | L_continue \<Rightarrow> listener_head st' | L_announce p \<Rightarrow> st'"
    have "evolves_on Q st xs ?s (ys @ xs)"
      by (rule evolves_onI) (use r in \<open>auto simp: p2p_on_def conns_def listener_head_def eff
          split: listener_next.split\<close>)
    then show ?thesis
      by (rule that [rotated]) (use False Env_accept r(1) in \<open>simp add: env_step_def\<close>)
  qed
next
  case (Env_announce p)
  let ?s = "listener_head (listener_announce p st)"
  have "evolves_on Q st xs ?s ([] @ xs)"
    by (rule evolves_onI) (use assms in \<open>auto simp: p2p_on_def conns_def listener_head_def eff\<close>)
  then show ?thesis using Env_announce evolves_on_refl [OF assms] that
    by (cases "listener_done st") (fastforce simp: env_step_def)+
next
  case (Env_recv a rs)
  show ?thesis
  proof (cases "\<exists>c. heap st a = Some c \<and> \<not> pc_should_remove c \<and> pc_thread c \<noteq> None")
    case True
    then obtain c where c: "heap st a = Some c" "\<not> pc_should_remove c" "pc_thread c \<noteq> None" by blast
    have "a \<notin> Q" using assms on_heap [OF assms c(1)] c(3) by (force simp: p2p_on_def starting_def)
    from recv_thread_evolves [OF assms c(1,2) this] obtain st' xs'
      where "conn_recv_thread a rs st = Some st'" "evolves_on Q st xs st' xs'" by blast
    then show ?thesis using c Env_recv by (intro that) (auto simp: env_step_def)
  next
    case False
    then have "env_step e st = Some st" using Env_recv
      by (auto simp: env_step_def split: option.split)
    then show ?thesis using evolves_on_refl [OF assms] by (rule that)
  qed
qed

lemma on_env_run:
  assumes "p2p_on Q st xs"
  obtains st' xs' where "env_run es st = Some st'" "evolves_on Q st xs st' xs'"
  using assms
proof (induction es arbitrary: st xs thesis)
  case Nil
  show ?case by (rule Nil.prems(1) [OF _ evolves_on_refl [OF Nil.prems(2)]]) simp
next
  case (Cons e es)
  obtain st1 xs1 where 1: "env_step e st = Some st1" "evolves_on Q st xs st1 xs1"
    using on_env_step [OF Cons.prems(2)] by blast
  have ok1: "p2p_on Q st1 xs1" using 1(2) by (simp add: evolves_on_def)
  obtain st2 xs2 where 2: "env_run es st1 = Some st2" "evolves_on Q st1 xs1 st2 xs2"
    using Cons.IH [OF _ ok1] by blast
  from evolves_on_trans [OF 1(2) 2(2)] 1(1) 2(1) Cons.prems(1) show ?case by simp
qed

lemmas env_step_evolves = on_env_step [of "{}", unfolded p2p_on_empty evolves_on_empty]
lemmas env_run_evolves = on_env_run [of "{}", unfolded p2p_on_empty evolves_on_empty]

text \<open>The node \<open>p\<close> that waits for its thread stays as it is, while others are put in front of it.\<close>

lemma waiting_node:
  assumes "p2p_on {p} st ((p, i) # xs)" "env_run w st = Some st'"
  obtains ys zs where "p2p_on {p} st' (ys @ (p, i) # zs)" "list_all2 aged xs zs"
    "set (finished st) \<subseteq> set (finished st')" "globals st' = globals st" "w = [] \<Longrightarrow> ys = [] \<and> zs = xs"
proof (cases "w = []")
  case True
  then show ?thesis using assms that [of "[]" xs] by simp
next
  case False
  obtain xs' where ev: "evolves_on {p} st ((p, i) # xs) st' xs'"
    using on_env_run [OF assms(1), of w] assms(2) by auto
  then obtain ys vs where "xs' = ys @ vs" "list_all2 aged ((p, i) # xs) vs" by (auto simp: evolves_on_def)
  then obtain y zs where v: "xs' = ys @ y # zs" "aged (p, i) y" "list_all2 aged xs zs"
    by (auto simp: list_all2_Cons1)
  have on: "p2p_on {p} st' xs'" using ev by (simp add: evolves_on_def)
  have "fst y = p" using v(2) by (simp add: aged_def)
  then have "starting (snd y)" using on v(1) by (auto simp: p2p_on_def)
  then have "y = (p, i)" using v(2) by (auto simp: aged_def starting_def mark_dead_def prod_eq_iff)
  then show ?thesis using v on ev False by (intro that [of ys zs]) (auto simp: evolves_on_def)
qed

section \<open>Waiting for a thread\<close>

text \<open>
  \<open>pthread_join (t, NULL)\<close>: the other threads run; the call returns only when thread \<open>t\<close> has returned.
\<close>

definition pthread_join :: "env_act list \<Rightarrow> tid option \<Rightarrow> p2p \<Rightarrow> p2p option" where
  "pthread_join w t st =
     (case env_run w st of
        None \<Rightarrow> None
      | Some st' \<Rightarrow>
          (case t of
             None \<Rightarrow> None
           | Some t' \<Rightarrow> if t' \<in> set (finished st') then Some (emit (Join t) st') else None))"

lemma pthread_join_finished:
  assumes "p2p_ok st xs" "t \<in> set (finished st)"
  obtains st' xs' where "pthread_join w (Some t) st = Some st'" "evolves st xs st' xs'"
proof -
  obtain st1 xs1 where 1: "env_run w st = Some st1" "evolves st xs st1 xs1"
    using env_run_evolves [OF assms(1)] by blast
  then have "pthread_join w (Some t) st = Some (emit (Join (Some t)) st1)"
    using assms(2) by (auto simp: pthread_join_def evolves_def)
  moreover have "evolves st xs (emit (Join (Some t)) st1) xs1"
    using 1(2) by (simp add: evolves_def eff)
  ultimately show ?thesis by (rule that)
qed

section \<open>reap_connections\<close>

definition window :: "'a list list \<Rightarrow> 'a list" where
  "window ws = (case ws of [] \<Rightarrow> [] | w # _ \<Rightarrow> w)"

text \<open>
  The message about a removed node reads \<open>cur->id\<close> after \<open>remove_node_locked\<close> has freed \<open>cur\<close>.
\<close>

definition report_removed :: "addr \<Rightarrow> p2p \<Rightarrow> p2p" where
  "report_removed a st =
     (case heap st a of
        Some c \<Rightarrow> safe_printf (Net (M_removed (Some (pc_id c)))) st
      | None \<Rightarrow> safe_printf (Net (M_removed None)) (emit (Stale_read a) st))"

partial_function (option) reap_loop ::
  "env_act list list \<Rightarrow> p2p \<Rightarrow> addr option \<Rightarrow> p2p option" where
  [code]: "reap_loop ws st cur =
     (case cur of
        None \<Rightarrow> Some st
      | Some a \<Rightarrow>
          Option.bind (heap st a) (\<lambda>c.
            if pc_should_remove c then
              Option.bind (pthread_join (window ws) (pc_thread c) (emit (Unlock Conn_mutex) st)) (\<lambda>st2.
              Option.bind (list_search (\<lambda>s _. s = a) (heap st2) None (conn_head st2)) (\<lambda>(scan_prev, scan).
              Option.bind
                (let st3 = emit (Lock Conn_mutex) st2 in
                 if scan = cur then map_option (report_removed a) (remove_node_locked scan_prev scan st3)
                 else Some st3) (\<lambda>st4.
              reap_loop (tl ws) st4 (conn_head st4))))
            else reap_loop ws st (pc_next c)))"

definition reap_connections :: "env_act list list \<Rightarrow> p2p \<Rightarrow> p2p option" where
  "reap_connections ws st =
     (let st1 = emit (Lock Conn_mutex) st in
      map_option (emit (Unlock Conn_mutex)) (reap_loop ws st1 (conn_head st1)))"

lemma report_removed_fields [eff]:
  "heap (report_removed a st) = heap st" "conn_head (report_removed a st) = conn_head st"
  "finished (report_removed a st) = finished st" "next_tid (report_removed a st) = next_tid st"
  "next_conn_id (report_removed a st) = next_conn_id st" "globals (report_removed a st) = globals st"
  by (auto simp: report_removed_def eff split: option.split)

lemma ok_report [simp]: "p2p_ok (report_removed a st) xs = p2p_ok st xs"
  by (simp add: p2p_ok_def conns_def eff)

text \<open>The walk passes live nodes and stops at the first node to remove.\<close>

lemma reap_loop_end [simp]: "reap_loop ws st None = Some st"
  by (subst reap_loop.simps) simp

lemma reap_loop_skip:
  "heap st a = Some c \<Longrightarrow> \<not> pc_should_remove c \<Longrightarrow>
   reap_loop ws st (Some a) = reap_loop ws st (pc_next c)"
  by (subst reap_loop.simps) simp

lemma reap_loop_clean:
  "conn_list (heap st) cur xs \<Longrightarrow> \<forall>x \<in> set xs. \<not> pc_should_remove (snd x) \<Longrightarrow>
   reap_loop ws st cur = Some st"
  by (induction xs arbitrary: cur) (auto simp: reap_loop_skip)

lemma reap_loop_to_first:
  "conn_list (heap st) cur (ys @ (a, i) # zs) \<Longrightarrow> \<forall>x \<in> set ys. \<not> pc_should_remove (snd x) \<Longrightarrow>
   reap_loop ws st cur = reap_loop ws st (Some a)"
  by (induction ys arbitrary: cur) (auto simp: reap_loop_skip)

lemma search_addr:
  assumes "conn_list h p (ys @ (a, i) # zs)"
  shows "list_search (\<lambda>s _. s = a) h None p =
    Some (if ys = [] then None else Some (fst (last ys)), Some a)"
proof -
  obtain c where "h a = Some c" using conn_list_mapped [OF assms, of a i] by auto
  moreover have "\<forall>(b, j) \<in> set ys. \<forall>c. h b = Some c \<longrightarrow> b \<noteq> a"
    using conn_list_distinct [OF assms] by force
  ultimately show ?thesis using list_search_hit [OF assms] by fastforce
qed

section \<open>What reap_connections does\<close>

text \<open>
  One removal: join, find the node again, unlink and free it, print. In the window the list evolves.
\<close>

definition removal_events :: "addr \<times> peer_conn \<Rightarrow> event list" where
  "removal_events x = [Unlock Conn_mutex, Join (pc_thread (snd x)), Lock Conn_mutex, Free (fst x),
     Stale_read (fst x), Lock Print_mutex, Out (Net (M_removed None)), Unlock Print_mutex]"

lemma reap_one:
  assumes ok: "p2p_ok st xs" and mem: "(a, i) \<in> set xs" and dead: "pc_should_remove i"
  obtains st2 xs2 st4 where
    "reap_loop ws st (Some a) = reap_loop (tl ws) st4 (conn_head st4)"
    "evolves st xs st2 xs2" "p2p_ok st4 (drop_addr a xs2)"
    "finished st4 = finished st2" "globals st4 = globals st"
    "ws = [] \<Longrightarrow> xs2 = xs \<and> trace st4 = trace st @ removal_events (a, i)"
proof -
  obtain c t where c: "heap st a = Some c" "i = unlinked c" "pc_thread c = Some t"
    "pc_should_remove c" "t \<in> set (finished st)"
    using wf_node [OF ok mem] dead by (metis unlinked_fields(7))
  let ?st1 = "emit (Unlock Conn_mutex) st"
  have ok1: "p2p_ok ?st1 xs" "t \<in> set (finished ?st1)" using ok c(5) by (simp_all add: eff)
  obtain st2 xs2 where j: "pthread_join (window ws) (Some t) ?st1 = Some st2"
    and ev: "evolves ?st1 xs st2 xs2"
    using pthread_join_finished [OF ok1] by blast
  have ev': "evolves st xs st2 xs2" using ev by (simp add: evolves_def eff)
  have ok2: "p2p_ok st2 xs2" using ev by (simp add: evolves_def)
  obtain y where y: "y \<in> set xs2" "aged (a, i) y" by (rule evolves_mem [OF ev mem])
  define k where "k = snd y"
  have "y = (a, k)" using y(2) by (simp add: aged_def k_def prod_eq_iff)
  then have mem2: "(a, k) \<in> set xs2" using y(1) by simp
  then obtain ys zs where xs2: "xs2 = ys @ (a, k) # zs" by (auto simp: in_set_conv_decomp)
  have cl: "conn_list (heap st2) (conn_head st2) (ys @ (a, k) # zs)"
    using wf_conns [OF ok2] by (simp add: conns_def xs2)
  let ?prev = "if ys = [] then None else Some (fst (last ys))"
  have cs: "conns (emit (Lock Conn_mutex) st2) (ys @ (a, k) # zs)" using wf_conns [OF ok2] xs2 by simp
  obtain st3 where r: "remove_node_locked ?prev (Some a) (emit (Lock Conn_mutex) st2) = Some st3"
    "conns st3 (ys @ zs)" "trace st3 = trace (emit (Lock Conn_mutex) st2) @ [Free a]"
    "finished st3 = finished (emit (Lock Conn_mutex) st2)" "heap st3 a = None"
    "next_tid st3 = next_tid (emit (Lock Conn_mutex) st2)"
    "globals st3 = globals (emit (Lock Conn_mutex) st2)"
    using remove_node_locked_conns [OF cs refl] by metis
  have drop: "drop_addr a xs2 = ys @ zs"
    using conns_distinct [OF cs] by (auto simp: xs2 drop_addr_fresh)
  let ?st4 = "report_removed a st3"
  have 1: "reap_loop ws st (Some a) = reap_loop (tl ws) ?st4 (conn_head ?st4)"
    using c j search_addr [OF cl] r(1) by (subst reap_loop.simps) (simp add: Let_def eff)
  have 2: "p2p_ok ?st4 (drop_addr a xs2)"
    using wf_drop [OF ok2, of st3 a] r drop by (simp add: eff)
  have 3: "ws = [] \<Longrightarrow> xs2 = xs \<and> trace ?st4 = trace st @ removal_events (a, i)"
  proof -
    assume "ws = []"
    then have st2: "st2 = emit (Join (Some t)) ?st1"
      using j ok1(2) by (simp add: window_def pthread_join_def)
    then have "conns st2 xs" using wf_conns [OF ok] by simp
    then have "xs2 = xs" using wf_conns [OF ok2] conns_unique by blast
    then show ?thesis using st2 r(3,5) c(2,3)
      by (simp add: report_removed_def removal_events_def eff)
  qed
  have "finished ?st4 = finished st2" "globals ?st4 = globals st"
    using r(4,7) ev' by (simp_all add: eff evolves_def)
  from that [OF 1 ev' 2 this 3] show ?thesis .
qed

definition live :: "addr \<times> peer_conn \<Rightarrow> bool" where
  "live x \<longleftrightarrow> \<not> pc_should_remove (snd x)"

definition thread_returned :: "p2p \<Rightarrow> peer_conn \<Rightarrow> bool" where
  "thread_returned st c \<longleftrightarrow> (\<exists>t \<in> set (finished st). pc_thread c = Some t)"

definition reaped :: "p2p \<Rightarrow> peer_list \<Rightarrow> p2p \<Rightarrow> peer_list \<Rightarrow> bool" where
  "reaped st xs st' xs' \<longleftrightarrow> p2p_ok st' xs' \<and> set (finished st) \<subseteq> set (finished st') \<and>
     globals st' = globals st \<and> list_all live xs' \<and>
     (\<forall>x \<in> set xs. x \<in> set xs' \<or> thread_returned st' (snd x))"

lemma aged_thread: "aged x y \<Longrightarrow> pc_thread (snd y) = pc_thread (snd x)"
  by (auto simp: aged_def)

lemma dead_returned:
  "p2p_ok st xs \<Longrightarrow> x \<in> set xs \<Longrightarrow> \<not> live x \<Longrightarrow> thread_returned st (snd x)"
  by (auto simp: p2p_ok_def node_ok_def live_def thread_returned_def)

lemma reaped_step:
  assumes ok: "p2p_ok st xs" and mem: "(a, i) \<in> set xs" "\<not> live (a, i)"
    and ev: "evolves st xs st2 xs2" and ok4: "p2p_ok st4 (drop_addr a xs2)"
    and fin: "finished st4 = finished st2" "globals st4 = globals st"
    and ih: "reaped st4 (drop_addr a xs2) st' xs'"
  shows "reaped st xs st' xs'"
proof -
  have sub: "set (finished st) \<subseteq> set (finished st')" "set (finished st2) \<subseteq> set (finished st')"
    using ev ih fin by (auto simp: evolves_def reaped_def)
  have ok2: "p2p_ok st2 xs2" using ev by (simp add: evolves_def)
  have "x \<in> set xs' \<or> thread_returned st' (snd x)" if x: "x \<in> set xs" for x
  proof (cases "fst x = a")
    case True
    then have "x = (a, i)"
      using x mem(1) conns_distinct [OF wf_conns [OF ok]]
      by (metis eq_key_imp_eq_value prod.collapse)
    then show ?thesis using dead_returned [OF ok mem] sub by (auto simp: thread_returned_def)
  next
    case False
    obtain y where y: "y \<in> set xs2" "aged x y" using evolves_mem [OF ev x] by blast
    then have "y \<in> set (drop_addr a xs2)" using False by (auto simp: drop_addr_def aged_def)
    then consider "y \<in> set xs'" | "thread_returned st' (snd y)" using ih by (auto simp: reaped_def)
    then show ?thesis
    proof cases
      case 1
      then have "live y" using ih by (auto simp: reaped_def list_all_iff)
      with y(2) have "x = y" by (auto simp: aged_def live_def prod_eq_iff)
      with 1 show ?thesis by simp
    next
      case 2
      then show ?thesis using aged_thread [OF y(2)] by (simp add: thread_returned_def)
    qed
  qed
  then show ?thesis using ih fin sub by (auto simp: reaped_def)
qed

lemma reap_loop_reaped:
  "p2p_ok st xs \<Longrightarrow> \<exists>st' xs'. reap_loop ws st (conn_head st) = Some st' \<and> reaped st xs st' xs'"
proof (induction "(length ws, length xs)" arbitrary: ws xs st rule: less_induct)
  case less
  have cl: "conn_list (heap st) (conn_head st) xs"
    using wf_conns [OF less.prems] by (simp add: conns_def)
  show ?case
  proof (cases "list_all live xs")
    case True
    then show ?thesis using reap_loop_clean [OF cl] less.prems
      by (auto simp: live_def list_all_iff reaped_def)
  next
    case False
    then obtain ys x zs where xs: "xs = ys @ x # zs" "\<not> live x" "\<forall>y \<in> set ys. live y"
      using split_list_first_prop [of xs "\<lambda>x. \<not> live x"] by (auto simp: list_all_iff)
    obtain a i where x: "x = (a, i)" by (cases x)
    have mem: "(a, i) \<in> set xs" "\<not> live (a, i)" using xs x by auto
    then have dead: "pc_should_remove i" by (simp add: live_def)
    show ?thesis
    proof (rule reap_one [OF less.prems mem(1) dead, of ws])
      fix st2 xs2 st4
      assume r: "reap_loop ws st (Some a) = reap_loop (tl ws) st4 (conn_head st4)"
      "evolves st xs st2 xs2" "p2p_ok st4 (drop_addr a xs2)"
      "finished st4 = finished st2" "globals st4 = globals st"
      "ws = [] \<Longrightarrow> xs2 = xs \<and> trace st4 = trace st @ removal_events (a, i)"
    have "(length (tl ws), length (drop_addr a xs2)) < (length ws, length xs)"
    proof (cases "ws = []")
      case True
      then have "drop_addr a xs2 = ys @ zs"
        using r(6) xs x conn_list_distinct [OF cl] by (auto simp: drop_addr_fresh)
      with True xs show ?thesis by simp
    qed simp
    from less.hyps [OF this r(3)] obtain st' xs' where
      "reap_loop (tl ws) st4 (conn_head st4) = Some st'" "reaped st4 (drop_addr a xs2) st' xs'"
      by blast
    moreover have "reap_loop ws st (conn_head st) = reap_loop ws st (Some a)"
      using reap_loop_to_first [of st "conn_head st" ys a i zs] cl xs x by (simp add: live_def)
    ultimately show ?thesis
      using r(1) reaped_step [OF less.prems mem r(2-5)] by auto
    qed
  qed
qed

section \<open>Without interference\<close>

text \<open>
  When the other threads stand still in the windows, exactly the marked connections go, in list
  order, and each removal prints a value read from freed memory.
\<close>

lemma reap_loop_quiet:
  "p2p_ok st xs \<Longrightarrow> \<exists>st'. reap_loop [] st (conn_head st) = Some st' \<and> p2p_ok st' (filter live xs) \<and>
     trace st' = trace st @ concat (map removal_events (filter (\<lambda>x. \<not> live x) xs))"
proof (induction "length xs" arbitrary: xs st rule: less_induct)
  case less
  have cl: "conn_list (heap st) (conn_head st) xs"
    using wf_conns [OF less.prems] by (simp add: conns_def)
  show ?case
  proof (cases "list_all live xs")
    case True
    then show ?thesis using reap_loop_clean [OF cl] less.prems
      by (auto simp: live_def list_all_iff filter_id_conv filter_empty_conv)
  next
    case False
    then obtain ys x zs where xs: "xs = ys @ x # zs" "\<not> live x" "\<forall>y \<in> set ys. live y"
      using split_list_first_prop [of xs "\<lambda>x. \<not> live x"] by (auto simp: list_all_iff)
    obtain a i where x: "x = (a, i)" by (cases x)
    have mem: "(a, i) \<in> set xs" and dead: "pc_should_remove i" using xs x by (auto simp: live_def)
    show ?thesis
    proof (rule reap_one [OF less.prems mem dead, of "[]"])
      fix st2 xs2 st4
      assume r: "reap_loop [] st (Some a) = reap_loop (tl []) st4 (conn_head st4)"
        "p2p_ok st4 (drop_addr a xs2)"
        "([] :: env_act list list) = [] \<Longrightarrow> xs2 = xs \<and> trace st4 = trace st @ removal_events (a, i)"
      have drop: "drop_addr a xs2 = ys @ zs"
        using r(3) xs x conn_list_distinct [OF cl] by (auto simp: drop_addr_fresh)
      have "length (ys @ zs) < length xs" using xs by simp
      from less.hyps [OF this] r(2) obtain st' where
        "reap_loop [] st4 (conn_head st4) = Some st'" "p2p_ok st' (filter live (ys @ zs))"
        "trace st' = trace st4 @ concat (map removal_events (filter (\<lambda>x. \<not> live x) (ys @ zs)))"
        unfolding drop by blast
      moreover have "reap_loop [] st (conn_head st) = reap_loop [] st (Some a)"
        using reap_loop_to_first [of st "conn_head st" ys a i zs] cl xs x by (simp add: live_def)
      moreover have "filter (\<lambda>x. \<not> live x) ys = []" using xs(3) by (simp add: filter_empty_conv)
      ultimately show ?thesis using r(1,3) xs x by auto
    qed
  qed
qed

section \<open>Locks\<close>

lemma runs_safe_printf [intro]: "Print_mutex \<notin> set h \<Longrightarrow> runs h st h (safe_printf m st)"
  by (rule runs_trace) (auto simp: eff)

lemma runs_printed: "Print_mutex \<notin> set h \<Longrightarrow> runs h st h (printed st ms)"
  by (induction ms arbitrary: st) (auto intro: runs_trans)

lemma runs_recv_thread:
  assumes "conn_recv_thread a rs st = Some st'" "heap st a = Some c"
  shows "runs [] st [] st'"
proof -
  obtain left ms where "recv_loop a rs st = Some (left, printed st ms)"
    using recv_loop_prints [OF assms(2)] by blast
  moreover have "recv_exit a (printed st ms) = Some st' \<Longrightarrow> runs [] (printed st ms) [] st'"
    by (rule runs_trace [of _ _ "[Lock Conn_mutex, Unlock Conn_mutex]"])
      (auto simp: recv_exit_def Let_def eff split: option.splits)
  ultimately show ?thesis using assms(1) runs_printed [of "[]" st ms]
    by (auto simp: conn_recv_thread_def intro: runs_trans split: if_splits)
qed

lemma runs_unlink:
  assumes "unlink_and_free p st = Some st'" shows "runs [] st [] st'"
  by (rule runs_trace [of _ _ "[Lock Conn_mutex, Free p, Unlock Conn_mutex]"])
    (use assms in \<open>auto simp: unlink_and_free_def Let_def eff split: option.splits if_splits prod.splits\<close>)

lemma runs_add: "add_connection fd peer m st = (r, st') \<Longrightarrow> runs [] st [] st'"
  by (cases m) (auto simp: add_connection_fail add_connection_def Let_def eff
      intro: runs_trace [of _ _ "[Lock Conn_mutex, Unlock Conn_mutex]"])

lemma runs_start: "start_receiver p st = Some st' \<Longrightarrow> runs h st h st'"
  by (rule runs_same) (auto simp: start_receiver_def eff split: option.splits)

lemma runs_close [intro]: "runs h st h (emit (Sock_close fd) st)"
  by (rule runs_trace) (auto simp: eff)

lemma runs_listener_accept:
  assumes "listener_accept r st = Some (nxt, st')"
  shows "runs [] st [] st'"
proof (cases r)
  case (Accept_err e)
  with assms show ?thesis
    by (cases "running st") (auto simp: listener_accept_def)
next
  case (Accepted fd peer m ok)
  obtain q st1 where a: "add_connection fd peer m st = (q, st1)" by fastforce
  have 1: "runs [] st [] st1" by (rule runs_add [OF a])
  let ?f = "\<lambda>m. emit (Sock_close fd) (safe_printf m st1)"
  have 2: "runs [] st [] (safe_printf m st1)" for m
    by (rule runs_trans [OF 1]) auto
  have 3: "runs [] st [] (?f m)" for m
    by (rule runs_trans [OF 2]) auto
  have 4: "unlink_and_free p (?f m) = Some st' \<Longrightarrow> runs [] st [] st'" for m p
    by (rule runs_trans [OF 3 runs_unlink])
  have 5: "start_receiver p st1 = Some st' \<Longrightarrow> runs [] st [] st'" for p
    by (rule runs_trans [OF 1 runs_start])
  show ?thesis using assms Accepted a 3 4 5
    by (auto simp: listener_accept_def split: option.splits if_splits)
qed

lemma runs_announce: "runs [] st [] (listener_announce p st)"
  by (cases "heap st p") (auto simp: listener_announce_def eff intro!: runs_trace)

lemma runs_head: "runs h st h (listener_head st)"
  by (rule runs_same) (simp add: listener_head_def)

lemma runs_env_step: "env_step e st = Some st' \<Longrightarrow> runs [] st [] st'"
proof (cases e)
  case (Env_accept r)
  assume s: "env_step e st = Some st'"
  show ?thesis
  proof (cases "listener_done st \<or> \<not> accept_enabled r st")
    case False
    with s Env_accept obtain nxt st1 where "listener_accept r st = Some (nxt, st1)"
      and st': "st' = (case nxt of L_break \<Rightarrow> st1\<lparr>listener_done := True\<rparr>
          | L_continue \<Rightarrow> listener_head st1 | L_announce p \<Rightarrow> st1)"
      by (auto simp: env_step_def)
    then have "runs [] st [] st1" by (intro runs_listener_accept)
    moreover have "runs [] st1 [] st'"
      using st' runs_head by (auto intro: runs_same split: listener_next.split)
    ultimately show ?thesis by (rule runs_trans)
  qed (use s Env_accept in \<open>auto simp: env_step_def\<close>)
qed (auto simp: env_step_def intro: runs_recv_thread runs_trans [OF runs_announce runs_head]
    split: option.splits if_splits)

lemma runs_env_run: "env_run es st = Some st' \<Longrightarrow> runs [] st [] st'"
  by (induction es arbitrary: st) (auto intro: runs_trans runs_env_step split: option.splits)

lemma runs_join_event: "runs [] st [] (emit (Join t) st)"
  by (rule runs_trace) (auto simp: eff)

lemma runs_join: "pthread_join w t st = Some st' \<Longrightarrow> runs [] st [] st'"
  by (auto simp: pthread_join_def split: option.splits if_splits
      intro: runs_trans [OF runs_env_run runs_join_event])

lemma runs_lock [intro]: "runs [] st [Conn_mutex] (emit (Lock Conn_mutex) st)"
  by (rule runs_trace) (auto simp: eff)

lemma runs_unlock [intro]: "runs [Conn_mutex] st [] (emit (Unlock Conn_mutex) st)"
  by (rule runs_trace) (auto simp: eff)

lemma runs_free [intro]: "runs h st h (free_node a st)"
  by (rule runs_trace) (auto simp: eff)

lemma runs_remove:
  assumes "remove_node_locked prev cur st = Some st'" shows "runs h st h st'"
proof -
  have "trace st' = trace st \<or> (\<exists>a. trace st' = trace st @ [Free a])"
    using assms by (auto simp: remove_node_locked_def eff split: option.splits)
  then show ?thesis by (auto intro: runs_same runs_trace)
qed

lemma runs_stale [intro]: "runs h st h (emit (Stale_read a) st)"
  by (rule runs_trace) (auto simp: eff)

lemma runs_report: "Print_mutex \<notin> set h \<Longrightarrow> runs h st h (report_removed a st)"
  by (cases "heap st a") (auto simp: report_removed_def intro: runs_trans [OF runs_stale])

lemma runs_reap_loop:
  assumes "reap_loop ws st cur = Some st'"
  shows "runs [Conn_mutex] st [Conn_mutex] st'"
proof (rule reap_loop.raw_induct
    [where P = "\<lambda>ws st cur st'. runs [Conn_mutex] st [Conn_mutex] st'", OF _ assms])
  fix reap ws st cur st'
  let ?C = "[Conn_mutex]"
  assume IH: "\<And>ws st cur st'. reap ws st cur = Some st' \<Longrightarrow> runs ?C st ?C st'"
    and eq: "(case cur of None \<Rightarrow> Some st
      | Some a \<Rightarrow> Option.bind (heap st a) (\<lambda>c.
            if pc_should_remove c then
              Option.bind (pthread_join (window ws) (pc_thread c) (emit (Unlock Conn_mutex) st)) (\<lambda>st2.
              Option.bind (list_search (\<lambda>s _. s = a) (heap st2) None (conn_head st2)) (\<lambda>(scan_prev, scan).
              Option.bind
                (let st3 = emit (Lock Conn_mutex) st2 in
                 if scan = cur then map_option (report_removed a) (remove_node_locked scan_prev scan st3)
                 else Some st3) (\<lambda>st4.
              reap (tl ws) st4 (conn_head st4))))
            else reap ws st (pc_next c))) = Some st'"
  show "runs ?C st ?C st'"
  proof (cases cur)
    case None
    with eq show ?thesis by simp
  next
    case (Some a)
    with eq obtain c where c: "heap st a = Some c" by (auto split: bind_splits)
    show ?thesis
    proof (cases "pc_should_remove c")
      case False
      with eq Some c IH show ?thesis by simp
    next
      case True
      with eq Some c obtain st2 sp sc st4 where
        2: "pthread_join (window ws) (pc_thread c) (emit (Unlock Conn_mutex) st) = Some st2" and
        4: "(if sc = Some a then map_option (report_removed a)
              (remove_node_locked sp sc (emit (Lock Conn_mutex) st2))
             else Some (emit (Lock Conn_mutex) st2)) = Some st4" and
        5: "reap (tl ws) st4 (conn_head st4) = Some st'"
        by (auto simp: Let_def bind_eq_Some_conv)
      have "runs ?C st [] st2" by (rule runs_trans [OF runs_unlock runs_join [OF 2]])
      then have l: "runs ?C st ?C (emit (Lock Conn_mutex) st2)" by (rule runs_trans) auto
      have "runs ?C (emit (Lock Conn_mutex) st2) ?C st4"
        using 4 by (auto split: if_splits intro: runs_trans [OF runs_remove runs_report])
      with l have "runs ?C st ?C st4" by (rule runs_trans)
      then show ?thesis using IH [OF 5] by (rule runs_trans)
    qed
  qed
qed

lemma runs_reap: "reap_connections ws st = Some st' \<Longrightarrow> runs [] st [] st'"
  by (auto simp: reap_connections_def Let_def
      intro: runs_trans [OF runs_lock] runs_trans [OF runs_reap_loop])

end
