(* ===== verification/Command.thy ===== *)
theory Command
  imports Reaper
begin

text \<open>
  \<open>src/command.c\<close>: the user's commands. A command returns the new state, or \<open>None\<close> when it does not
  come back (a join that never ends) or reads memory that is not there. System calls get their
  results from the command's environment; while a command waits without the lock the other
  threads move (\<open>env_act\<close> lists, as in \<open>Reaper\<close>).
\<close>

definition MAX_MSG_LEN :: nat where
  "MAX_MSG_LEN = 100"

definition cmd_help :: "p2p \<Rightarrow> p2p" where
  "cmd_help st = printf (Cmd M_help) st"

section \<open>connect\<close>

text \<open>
  The results of \<open>socket\<close> and \<open>connect\<close>, \<open>errno\<close>, the allocator and \<open>pthread_create\<close>, and what the other
  threads do in the two stretches without the lock: while \<open>connect\<close> waits, and between \<open>add_connection\<close> and
  \<open>pthread_create\<close> or the lock of the rollback. The allocator sees which addresses are in use.
\<close>

record connect_env =
  ce_sock :: int
  ce_connect :: int
  ce_errno :: int
  ce_malloc :: "(addr \<rightharpoonup> peer_conn) \<Rightarrow> addr option"
  ce_create_ok :: bool
  ce_window :: "env_act list"
  ce_window2 :: "env_act list"

text \<open>Documented behaviour of \<open>malloc\<close>: the block it returns is not in use.\<close>

definition malloc_fresh :: "((addr \<rightharpoonup> peer_conn) \<Rightarrow> addr option) \<Rightarrow> bool" where
  "malloc_fresh m \<longleftrightarrow> (\<forall>h a. m h = Some a \<longrightarrow> h a = None)"

text \<open>Steps 5 to 10 of \<open>cmd_connect\<close>: the socket, the connection, the node and its thread.\<close>

definition connect_new :: "connect_env \<Rightarrow> string \<Rightarrow> int \<Rightarrow> p2p \<Rightarrow> p2p option" where
  "connect_new e ip port st =
     (let sock = ce_sock e in
      if sock < 0 then Some (safe_printf (Link (M_socket_failed (ce_errno e))) st)
      else case inet_pton ip of
        None \<Rightarrow> Some (emit (Sock_close sock) (safe_printf (Link (M_pton_failed ip)) st))
      | Some addr \<Rightarrow>
          (let dest = \<lparr>sin_port = htons (word_of_int port), sin_addr = addr\<rparr> in
           Option.bind (env_run (ce_window e) st) (\<lambda>st1.
             if ce_connect e < 0 then
               Some (emit (Sock_close sock) (safe_printf (Link (M_connect_failed ip port (ce_errno e))) st1))
             else (case add_connection sock dest (ce_malloc e (heap st1)) st1 of
                 (None, st2) \<Rightarrow> Some (emit (Sock_close sock) (safe_printf (Link M_add_failed) st2))
               | (Some p, st2) \<Rightarrow>
                   Option.bind (env_run (ce_window2 e) st2) (\<lambda>st3.
                     if \<not> ce_create_ok e then
                       unlink_and_free p (emit (Sock_close sock) (safe_printf (Link M_create_failed) st3))
                     else Option.bind (start_receiver p st3) (\<lambda>st4.
                          map_option (\<lambda>c. safe_printf (Link (M_connected (pc_ip c) (pc_port c) (pc_id c))) st4)
                            (heap st4 p)))))))"

text \<open>
  \<open>strtol\<close> is called before \<open>portstr\<close> is compared with a null pointer, so a null \<open>portstr\<close> faults.
\<close>

definition cmd_connect :: "connect_env \<Rightarrow> string option \<Rightarrow> string option \<Rightarrow> p2p \<Rightarrow> p2p option" where
  "cmd_connect e ip portstr st =
     (if \<not> is_valid_ipv4 ip then Some (safe_printf (Link (M_invalid_ip ip)) st)
      else case portstr of
        None \<Rightarrow> None
      | Some ps \<Rightarrow>
          (let (port, endp) = strtol ps; s = the ip in
           if ps = [] \<or> endp \<noteq> [] \<or> port \<le> 0 \<or> port > 65535 then
             Some (safe_printf (Link (M_invalid_port portstr)) st)
           else if (s = local_ip st \<or> s = ''127.0.0.1'') \<and> port = sint (listen_port st) then
             Some (safe_printf (Link M_self_connect) st)
           else (let st1 = emit (Lock Conn_mutex) st in
             case list_search (\<lambda>_ c. pc_active c \<and> pc_port c = port \<and> pc_ip c = s)
                 (heap st1) None (conn_head st1) of
               None \<Rightarrow> None
             | Some (_, Some a) \<Rightarrow>
                 (let st2 = emit (Unlock Conn_mutex) st1 in
                  map_option (\<lambda>c. safe_printf (Link (M_duplicate s port (pc_id c))) st2) (heap st2 a))
             | Some (_, None) \<Rightarrow> connect_new e s port (emit (Unlock Conn_mutex) st1))))"

section \<open>list\<close>

partial_function (option) list_rows :: "p2p \<Rightarrow> addr option \<Rightarrow> p2p option" where
  [code]: "list_rows st cur =
     (case cur of
        None \<Rightarrow> Some st
      | Some a \<Rightarrow>
          Option.bind (heap st a) (\<lambda>c.
            list_rows (if pc_active c
                then printf (Cmd (M_list_row (pc_id c) (pc_ip c) (pc_port c))) st else st)
              (pc_next c)))"

definition cmd_list :: "env_act list list \<Rightarrow> p2p \<Rightarrow> p2p option" where
  "cmd_list ws st =
     (let st1 = printf (Cmd M_list_header) (emit (Lock Conn_mutex) st) in
      Option.bind (list_rows st1 (conn_head st1)) (\<lambda>st2.
      reap_connections ws (emit (Unlock Conn_mutex) st2)))"

section \<open>terminate\<close>

definition hang_up :: "peer_conn \<Rightarrow> p2p \<Rightarrow> p2p" where
  "hang_up c st = emit (Sock_close (pc_sockfd c)) (emit (Sock_shutdown (pc_sockfd c))
     (emit (Sock_send (pc_sockfd c) disconnect_cmd) st))"

definition cmd_terminate :: "env_act list \<Rightarrow> int32 \<Rightarrow> p2p \<Rightarrow> p2p option" where
  "cmd_terminate w cid st =
     (let st1 = emit (Lock Conn_mutex) st in
      case list_search (\<lambda>_ c. pc_id c = cid) (heap st1) None (conn_head st1) of
        None \<Rightarrow> None
      | Some (_, None) \<Rightarrow> Some (printf (Cmd (M_not_found cid)) (emit (Unlock Conn_mutex) st1))
      | Some (_, Some a) \<Rightarrow>
          Option.bind (heap st1 a) (\<lambda>c.
          let st2 = put_node a (c\<lparr>pc_active := False\<rparr>) (hang_up c st1);
              st3 = emit (Unlock Conn_mutex) st2 in
          Option.bind (pthread_join w (pc_thread c) st3) (\<lambda>st4.
          let st5 = emit (Lock Conn_mutex) st4 in
          Option.bind (list_search (\<lambda>s _. s = a) (heap st5) None (conn_head st5)) (\<lambda>(scan_prev, scan).
          map_option (emit (Unlock Conn_mutex))
            (if scan = Some a then
               map_option (printf (Cmd (M_terminated cid))) (remove_node_locked scan_prev scan st5)
             else Some st5)))))"

section \<open>send\<close>

text \<open>\<open>sent\<close> and \<open>err\<close> are the result of \<open>send\<close> and \<open>errno\<close>.\<close>

definition cmd_send :: "int \<Rightarrow> int \<Rightarrow> int32 \<Rightarrow> string \<Rightarrow> p2p \<Rightarrow> p2p option" where
  "cmd_send sent err cid msg st =
     (if length msg > MAX_MSG_LEN then Some (printf (Cmd M_too_long) st)
      else let st1 = emit (Lock Conn_mutex) st in
      case list_search (\<lambda>_ c. pc_id c = cid \<and> pc_active c) (heap st1) None (conn_head st1) of
        None \<Rightarrow> None
      | Some (_, None) \<Rightarrow> Some (printf (Cmd (M_not_active cid)) (emit (Unlock Conn_mutex) st1))
      | Some (_, Some a) \<Rightarrow>
          Option.bind (heap st1 a) (\<lambda>c.
          let st2 = emit (Unlock Conn_mutex) (emit (Sock_send (pc_sockfd c) msg) st1) in
          if sent < 0 then Some (printf (Cmd (M_send_failed err)) st2)
          else map_option (\<lambda>c'. printf (Cmd (M_sent cid (pc_ip c') (pc_port c') msg)) st2) (heap st2 a)))"

section \<open>exit\<close>

partial_function (option) exit_close_loop :: "p2p \<Rightarrow> addr option \<Rightarrow> p2p option" where
  [code]: "exit_close_loop st cur =
     (case cur of
        None \<Rightarrow> Some st
      | Some a \<Rightarrow>
          Option.bind (heap st a) (\<lambda>c.
            if pc_active c then
              exit_close_loop (put_node a (c\<lparr>pc_active := False\<rparr>) (hang_up c st)) (pc_next c)
            else exit_close_loop st (pc_next c)))"

text \<open>
  The second loop joins every thread while it holds \<open>conn_mutex\<close>: no thread can finish meanwhile
  (\<open>pthread_join []\<close>), so a thread that has not returned yet never will.
\<close>

partial_function (option) exit_join_loop :: "p2p \<Rightarrow> addr option \<Rightarrow> p2p option" where
  [code]: "exit_join_loop st cur =
     (case cur of
        None \<Rightarrow> Some st
      | Some a \<Rightarrow>
          Option.bind (heap st a) (\<lambda>c.
          Option.bind (pthread_join [] (pc_thread c) st) (\<lambda>st1.
            exit_join_loop (free_node a st1) (pc_next c))))"

definition exit_close :: "p2p \<Rightarrow> p2p option" where
  "exit_close st =
     (let st1 = (safe_printf (Cmd M_exiting) st)\<lparr>running := False\<rparr>;
          st2 = (if server_sock st1 \<ge> 0 then emit (Sock_close (server_sock st1)) st1 else st1);
          st3 = emit (Lock Conn_mutex) st2 in
      map_option (emit (Unlock Conn_mutex)) (exit_close_loop st3 (conn_head st3)))"

definition exit_join :: "p2p \<Rightarrow> p2p option" where
  "exit_join st =
     (let st1 = emit (Lock Conn_mutex) st in
      map_option (\<lambda>st2. emit (Unlock Conn_mutex) (st2\<lparr>conn_head := None\<rparr>))
        (exit_join_loop st1 (conn_head st1)))"

definition cmd_exit :: "env_act list \<Rightarrow> p2p \<Rightarrow> p2p option" where
  "cmd_exit w st =
     Option.bind (exit_close st) (\<lambda>st1.
     Option.bind (env_run w st1) (\<lambda>st2.
       if listener_done st2 then exit_join (emit (Join (listener_thread_id st2)) st2) else None))"

end
