(* ===== verification/Command_Props.thy ===== *)
theory Command_Props
  imports Command
begin

text \<open>
  What the commands of the chat do to the list of connections and to the sockets: the lemmas behind
  the properties of the program. Each command is total on a well-formed state once the threads it
  waits for return.
\<close>

section \<open>Searching a well-formed list\<close>

lemma ok_search:
  assumes "p2p_ok st xs" "\<And>c. P (unlinked c) = P c"
  obtains prev where "list_search (\<lambda>_. P) (heap st) None (conn_head st) = Some (prev, first_addr P xs)"
  using search_first_addr [of "heap st" "conn_head st" xs P None] wf_conns [OF assms(1)] assms(2)
  by (auto simp: conns_def)

lemma first_addr_only:
  assumes "(a, i) \<in> set xs" "P i" "\<And>x. x \<in> set xs \<Longrightarrow> P (snd x) \<Longrightarrow> x = (a, i)"
  shows "first_addr P xs = Some a"
proof (cases "first_addr P xs")
  case None
  with assms(1,2) show ?thesis by (auto simp: first_addr_None)
next
  case (Some b)
  then obtain ys j zs where "xs = ys @ (b, j) # zs" "P j" by (rule first_addr_Some)
  then have "(b, j) = (a, i)" by (intro assms(3)) simp_all
  with Some show ?thesis by simp
qed

lemma first_addr_mem:
  assumes "first_addr P xs = Some a"
  obtains i where "(a, i) \<in> set xs" "P i"
proof -
  from assms obtain ys i zs where "xs = ys @ (a, i) # zs" "P i" by (rule first_addr_Some)
  then show ?thesis by (intro that) auto
qed

section \<open>Connection ids\<close>

text \<open>
  Ids are positive, below the next one and different from each other as long as fewer than
  \<open>2 ^ 31 - 1\<close> connections have been made; then \<open>next_conn_id\<close> wraps around.
\<close>

definition ids_ok :: "int32 \<Rightarrow> peer_list \<Rightarrow> bool" where
  "ids_ok n xs \<longleftrightarrow> 0 < sint n \<and> distinct (map (\<lambda>x. pc_id (snd x)) xs) \<and>
     (\<forall>x \<in> set xs. 0 < sint (pc_id (snd x)) \<and> sint (pc_id (snd x)) < sint n)"

lemma sint_inc: "sint (n :: int32) < 2 ^ 31 - 1 \<Longrightarrow> sint (n + 1) = sint n + 1"
  using sint_greater_eq [of n] sint_less [of n]
  by (simp add: sint_word_ariths(1) signed_take_bit_int_eq_self)

lemma ids_ok_add:
  assumes "ids_ok n xs" "sint n < 2 ^ 31 - 1" "pc_id i = n"
  shows "ids_ok (n + 1) ((a, i) # xs)"
  using assms sint_inc [OF assms(2)] by (fastforce simp: ids_ok_def)

lemma ids_ok_unique:
  assumes "ids_ok n xs" "(a, i) \<in> set xs" "x \<in> set xs" "pc_id (snd x) = pc_id i"
  shows "x = (a, i)"
  using assms by (intro inj_onD [of "\<lambda>x. pc_id (snd x)" "set xs"]) (auto simp: ids_ok_def distinct_map)

section \<open>connect\<close>

text \<open>
  A well-formed address and a port string that is a number from 1 to 65535 without anything after
  it, not this program's own address and port.
\<close>

definition connectable :: "string \<Rightarrow> string \<Rightarrow> int \<Rightarrow> p2p \<Rightarrow> bool" where
  "connectable ip ps port st \<longleftrightarrow> is_valid_ipv4 (Some ip) \<and> ps \<noteq> [] \<and> strtol ps = (port, []) \<and>
     0 < port \<and> port \<le> 65535 \<and>
     \<not> ((ip = local_ip st \<or> ip = ''127.0.0.1'') \<and> port = sint (listen_port st))"

definition same_peer :: "string \<Rightarrow> int \<Rightarrow> peer_conn \<Rightarrow> bool" where
  "same_peer ip port c \<longleftrightarrow> pc_active c \<and> pc_port c = port \<and> pc_ip c = ip"

lemma cmd_connect_checked:
  assumes "p2p_ok st xs" "connectable ip ps port st"
  shows "cmd_connect e (Some ip) (Some ps) st =
    (case first_addr (same_peer ip port) xs of
       Some a \<Rightarrow> map_option (\<lambda>c. safe_printf (Link (M_duplicate ip port (pc_id c)))
            (emit (Unlock Conn_mutex) (emit (Lock Conn_mutex) st))) (heap st a)
     | None \<Rightarrow> connect_new e ip port (emit (Unlock Conn_mutex) (emit (Lock Conn_mutex) st)))"
proof -
  obtain prev where "list_search (\<lambda>_. same_peer ip port) (heap st) None (conn_head st) =
      Some (prev, first_addr (same_peer ip port) xs)"
    by (rule ok_search [OF assms(1), of "same_peer ip port"]) (auto simp: same_peer_def)
  then have s: "list_search (\<lambda>_ c. pc_active c \<and> pc_port c = port \<and> pc_ip c = ip) (heap st) None
      (conn_head st) = Some (prev, first_addr (same_peer ip port) xs)"
    by (simp add: same_peer_def [abs_def])
  show ?thesis using assms(2) s
    by (auto simp: cmd_connect_def connectable_def Let_def eff split: option.split)
qed

lemma cmd_connect_duplicate:
  assumes "p2p_ok st xs" "connectable ip ps port st" "(a, i) \<in> set xs" "same_peer ip port i"
  obtains b st' where "cmd_connect e (Some ip) (Some ps) st = Some st'" "p2p_ok st' xs"
    "b \<in> snd ` set xs" "same_peer ip port b"
    "trace st' = trace st @ [Lock Conn_mutex, Unlock Conn_mutex, Lock Print_mutex,
       Out (Link (M_duplicate ip port (pc_id b))), Unlock Print_mutex]"
proof -
  have "first_addr (same_peer ip port) xs \<noteq> None"
    using assms(3,4) by (auto simp: first_addr_None intro!: bexI [of _ "(a, i)"])
  then obtain b where b: "first_addr (same_peer ip port) xs = Some b" by blast
  then obtain j where j: "(b, j) \<in> set xs" "same_peer ip port j" by (rule first_addr_mem)
  obtain c where c: "heap st b = Some c" "j = unlinked c"
    using conns_mapped [OF wf_conns [OF assms(1)] j(1)] by blast
  show ?thesis
    by (rule that [of "safe_printf (Link (M_duplicate ip port (pc_id c)))
          (emit (Unlock Conn_mutex) (emit (Lock Conn_mutex) st))" j])
      (use cmd_connect_checked [OF assms(1,2)] b c j assms(1) in \<open>auto simp: eff intro: image_eqI [of _ snd "(b, unlinked c)"]\<close>)
qed

lemma connect_new_success:
  assumes ok: "p2p_ok st xs" and ip: "ip = inet_ntop addr" and port: "0 < port" "port \<le> 65535"
    and sock: "0 \<le> ce_sock e" "0 \<le> ce_connect e" "ce_create_ok e"
    and run: "env_run (ce_window e) st = Some st1"
    and m: "malloc_fresh (ce_malloc e)" "ce_malloc e (heap st1) = Some p"
    and dest: "dest = \<lparr>sin_port = htons (word_of_int port), sin_addr = addr\<rparr>"
  obtains st' xs1 st2 st3 ys zs t where "connect_new e ip port st = Some st'" "evolves st xs st1 xs1"
    "add_connection (ce_sock e) dest (Some p) st1 = (Some p, st2)" "next_conn_id st2 = next_conn_id st1 + 1"
    "env_run (ce_window2 e) st2 = Some st3" "next_conn_id st' = next_conn_id st3"
    "p2p_ok st' (ys @ (p, new_served (next_conn_id st1) (ce_sock e) dest t) # zs)" "list_all2 aged xs1 zs"
    "globals st' = globals st" "ce_window2 e = [] \<Longrightarrow> ys = [] \<and> zs = xs1"
proof -
  let ?n = "new_conn (next_conn_id st1) (ce_sock e) dest"
  obtain xs1 where 1: "env_run (ce_window e) st = Some st1" "evolves st xs st1 xs1"
    using env_run_evolves [OF ok, of "ce_window e"] run by auto
  then have ok1: "p2p_on {} st1 xs1" "globals st1 = globals st" by (auto simp: evolves_def p2p_on_empty)
  have fresh: "heap st1 p = None" using m by (auto simp: malloc_fresh_def)
  obtain r st2 where a: "add_connection (ce_sock e) dest (Some p) st1 = (r, st2)" by fastforce
  note add = on_add [OF ok1(1) fresh a]
  obtain st3 where 3: "env_run (ce_window2 e) st2 = Some st3" using on_env_run [OF add(2)] by blast
  obtain ys zs where w: "p2p_on {p} st3 (ys @ (p, ?n) # zs)" "list_all2 aged xs1 zs" "globals st3 = globals st2"
    "ce_window2 e = [] \<Longrightarrow> ys = [] \<and> zs = xs1"
    using waiting_node [OF add(2) 3] by metis
  let ?n' = "new_served (next_conn_id st1) (ce_sock e) dest (next_tid st3)"
  obtain st4 where s: "start_receiver p st3 = Some st4" "p2p_ok st4 (ys @ (p, ?n') # zs)"
    "globals st4 = globals st3" "next_conn_id st4 = next_conn_id st3"
    using on_start [OF w(1)] by (auto simp: p2p_on_empty new_served_def)
  obtain c where c: "heap st4 p = Some c" using conns_mapped [OF wf_conns [OF s(2)], of p] by auto
  let ?st' = "safe_printf (Link (M_connected (pc_ip c) (pc_port c) (pc_id c))) st4"
  have "connect_new e ip port st = Some ?st'"
    using 1(1) sock ip m(2) a add(1) s(1) c 3 dest by (simp add: connect_new_def Let_def)
  then show ?thesis
    by (rule that [OF _ 1(2), of _ st2 st3 ys "next_tid st3" zs])
      (use s ok1 w a add 3 add_connection_frame(3) [OF a] in \<open>simp_all add: eff\<close>)
qed

text \<open>
  The rollback after a \<open>pthread_create\<close> that has failed: the node is somewhere in the list by then.
\<close>

lemma connect_new_rollback:
  assumes ok: "p2p_ok st xs" and ip: "ip = inet_ntop addr" and sock: "0 \<le> ce_sock e"
    and run: "env_run (ce_window e) st = Some st1"
    and fail: "\<not> ce_connect e < 0" "ce_malloc e (heap st1) = Some p" "\<not> ce_create_ok e"
    and m: "malloc_fresh (ce_malloc e)"
    and dest: "dest = \<lparr>sin_port = htons (word_of_int port), sin_addr = addr\<rparr>"
  obtains st' xs1 st2 st3 ys n zs es where "connect_new e ip port st = Some st'" "evolves st xs st1 xs1"
    "add_connection (ce_sock e) dest (Some p) st1 = (Some p, st2)" "env_run (ce_window2 e) st2 = Some st3"
    "conns st3 (ys @ (p, n) # zs)" "list_all2 aged xs1 zs" "p2p_ok st' (ys @ zs)" "heap st' p = None"
    "trace st' = trace st3 @ es" "Sock_close (ce_sock e) \<in> set es" "globals st' = globals st"
proof -
  let ?n = "new_conn (next_conn_id st1) (ce_sock e) dest"
  obtain xs1 where ev: "evolves st xs st1 xs1"
    using env_run_evolves [OF ok, of "ce_window e"] run by auto
  then have ok1: "p2p_on {} st1 xs1" "globals st1 = globals st" by (auto simp: evolves_def p2p_on_empty)
  have fresh: "heap st1 p = None" using m fail(2) by (auto simp: malloc_fresh_def)
  obtain r st2 where a: "add_connection (ce_sock e) dest (Some p) st1 = (r, st2)" by fastforce
  note add = on_add [OF ok1(1) fresh a]
  obtain st3 where 3: "env_run (ce_window2 e) st2 = Some st3" using on_env_run [OF add(2)] by blast
  obtain ys zs where w: "p2p_on {p} st3 (ys @ (p, ?n) # zs)" "list_all2 aged xs1 zs" "globals st3 = globals st2"
    using waiting_node [OF add(2) 3] by metis
  let ?st3 = "emit (Sock_close (ce_sock e)) (safe_printf (Link M_create_failed) st3)"
  have on3: "p2p_on {p} ?st3 (ys @ (p, ?n) # zs)" using w(1) by simp
  obtain st' where u: "unlink_and_free p ?st3 = Some st'" "p2p_ok st' (ys @ zs)" "heap st' p = None"
    "trace st' = trace ?st3 @ [Lock Conn_mutex, Free p, Unlock Conn_mutex]" "globals st' = globals ?st3"
    using on_unlink [OF on3] by (auto simp: p2p_on_empty)
  have "connect_new e ip port st = Some st'"
    using run sock ip fail a add(1) u(1) 3 dest by (simp add: connect_new_def Let_def)
  then show ?thesis
    by (rule that [OF _ ev _ 3 on_conns [OF w(1)] w(2) u(2,3)])
      (use u w(3) a add(1) ok1(2) add_connection_frame(3) [OF a] in \<open>(simp add: eff)+\<close>)
qed

lemma connect_new_failure:
  assumes ok: "p2p_ok st xs" and ip: "ip = inet_ntop addr" and sock: "0 \<le> ce_sock e"
    and run: "env_run (ce_window e) st = Some st1"
    and fail: "ce_connect e < 0 \<or> ce_malloc e (heap st1) = None"
  obtains st' xs1 es where "connect_new e ip port st = Some st'" "evolves st xs st1 xs1"
    "p2p_ok st' xs1" "trace st' = trace st1 @ es" "Sock_close (ce_sock e) \<in> set es"
    "globals st' = globals st"
proof -
  let ?s = "ce_sock e"
  obtain xs1 where ev: "evolves st xs st1 xs1"
    using env_run_evolves [OF ok, of "ce_window e"] run by auto
  then have ok1: "p2p_ok st1 xs1" and gl: "globals st1 = globals st" by (auto simp: evolves_def)
  consider "ce_connect e < 0" | "\<not> ce_connect e < 0" "ce_malloc e (heap st1) = None"
    using fail by auto
  then show ?thesis
  proof cases
    case 1
    let ?st' = "emit (Sock_close ?s) (safe_printf (Link (M_connect_failed ip port (ce_errno e))) st1)"
    have "connect_new e ip port st = Some ?st'"
      using run sock ip 1 by (simp add: connect_new_def Let_def)
    then show ?thesis by (rule that [OF _ ev]) (use ok1 gl in \<open>(simp add: eff)+\<close>)
  next
    case 2
    let ?st' = "emit (Sock_close ?s) (safe_printf (Link M_add_failed) st1)"
    have "connect_new e ip port st = Some ?st'"
      using run sock ip 2 by (simp add: connect_new_def Let_def add_connection_fail)
    then show ?thesis by (rule that [OF _ ev]) (use ok1 gl in \<open>(simp add: eff)+\<close>)
  qed
qed

section \<open>list\<close>

text \<open>The rows \<open>cmd_list\<close> prints: the active connections, in list order.\<close>

definition rows :: "peer_list \<Rightarrow> event list" where
  "rows xs = map (\<lambda>x. Out (Cmd (M_list_row (pc_id (snd x)) (pc_ip (snd x)) (pc_port (snd x)))))
     (filter (\<lambda>x. pc_active (snd x)) xs)"

lemma list_rows_trace:
  "conn_list (heap st) cur xs \<Longrightarrow> \<exists>st'. list_rows st cur = Some st' \<and> trace st' = trace st @ rows xs \<and>
     heap st' = heap st \<and> conn_head st' = conn_head st \<and> finished st' = finished st \<and>
     next_tid st' = next_tid st \<and> globals st' = globals st"
proof (induction xs arbitrary: st cur)
  case Nil
  then show ?case by (subst list_rows.simps) (simp add: rows_def)
next
  case (Cons x xs)
  obtain a i where x: "x = (a, i)" by (cases x)
  with Cons.prems obtain c where c: "cur = Some a" "heap st a = Some c" "i = unlinked c"
    "conn_list (heap st) (pc_next c) xs" by auto
  let ?st = "if pc_active c then printf (Cmd (M_list_row (pc_id c) (pc_ip c) (pc_port c))) st else st"
  have "conn_list (heap ?st) (pc_next c) xs" using c(4) by (simp add: eff)
  from Cons.IH [OF this] obtain st' where st': "list_rows ?st (pc_next c) = Some st'"
    "trace st' = trace ?st @ rows xs" "heap st' = heap ?st" "conn_head st' = conn_head ?st"
    "finished st' = finished ?st" "next_tid st' = next_tid ?st" "globals st' = globals ?st" by blast
  have "list_rows st cur = list_rows ?st (pc_next c)"
    using c by (subst list_rows.simps) simp
  with st' c x show ?case by (auto simp: rows_def eff)
qed

lemma reap_connections_reaped:
  assumes "p2p_ok st xs"
  obtains st' xs' where "reap_connections ws st = Some st'" "reaped st xs st' xs'"
proof -
  have "p2p_ok (emit (Lock Conn_mutex) st) xs" using assms by simp
  then obtain st1 xs1 where "reap_loop ws (emit (Lock Conn_mutex) st)
      (conn_head (emit (Lock Conn_mutex) st)) = Some st1"
    "reaped (emit (Lock Conn_mutex) st) xs st1 xs1" using reap_loop_reaped by blast
  then show ?thesis
    by (intro that [of "emit (Unlock Conn_mutex) st1" xs1])
      (auto simp: reap_connections_def Let_def reaped_def thread_returned_def eff)
qed

lemma reap_connections_quiet:
  assumes "p2p_ok st xs"
  obtains st' where "reap_connections [] st = Some st'" "p2p_ok st' (filter live xs)"
    "trace st' = trace st @ [Lock Conn_mutex] @
       concat (map removal_events (filter (\<lambda>x. \<not> live x) xs)) @ [Unlock Conn_mutex]"
proof -
  have "p2p_ok (emit (Lock Conn_mutex) st) xs" using assms by simp
  then obtain st1 where "reap_loop [] (emit (Lock Conn_mutex) st)
      (conn_head (emit (Lock Conn_mutex) st)) = Some st1" "p2p_ok st1 (filter live xs)"
    "trace st1 = trace (emit (Lock Conn_mutex) st) @
       concat (map removal_events (filter (\<lambda>x. \<not> live x) xs))" using reap_loop_quiet by blast
  then show ?thesis
    by (intro that [of "emit (Unlock Conn_mutex) st1"])
      (auto simp: reap_connections_def Let_def eff)
qed

section \<open>send\<close>

lemma cmd_send_cases:
  assumes "p2p_ok st xs" "length msg \<le> MAX_MSG_LEN"
  shows "cmd_send sent err cid msg st =
    (case first_addr (\<lambda>c. pc_id c = cid \<and> pc_active c) xs of
       None \<Rightarrow> Some (printf (Cmd (M_not_active cid))
                (emit (Unlock Conn_mutex) (emit (Lock Conn_mutex) st)))
     | Some a \<Rightarrow> Option.bind (heap st a) (\<lambda>c.
         let st2 = emit (Unlock Conn_mutex) (emit (Sock_send (pc_sockfd c) msg)
                     (emit (Lock Conn_mutex) st))
         in Some (printf (Cmd (if sent < 0 then M_send_failed err
              else M_sent cid (pc_ip c) (pc_port c) msg)) st2)))"
proof -
  obtain prev where s: "list_search (\<lambda>_ c. pc_id c = cid \<and> pc_active c) (heap st) None (conn_head st) =
      Some (prev, first_addr (\<lambda>c. pc_id c = cid \<and> pc_active c) xs)"
    by (rule ok_search [OF assms(1), of "\<lambda>c. pc_id c = cid \<and> pc_active c"]) auto
  show ?thesis using assms(2) s
    by (auto simp: cmd_send_def Let_def eff not_less split: option.split bind_split)
qed

section \<open>terminate\<close>

definition inactive :: "peer_conn \<Rightarrow> peer_conn" where
  "inactive c = c\<lparr>pc_active := False\<rparr>"

lemma inactive_fields [simp]:
  "pc_id (inactive c) = pc_id c" "pc_thread (inactive c) = pc_thread c"
  "pc_should_remove (inactive c) = pc_should_remove c" "\<not> pc_active (inactive c)"
  "pc_next (inactive c) = pc_next c" "inactive (unlinked c) = unlinked (inactive c)"
  "pc_sockfd (inactive c) = pc_sockfd c" "pc_ip (inactive c) = pc_ip c"
  by (simp_all add: inactive_def)

lemma ok_inactive:
  assumes "p2p_ok st xs" "heap st a = Some c"
  shows "p2p_ok (put_node a (inactive c) st) (at_addr a inactive xs)"
proof -
  have "conns (put_node a (inactive c) st) (at_addr a inactive xs)"
    by (rule conns_put_node [OF wf_conns [OF assms(1)] assms(2)]) simp_all
  moreover have "map (\<lambda>x. pc_thread (snd x)) (at_addr a inactive xs) = map (\<lambda>x. pc_thread (snd x)) xs"
    by (auto simp: at_addr_def)
  moreover have "node_ok f n (snd x)" if "x \<in> set (at_addr a inactive xs)"
    "\<forall>x \<in> set xs. node_ok f n (snd x)" for x f n
    using that by (fastforce simp: at_addr_def node_ok_def split: if_splits)
  ultimately show ?thesis using assms(1) by (simp add: p2p_ok_def eff)
qed

lemma env_run_append:
  "env_run (es @ fs) st = Option.bind (env_run es st) (env_run fs)"
  by (induction es arbitrary: st) (auto split: option.split)

text \<open>
  When the socket is shut down, \<open>recv\<close> returns 0 in the receiving thread; a schedule in which it gets
  to run its last steps makes the thread return, whatever else happens before and after.
\<close>

lemma recv_end_of_stream:
  "heap st a = Some c \<Longrightarrow> conn_recv_thread a (Rx [] # rs) st =
     recv_exit a (safe_printf (Net (M_peer_closed (pc_ip c) (pc_port c))) st)"
  by (simp add: conn_recv_thread_def recv_loop_closed)

lemma env_recv_returns:
  assumes ok: "p2p_ok st xs" and mem: "(a, i) \<in> set xs" and t: "pc_thread i = Some t"
    and step: "env_step (Env_recv a (Rx [] # rs)) st = Some st'"
  shows "t \<in> set (finished st')"
proof -
  obtain c where c: "heap st a = Some c" "pc_thread c = Some t"
    "pc_should_remove c \<longleftrightarrow> t \<in> set (finished st)"
    using wf_node [OF ok mem] t by (metis option.inject unlinked_fields(5))
  show ?thesis
  proof (cases "pc_should_remove c")
    case True
    with step c show ?thesis by (simp add: env_step_def)
  next
    case False
    let ?st = "safe_printf (Net (M_peer_closed (pc_ip c) (pc_port c))) st"
    have "recv_exit a ?st = Some st'"
      using step False c recv_end_of_stream [OF c(1)] by (simp add: env_step_def)
    with c show ?thesis
      by (auto simp: recv_exit_def Let_def eff)
  qed
qed

lemma env_run_recv_returns:
  assumes ok: "p2p_ok st xs" and mem: "(a, i) \<in> set xs" and t: "pc_thread i = Some t"
    and run: "env_run (w1 @ Env_recv a (Rx [] # rs) # w2) st = Some st'"
  shows "t \<in> set (finished st')"
proof -
  obtain st1 xs1 where 1: "env_run w1 st = Some st1" "evolves st xs st1 xs1"
    using env_run_evolves [OF ok] by blast
  then have ok1: "p2p_ok st1 xs1" by (simp add: evolves_def)
  obtain y where y: "y \<in> set xs1" "aged (a, i) y" by (rule evolves_mem [OF 1(2) mem])
  then have mem1: "(a, snd y) \<in> set xs1" "pc_thread (snd y) = Some t"
    using aged_thread [OF y(2)] t by (auto simp: aged_def)
  obtain st2 where 2: "env_step (Env_recv a (Rx [] # rs)) st1 = Some st2" "env_run w2 st2 = Some st'"
    using run 1(1) by (auto simp: env_run_append split: option.splits)
  obtain xs2 where "p2p_ok st2 xs2"
    using env_step_evolves [OF ok1, of "Env_recv a (Rx [] # rs)"] 2(1) by (auto simp: evolves_def)
  then have "set (finished st2) \<subseteq> set (finished st')"
    using env_run_evolves [of st2 xs2 w2] 2(2) by (auto simp: evolves_def)
  then show ?thesis using env_recv_returns [OF ok1 mem1 2(1)] by blast
qed

text \<open>The state in which \<open>cmd_terminate\<close> waits for the thread of node \<open>a\<close>.\<close>

definition hung_up :: "addr \<Rightarrow> peer_conn \<Rightarrow> p2p \<Rightarrow> p2p" where
  "hung_up a c st = emit (Unlock Conn_mutex)
     (put_node a (inactive c) (hang_up c (emit (Lock Conn_mutex) st)))"

lemma hang_up_fields [eff]:
  "heap (hang_up c st) = heap st" "conn_head (hang_up c st) = conn_head st"
  "finished (hang_up c st) = finished st" "next_tid (hang_up c st) = next_tid st"
  "next_conn_id (hang_up c st) = next_conn_id st" "globals (hang_up c st) = globals st"
  "trace (hang_up c st) = trace st @ [Sock_send (pc_sockfd c) disconnect_cmd,
     Sock_shutdown (pc_sockfd c), Sock_close (pc_sockfd c)]"
  by (simp_all add: hang_up_def eff)

lemma ok_hang_up [simp]: "p2p_ok (hang_up c st) xs = p2p_ok st xs"
  by (simp add: hang_up_def)

lemma hung_up_ok:
  assumes "p2p_ok st xs" "heap st a = Some c"
  shows "p2p_ok (hung_up a c st) (at_addr a inactive xs)"
  using ok_inactive [of "hang_up c (emit (Lock Conn_mutex) st)" xs a c] assms
  by (simp add: hung_up_def eff)

lemma cmd_terminate_returned:
  assumes ok: "p2p_ok st xs" and a: "first_addr (\<lambda>c. pc_id c = cid) xs = Some a"
    and c: "heap st a = Some c" "pc_thread c = Some t"
    and run: "env_run w (hung_up a c st) = Some st2" and fin: "t \<in> set (finished st2)"
  obtains st' xs2 where "cmd_terminate w cid st = Some st'"
    "evolves (hung_up a c st) (at_addr a inactive xs) st2 xs2" "p2p_ok st' (drop_addr a xs2)"
    "trace st' = trace st2 @ [Join (Some t), Lock Conn_mutex, Free a,
       Out (Cmd (M_terminated cid)), Unlock Conn_mutex]"
    "globals st' = globals st"
proof -
  have oku: "p2p_ok (hung_up a c st) (at_addr a inactive xs)" by (rule hung_up_ok [OF ok c(1)])
  obtain xs2 where ev: "evolves (hung_up a c st) (at_addr a inactive xs) st2 xs2"
    using env_run_evolves [OF oku, of w] run by auto
  have ok2: "p2p_ok st2 xs2" using ev by (simp add: evolves_def)
  obtain prev where s: "list_search (\<lambda>_ c. pc_id c = cid) (heap st) None (conn_head st) = Some (prev, Some a)"
    using ok_search [OF ok, of "\<lambda>c. pc_id c = cid"] a by (metis unlinked_fields(1))
  have "(a, unlinked c) \<in> set xs" by (rule wf_heap [OF ok c(1)])
  then have "a \<in> fst ` set (at_addr a inactive xs)" by (force simp: at_addr_dom)
  then obtain x where x: "x \<in> set (at_addr a inactive xs)" "fst x = a" by (metis imageE)
  obtain y where y: "y \<in> set xs2" "aged x y" by (rule evolves_mem [OF ev x(1)])
  define k where "k = snd y"
  have "y = (a, k)" using y x by (simp add: aged_def k_def prod_eq_iff)
  then obtain ys zs where xs2: "xs2 = ys @ (a, k) # zs" using y(1) by (auto simp: in_set_conv_decomp)
  let ?st5 = "emit (Lock Conn_mutex) (emit (Join (Some t)) st2)"
  have cs: "conns ?st5 (ys @ (a, k) # zs)" using wf_conns [OF ok2] xs2 by simp
  let ?prev = "if ys = [] then None else Some (fst (last ys))"
  obtain st6 where r: "remove_node_locked ?prev (Some a) ?st5 = Some st6" "conns st6 (ys @ zs)"
    "trace st6 = trace ?st5 @ [Free a]" "finished st6 = finished ?st5" "next_tid st6 = next_tid ?st5"
    "globals st6 = globals ?st5"
    using remove_node_locked_conns [OF cs refl] by metis
  have cl: "conn_list (heap ?st5) (conn_head ?st5) (ys @ (a, k) # zs)"
    using cs by (simp add: conns_def)
  have drop: "drop_addr a xs2 = ys @ zs"
    using conns_distinct [OF cs] by (auto simp: xs2 drop_addr_fresh)
  let ?st' = "emit (Unlock Conn_mutex) (printf (Cmd (M_terminated cid)) st6)"
  have "cmd_terminate w cid st = Some ?st'"
    using s c run fin search_addr [OF cl] r(1)
    by (simp add: cmd_terminate_def Let_def eff hung_up_def [symmetric] inactive_def [symmetric]
        pthread_join_def)
  moreover have "p2p_ok ?st' (drop_addr a xs2)"
    using wf_drop [OF ok2, of st6 a] r drop by (simp add: eff)
  ultimately show ?thesis
    by (rule that [OF _ ev]) (use ev r(6) in \<open>simp_all add: r(3) evolves_def hung_up_def eff\<close>)
qed

section \<open>exit\<close>

definition all_inactive :: "peer_list \<Rightarrow> peer_list" where
  "all_inactive xs = map (\<lambda>x. (fst x, inactive (snd x))) xs"

definition hang_events :: "peer_list \<Rightarrow> event list" where
  "hang_events xs = concat (map (\<lambda>x. [Sock_send (pc_sockfd (snd x)) disconnect_cmd,
     Sock_shutdown (pc_sockfd (snd x)), Sock_close (pc_sockfd (snd x))])
     (filter (\<lambda>x. pc_active (snd x)) xs))"

lemma inactive_id: "\<not> pc_active c \<Longrightarrow> inactive c = c"
  by (simp add: inactive_def)

lemma exit_close_loop_ok:
  "p2p_ok st (ys @ zs) \<Longrightarrow> conn_list (heap st) cur zs \<Longrightarrow>
   \<exists>st'. exit_close_loop st cur = Some st' \<and> p2p_ok st' (ys @ all_inactive zs) \<and>
     trace st' = trace st @ hang_events zs \<and> globals st' = globals st \<and>
     listener_done st' = listener_done st \<and> finished st' = finished st"
proof (induction zs arbitrary: st cur ys)
  case Nil
  then show ?case
    by (subst exit_close_loop.simps) (simp add: all_inactive_def hang_events_def)
next
  case (Cons z zs)
  obtain a i where z: "z = (a, i)" by (cases z)
  with Cons.prems(2) obtain c where c: "cur = Some a" "heap st a = Some c" "i = unlinked c"
    "conn_list (heap st) (pc_next c) zs" by auto
  have dist: "distinct (map fst (ys @ z # zs))" by (rule conns_distinct [OF wf_conns [OF Cons.prems(1)]])
  let ?st = "if pc_active c then put_node a (inactive c) (hang_up c st) else st"
  have "at_addr a inactive (ys @ z # zs) = ys @ (a, inactive i) # zs"
    using dist z by (simp add: at_addr_fresh)
  then have "p2p_ok (put_node a (inactive c) (hang_up c st)) (ys @ (a, inactive i) # zs)"
    using ok_inactive [of "hang_up c st" "ys @ z # zs" a c] Cons.prems(1) c(2) by (simp add: eff)
  then have ok: "p2p_ok ?st ((ys @ [(a, inactive i)]) @ zs)"
    using Cons.prems(1) z c(3) by (cases "pc_active c") (simp_all add: inactive_id)
  have "a \<notin> fst ` set zs" using dist z by simp
  then have "conn_list (heap ?st) (pc_next c) zs" using c(4) by (simp add: eff conn_list_frame)
  from Cons.IH [OF ok this] obtain st' where st': "exit_close_loop ?st (pc_next c) = Some st'"
    "p2p_ok st' ((ys @ [(a, inactive i)]) @ all_inactive zs)" "trace st' = trace ?st @ hang_events zs"
    "globals st' = globals ?st" "listener_done st' = listener_done ?st" "finished st' = finished ?st"
    by blast
  have "exit_close_loop st cur = exit_close_loop ?st (pc_next c)"
    using c by (subst exit_close_loop.simps) (simp add: inactive_def)
  with st' c z show ?case
    by (auto simp: all_inactive_def hang_events_def eff hang_up_def)
qed

lemma pthread_join_now:
  "pthread_join [] t st = (case t of None \<Rightarrow> None
     | Some t' \<Rightarrow> if t' \<in> set (finished st) then Some (emit (Join t) st) else None)"
  by (simp add: pthread_join_def)

lemma exit_join_loop_ok:
  "conn_list (heap st) cur zs \<Longrightarrow> dom (heap st) = fst ` set zs \<Longrightarrow>
   \<forall>z \<in> set zs. thread_returned st (snd z) \<Longrightarrow>
   \<exists>st'. exit_join_loop st cur = Some st' \<and> heap st' = Map.empty \<and>
     trace st' = trace st @ concat (map (\<lambda>z. [Join (pc_thread (snd z)), Free (fst z)]) zs)"
proof (induction zs arbitrary: st cur)
  case Nil
  then show ?case by (subst exit_join_loop.simps) simp
next
  case (Cons z zs)
  obtain a i where z: "z = (a, i)" by (cases z)
  with Cons.prems(1) obtain c where c: "cur = Some a" "heap st a = Some c" "i = unlinked c"
    "conn_list (heap st) (pc_next c) zs" by auto
  obtain t where t: "pc_thread c = Some t" "t \<in> set (finished st)"
    using Cons.prems(3) z c(3) by (auto simp: thread_returned_def)
  let ?st = "free_node a (emit (Join (Some t)) st)"
  have a: "a \<notin> fst ` set zs" using conn_list_distinct [OF Cons.prems(1)] z by simp
  have "conn_list (heap ?st) (pc_next c) zs" using c(4) a by (simp add: eff conn_list_frame)
  moreover have "dom (heap ?st) = fst ` set zs" using Cons.prems(2) z a by (simp add: eff)
  moreover have "\<forall>z \<in> set zs. thread_returned ?st (snd z)"
    using Cons.prems(3) by (simp add: thread_returned_def eff)
  ultimately obtain st' where st': "exit_join_loop ?st (pc_next c) = Some st'" "heap st' = Map.empty"
    "trace st' = trace ?st @ concat (map (\<lambda>z. [Join (pc_thread (snd z)), Free (fst z)]) zs)"
    using Cons.IH by blast
  have "exit_join_loop st cur = exit_join_loop ?st (pc_next c)"
    using c t by (subst exit_join_loop.simps) (simp add: pthread_join_now)
  with st' z c t show ?case by (simp add: eff)
qed

lemma exit_join_loop_stuck:
  "conn_list (heap st) cur zs \<Longrightarrow> \<exists>z \<in> set zs. \<not> thread_returned st (snd z) \<Longrightarrow>
   exit_join_loop st cur = None"
proof (induction zs arbitrary: st cur)
  case Nil
  then show ?case by simp
next
  case (Cons z zs)
  obtain a i where z: "z = (a, i)" by (cases z)
  with Cons.prems(1) obtain c where c: "cur = Some a" "heap st a = Some c" "i = unlinked c"
    "conn_list (heap st) (pc_next c) zs" by auto
  have a: "a \<notin> fst ` set zs" using conn_list_distinct [OF Cons.prems(1)] z by simp
  show ?case
  proof (cases "thread_returned st i")
    case False
    then have "pthread_join [] (pc_thread c) st = None"
      using c(3) by (auto simp: pthread_join_now thread_returned_def split: option.split)
    with c show ?thesis by (subst exit_join_loop.simps) simp
  next
    case True
    then obtain t where t: "pc_thread c = Some t" "t \<in> set (finished st)"
      using c(3) by (auto simp: thread_returned_def)
    let ?st = "free_node a (emit (Join (Some t)) st)"
    have "conn_list (heap ?st) (pc_next c) zs" using c(4) a by (simp add: eff conn_list_frame)
    moreover have "\<exists>z \<in> set zs. \<not> thread_returned ?st (snd z)"
      using Cons.prems(2) True z by (auto simp: thread_returned_def eff)
    ultimately have "exit_join_loop ?st (pc_next c) = None" by (rule Cons.IH)
    with c t show ?thesis by (subst exit_join_loop.simps) (simp add: pthread_join_now)
  qed
qed

lemma exit_close_ok:
  assumes "p2p_ok st xs"
  obtains st1 where "exit_close st = Some st1" "p2p_ok st1 (all_inactive xs)" "\<not> running st1"
    "trace st1 = trace st @ [Lock Print_mutex, Out (Cmd M_exiting), Unlock Print_mutex] @
       (if server_sock st \<ge> 0 then [Sock_close (server_sock st)] else []) @
       [Lock Conn_mutex] @ hang_events xs @ [Unlock Conn_mutex]"
    "listener_done st1 = listener_done st" "finished st1 = finished st"
proof -
  let ?s1 = "(safe_printf (Cmd M_exiting) st)\<lparr>running := False\<rparr>"
  let ?s2 = "if server_sock ?s1 \<ge> 0 then emit (Sock_close (server_sock ?s1)) ?s1 else ?s1"
  let ?s3 = "emit (Lock Conn_mutex) ?s2"
  have ok: "p2p_ok ?s3 ([] @ xs)" using assms by (simp add: p2p_ok_def conns_def eff)
  then have "conn_list (heap ?s3) (conn_head ?s3) xs" by (simp add: p2p_ok_def conns_def)
  from exit_close_loop_ok [OF ok this] obtain st' where
    "exit_close_loop ?s3 (conn_head ?s3) = Some st'" "p2p_ok st' (all_inactive xs)"
    "trace st' = trace ?s3 @ hang_events xs" "globals st' = globals ?s3"
    "listener_done st' = listener_done ?s3" "finished st' = finished ?s3" by auto
  then show ?thesis
    by (intro that [of "emit (Unlock Conn_mutex) st'"])
      (auto simp: exit_close_def Let_def eff globals_def)
qed

end
