(* ===== verification/Chat_Main.thy ===== *)
theory Chat_Main
  imports Command_Props
begin

text \<open>
  \<open>app/main_p2pchat.c\<close> and \<open>get_local_ip\<close> of \<open>src/utils.c\<close>: the start-up of the chat program, the parsing
  of a command line and the loop that reads commands until \<open>exit\<close> or the end of the input. One line is
  one call of \<open>main_line\<close>; what the system calls return and what the other threads do in each round is
  the round's environment.
\<close>

section \<open>get_local_ip\<close>

text \<open>
  The results of \<open>socket\<close> and \<open>getsockname\<close> (\<open>None\<close>: it failed); the result of \<open>connect\<close> is not looked
  at. The second component of the result is the address text, or \<open>None\<close> for the return value -1.
\<close>

record local_env =
  le_socket :: int
  le_getsockname :: "sockaddr_in option"

definition get_local_ip :: "local_env \<Rightarrow> p2p \<Rightarrow> string option \<times> p2p" where
  "get_local_ip e st =
     (if le_socket e < 0 then (None, st)
      else case le_getsockname e of
        None \<Rightarrow> (None, emit (Sock_close (le_socket e)) st)
      | Some name \<Rightarrow>
          (Some (inet_ntop (sin_addr name)), emit (Sock_close (le_socket e)) st))"

section \<open>Start-up\<close>

text \<open>
  The results of the system calls of \<open>main\<close>. \<open>setsockopt\<close> is called and its result ignored; \<open>bind\<close>
  gets the address \<open>main\<close> has filled in.
\<close>

record main_env =
  me_local :: local_env
  me_socket :: int
  me_bind :: "sockaddr_in \<Rightarrow> int"
  me_listen :: int
  me_create_ok :: bool

definition any_addr :: in_addr where
  "any_addr = In_addr 0 0 0 0"

definition serv_addr :: "int32 \<Rightarrow> sockaddr_in" where
  "serv_addr port = \<lparr>sin_port = htons (ucast port), sin_addr = any_addr\<rparr>"

text \<open>\<open>False\<close>: the program has called \<open>exit (EXIT_FAILURE)\<close>.\<close>

definition main_start :: "main_env \<Rightarrow> string list \<Rightarrow> p2p \<Rightarrow> bool \<times> p2p" where
  "main_start e argv st =
     (if length argv \<noteq> 2 then (False, printf (Main M_usage) st)
      else (let st1 = st\<lparr>listen_port := atoi (argv ! 1)\<rparr> in
        if sint (listen_port st1) \<le> 0 \<or> sint (listen_port st1) > 65535
        then (False, printf (Main M_bad_port) st1)
        else (let (ip, st2) = get_local_ip (me_local e) st1;
                  st3 = st2\<lparr>local_ip := (case ip of None \<Rightarrow> ''127.0.0.1'' | Some s \<Rightarrow> s)\<rparr>;
                  st4 = printf (Main (M_local_ip (local_ip st3) (listen_port st3))) st3;
                  st5 = st4\<lparr>server_sock := me_socket e\<rparr> in
          if server_sock st5 < 0 then (False, printf (Main (M_perror ''socket'')) st5)
          else if me_bind e (serv_addr (listen_port st5)) < 0
          then (False, printf (Main (M_perror ''bind'')) st5)
          else if me_listen e < 0 then (False, printf (Main (M_perror ''listen'')) st5)
          else if \<not> me_create_ok e then (False, printf (Main (M_perror ''pthread_create'')) st5)
          else (True, cmd_help (st5\<lparr>listener_thread_id := Some (next_tid st5),
                                    next_tid := Suc (next_tid st5)\<rparr>)))))"

section \<open>One command line\<close>

text \<open>
  The environment of a round: what the other threads do while \<open>fgets\<close> waits, in the windows of
  \<open>reap_connections\<close>, of the \<open>reap_connections\<close> inside \<open>list\<close> and while a command joins, and the results of
  the system calls.
\<close>

record round_env =
  re_idle :: "env_act list"
  re_reap :: "env_act list list"
  re_list :: "env_act list list"
  re_join :: "env_act list"
  re_connect :: connect_env
  re_sent :: int
  re_errno :: int

text \<open>The line \<open>fgets\<close> has stored, as a C string without its newline.\<close>

definition chomp :: "string \<Rightarrow> string" where
  "chomp buf = cut_at (strcspn (c_str buf) [newline]) (c_str buf)"

datatype command =
    C_nothing
  | C_help
  | C_myip
  | C_myport
  | C_connect_usage
  | C_connect string string
  | C_list
  | C_terminate_usage
  | C_send_usage
  | C_invalid_id
  | C_terminate int32
  | C_send int32 string
  | C_exit
  | C_unknown

text \<open>The \<open>strtok\<close> calls and the chain of \<open>strcmp\<close>: which command a line is.\<close>

definition parse_line :: "string \<Rightarrow> command" where
  "parse_line line =
     (case strtok '' '' line of
        (None, _) \<Rightarrow> C_nothing
      | (Some cmd, rest) \<Rightarrow>
          if cmd = ''help'' then C_help
          else if cmd = ''myip'' then C_myip
          else if cmd = ''myport'' then C_myport
          else if cmd = ''connect'' then
            (let (ip, rest1) = strtok '' '' rest; (port, rest2) = strtok '' '' rest1 in
             case (ip, port) of (Some i, Some p) \<Rightarrow> C_connect i p | _ \<Rightarrow> C_connect_usage)
          else if cmd = ''list'' then C_list
          else if cmd = ''terminate'' then
            (case strtok '' '' rest of
               (None, _) \<Rightarrow> C_terminate_usage
             | (Some idstr, _) \<Rightarrow>
                 if sint (atoi idstr) \<le> 0 then C_invalid_id else C_terminate (atoi idstr))
          else if cmd = ''send'' then
            (let (idstr, rest1) = strtok '' '' rest; (msg, rest2) = strtok '''' rest1 in
             case (idstr, msg) of
               (Some i, Some m) \<Rightarrow>
                 if sint (atoi i) \<le> 0 then C_invalid_id else C_send (atoi i) m
             | _ \<Rightarrow> C_send_usage)
          else if cmd = ''exit'' then C_exit
          else C_unknown)"

text \<open>The call the command makes; \<open>True\<close>: \<open>main\<close> returns.\<close>

definition run_command :: "round_env \<Rightarrow> command \<Rightarrow> p2p \<Rightarrow> (bool \<times> p2p) option" where
  "run_command e c st =
     (case c of
        C_nothing \<Rightarrow> Some (False, st)
      | C_help \<Rightarrow> Some (False, cmd_help st)
      | C_myip \<Rightarrow> Some (False, printf (Main (M_myip (local_ip st))) st)
      | C_myport \<Rightarrow> Some (False, printf (Main (M_myport (listen_port st))) st)
      | C_connect_usage \<Rightarrow> Some (False, printf (Main M_usage_connect) st)
      | C_connect ip port \<Rightarrow>
          map_option (Pair False) (cmd_connect (re_connect e) (Some ip) (Some port) st)
      | C_list \<Rightarrow> map_option (Pair False) (cmd_list (re_list e) st)
      | C_terminate_usage \<Rightarrow> Some (False, printf (Main M_usage_terminate) st)
      | C_send_usage \<Rightarrow> Some (False, printf (Main M_usage_send) st)
      | C_invalid_id \<Rightarrow> Some (False, printf (Main M_invalid_id) st)
      | C_terminate i \<Rightarrow> map_option (Pair False) (cmd_terminate (re_join e) i st)
      | C_send i m \<Rightarrow> map_option (Pair False) (cmd_send (re_sent e) (re_errno e) i m st)
      | C_exit \<Rightarrow>
          map_option (\<lambda>st'. (True, printf (Main M_goodbye) st')) (cmd_exit (re_join e) st)
      | C_unknown \<Rightarrow> Some (False, printf (Main M_unknown) st))"

definition main_line :: "round_env \<Rightarrow> string \<Rightarrow> p2p \<Rightarrow> (bool \<times> p2p) option" where
  "main_line e buf st =
     (let line = chomp buf in
      if line = [] then Some (False, st)
      else Option.bind (reap_connections (re_reap e) st) (run_command e (parse_line line)))"

section \<open>The loop\<close>

text \<open>
  \<open>line\<close> is a buffer of 512 bytes. The loop ends at the end of the input (\<open>False\<close>: the connections are
  left as they are) or after \<open>exit\<close>. Each round reads at least one byte, so the recursion ends;
  \<open>None\<close> is a command that does not come back.
\<close>

definition LINE_SIZE :: nat where
  "LINE_SIZE = 512"

function main_loop :: "(nat \<Rightarrow> round_env) \<Rightarrow> nat \<Rightarrow> string \<Rightarrow> p2p \<Rightarrow> (bool \<times> p2p) option" where
  "main_loop env k inp st =
     (if \<not> running st then Some (True, st)
      else Option.bind (env_run (re_idle (env k)) (printf (Main M_prompt) st)) (\<lambda>st1.
        case fgets LINE_SIZE inp of
          None \<Rightarrow> Some (False, st1)
        | Some (buf, rest) \<Rightarrow>
            (case main_line (env k) buf st1 of
               None \<Rightarrow> None
             | Some (quit, st2) \<Rightarrow>
                 if quit then Some (True, st2) else main_loop env (Suc k) rest st2)))"
  by pat_completeness auto
termination
  by (relation "measure (\<lambda>(env, k, inp, st). length inp)")
    (auto intro: fgets_shrinks [of LINE_SIZE] simp: LINE_SIZE_def)

declare main_loop.simps [simp del]

text \<open>The whole program and its exit code: \<open>EXIT_FAILURE\<close> is 1, both ends of the loop return 0.\<close>

definition main_chat ::
  "main_env \<Rightarrow> (nat \<Rightarrow> round_env) \<Rightarrow> string list \<Rightarrow> string \<Rightarrow> (int \<times> p2p) option" where
  "main_chat e env argv inp =
     (let (ok, st) = main_start e argv initial_p2p in
      if ok then map_option (\<lambda>(q, st'). (0, st')) (main_loop env 0 inp st) else Some (1, st))"

end
