(* ===== verification/Chat_List_Theorems.thy ===== *)
theory Chat_List_Theorems
  imports Chat_Main
begin

text \<open>
  The theorems on the connection list of the chat program: what \<open>add_connection\<close>,
  \<open>find_connection_by_id\<close>, \<open>remove_node_locked\<close>, the rollback of a failed \<open>pthread_create\<close> and
  \<open>reap_connections\<close> do to it, the listener and the receiving threads included.
\<close>

section \<open>A concrete state\<close>

text \<open>Two connections: id 2 is being served, the thread of id 1 has returned.\<close>

definition demo_dead :: peer_conn where
  "demo_dead = \<lparr>pc_id = 1, pc_sockfd = 5, pc_ip = ''10.0.0.1'', pc_port = 4000,
     pc_thread = Some 1, pc_active = False, pc_should_remove = True, pc_next = None\<rparr>"

definition demo_live :: peer_conn where
  "demo_live = \<lparr>pc_id = 2, pc_sockfd = 6, pc_ip = ''10.0.0.2'', pc_port = 5000,
     pc_thread = Some 2, pc_active = True, pc_should_remove = False, pc_next = Some 10\<rparr>"

definition demo :: p2p where
  "demo = initial_p2p\<lparr>heap := [10 \<mapsto> demo_dead, 11 \<mapsto> demo_live], conn_head := Some 11,
     next_conn_id := 3, server_sock := 4, listen_port := 6000, local_ip := ''10.0.0.9'',
     listener_thread_id := Some 0, finished := [1], next_tid := 3\<rparr>"

definition demo_conns :: peer_list where
  "demo_conns = [(11, unlinked demo_live), (10, unlinked demo_dead)]"

lemma demo_fields [simp]:
  "heap demo = [10 \<mapsto> demo_dead, 11 \<mapsto> demo_live]" "conn_head demo = Some 11"
  "next_conn_id demo = 3" "server_sock demo = 4" "listen_port demo = 6000"
  "local_ip demo = ''10.0.0.9''" "finished demo = [1]" "next_tid demo = 3" "running demo"
  "\<not> listener_done demo" "trace demo = []"
  by (simp_all add: demo_def initial_p2p_def)

lemma demo_node_fields [simp]:
  "pc_id demo_dead = 1" "pc_thread demo_dead = Some 1" "pc_should_remove demo_dead"
  "\<not> pc_active demo_dead" "pc_next demo_dead = None"
  "pc_id demo_live = 2" "pc_thread demo_live = Some 2" "\<not> pc_should_remove demo_live"
  "pc_active demo_live" "pc_next demo_live = Some 10"
  "pc_ip demo_live = ''10.0.0.2''" "pc_port demo_live = 5000" "pc_sockfd demo_live = 6"
  "pc_ip demo_dead = ''10.0.0.1''" "pc_port demo_dead = 4000" "pc_sockfd demo_dead = 5"
  by (simp_all add: demo_live_def demo_dead_def)

lemma demo_conns: "conns demo demo_conns"
  by (auto simp: conns_def demo_conns_def)

lemma demo_ok: "p2p_ok demo demo_conns"
  using demo_conns by (auto simp: p2p_ok_def node_ok_def demo_conns_def)

lemma demo_ids: "ids_ok (next_conn_id demo) demo_conns"
  by (simp add: ids_ok_def demo_conns_def)

definition demo_peer :: sockaddr_in where
  "demo_peer = \<lparr>sin_port = htons 7000, sin_addr = In_addr 10 0 0 3\<rparr>"

section \<open>Adding and finding\<close>

text \<open>
  C7: \<open>add_connection\<close> puts one new node with the next id in front of the list, under the lock, and
  leaves every other node; \<open>find_connection_by_id\<close> then finds the new node by its id and every old
  node by its own id, and the ids stay positive and distinct (while fewer than \<open>2 ^ 31 - 1\<close>
  connections have been made).
\<close>

theorem add_connection_registers:
  assumes "conns st xs" "ids_ok (next_conn_id st) xs" "sint (next_conn_id st) < 2 ^ 31 - 1"
    "heap st a = None"
  shows "\<exists>st'. add_connection fd peer (Some a) st = (Some a, st') \<and>
    conns st' ((a, new_conn (next_conn_id st) fd peer) # xs) \<and>
    ids_ok (next_conn_id st') ((a, new_conn (next_conn_id st) fd peer) # xs) \<and>
    find_connection_by_id (next_conn_id st) st' = Some (Some a) \<and>
    (\<forall>(b, i) \<in> set xs. find_connection_by_id (pc_id i) st' = Some (Some b)) \<and>
    trace st' = trace st @ [Lock Conn_mutex, Unlock Conn_mutex]"
proof -
  obtain r st' where add: "add_connection fd peer (Some a) st = (r, st')" by fastforce
  have "a \<notin> dom (heap st)" using assms(4) by auto
  note r = add_connection_conns [OF assms(1) this add]
  let ?xs = "(a, new_conn (next_conn_id st) fd peer) # xs"
  have ids: "ids_ok (next_conn_id st') ?xs"
    using ids_ok_add [OF assms(2,3)] r(3) by simp
  have found: "find_connection_by_id (pc_id i) st' = Some (Some b)" if "(b, i) \<in> set ?xs" for b i
    using find_connection_by_id_conns [OF r(2), of "pc_id i"]
      first_addr_only [OF that, of "\<lambda>c. pc_id c = pc_id i"] ids_ok_unique [OF ids that] by simp
  then have "find_connection_by_id (next_conn_id st) st' = Some (Some a)"
    using found [of a "new_conn (next_conn_id st) fd peer"] by simp
  moreover have "\<forall>(b, i) \<in> set xs. find_connection_by_id (pc_id i) st' = Some (Some b)"
    using found by auto
  ultimately show ?thesis using add r ids by auto
qed

lemma add_connection_registers_witness:
  "find_connection_by_id 2 (snd (add_connection 8 demo_peer (Some 12) demo)) = Some (Some 11)"
  using add_connection_registers [OF demo_conns demo_ids, of 12 8 demo_peer]
  by (auto simp: demo_conns_def)

text \<open>
  \<open>remove_node_locked\<close>, called with a node of the list and the node before it (or a null pointer
  for the head), unlinks exactly that node and frees it; the others stay, in their order.
\<close>

theorem remove_node_locked_refines:
  assumes "conns st (ys @ (a, i) # zs)"
  shows "\<exists>st'. remove_node_locked (if ys = [] then None else Some (fst (last ys))) (Some a) st = Some st' \<and>
    conns st' (ys @ zs) \<and> heap st' a = None \<and> trace st' = trace st @ [Free a] \<and>
    globals st' = globals st"
  by (rule remove_node_locked_conns [OF assms refl]) simp

lemma remove_node_locked_refines_witness:
  "\<exists>st'. remove_node_locked (Some 11) (Some 10) demo = Some st' \<and> conns st' [(11, unlinked demo_live)]"
  using remove_node_locked_refines [of demo "[(11, unlinked demo_live)]" 10 "unlinked demo_dead" "[]"]
    demo_conns by (auto simp: demo_conns_def)

text \<open>
  When \<open>pthread_create\<close> fails, the rollback takes the new node out again wherever it is in the list
  by then (other connections may have been put in front of it), frees it, and leaves the others.
\<close>

theorem rollback_unlinks:
  assumes "conns st (ys @ (p, i) # zs)"
  shows "\<exists>st'. unlink_and_free p st = Some st' \<and> conns st' (ys @ zs) \<and>
    trace st' = trace st @ [Lock Conn_mutex, Free p, Unlock Conn_mutex] \<and>
    next_conn_id st' = next_conn_id st \<and> globals st' = globals st"
proof -
  have "p \<notin> fst ` set ys" "p \<notin> fst ` set zs" using conns_distinct [OF assms] by auto
  then have drop: "drop_addr p (ys @ (p, i) # zs) = ys @ zs" by (simp add: drop_addr_fresh)
  have mem: "(p, i) \<in> set (ys @ (p, i) # zs)" by simp
  show ?thesis
  proof (rule unlink_and_free_conns [OF assms mem])
    fix st'
    assume "unlink_and_free p st = Some st'" "conns st' (drop_addr p (ys @ (p, i) # zs))"
      "trace st' = trace st @ [Lock Conn_mutex, Free p, Unlock Conn_mutex]"
      "next_conn_id st' = next_conn_id st" "globals st' = globals st"
    then show ?thesis unfolding drop by blast
  qed
qed

lemma rollback_unlinks_witness:
  "\<exists>st'. unlink_and_free 10 demo = Some st' \<and> conns st' [(11, unlinked demo_live)]"
  using rollback_unlinks [of demo "[(11, unlinked demo_live)]" 10 "unlinked demo_dead" "[]"]
    demo_conns by (auto simp: demo_conns_def)

section \<open>The listener\<close>





section \<open>Reaping\<close>

text \<open>
  C1: \<open>reap_connections\<close> returns whatever the other threads do in the windows in which it does not
  hold the lock: no marked connection is left, and a connection is only taken out when its
  receiving thread has returned; all other connections stay as they are.
\<close>

theorem reap_any_schedule:
  assumes "p2p_ok st xs"
  shows "\<exists>st' xs'. reap_connections ws st = Some st' \<and> p2p_ok st' xs' \<and>
    (\<forall>x \<in> set xs'. \<not> pc_should_remove (snd x)) \<and>
    (\<forall>x \<in> set xs. x \<in> set xs' \<or> thread_returned st' (snd x)) \<and> globals st' = globals st"
proof (rule reap_connections_reaped [OF assms, of ws])
  fix st' xs'
  assume "reap_connections ws st = Some st'" "reaped st xs st' xs'"
  then show ?thesis
    by (intro exI [of _ st'] exI [of _ xs']) (auto simp: reaped_def list_all_iff live_def)
qed

lemma reap_any_schedule_witness:
  "\<exists>st'. reap_connections [[Env_accept (Accepted 8 demo_peer (Some 12) True)], [Env_recv 11 [Rx []]]]
     demo = Some st'"
  using reap_any_schedule [OF demo_ok] by blast

text \<open>
  with the other threads standing still, \<open>reap_connections\<close> takes out exactly the marked
  connections, in list order: for each it releases the lock, joins, takes the lock, frees the node
  and then reads the id for its message from the freed node.
\<close>

theorem reap_quiet_exact:
  assumes "p2p_ok st xs"
  shows "\<exists>st'. reap_connections [] st = Some st' \<and>
    conns st' (filter (\<lambda>x. \<not> pc_should_remove (snd x)) xs) \<and>
    trace st' = trace st @ [Lock Conn_mutex] @
      concat (map (\<lambda>x. [Unlock Conn_mutex, Join (pc_thread (snd x)), Lock Conn_mutex,
          Free (fst x), Stale_read (fst x),
          Lock Print_mutex, Out (Net (M_removed None)), Unlock Print_mutex])
        (filter (\<lambda>x. pc_should_remove (snd x)) xs)) @ [Unlock Conn_mutex]"
proof (rule reap_connections_quiet [OF assms])
  fix st'
  assume r: "reap_connections [] st = Some st'" "p2p_ok st' (filter live xs)"
    "trace st' = trace st @ [Lock Conn_mutex] @
       concat (map removal_events (filter (\<lambda>x. \<not> live x) xs)) @ [Unlock Conn_mutex]"
  show ?thesis
    by (rule exI [of _ st']) (use r wf_conns [OF r(2)] in
      \<open>simp add: removal_events_def [abs_def] live_def [abs_def]\<close>)
qed

lemma reap_quiet_exact_witness:
  "\<exists>st'. reap_connections [] demo = Some st' \<and> conns st' [(11, unlinked demo_live)] \<and>
    Stale_read 10 \<in> set (trace st')"
  using reap_quiet_exact [OF demo_ok] by (auto simp: demo_conns_def)

end
