(* ===== verification/Chat_Connect_Theorems.thy ===== *)
theory Chat_Connect_Theorems
  imports Chat_List_Theorems
begin

text \<open>
  The theorems on IPv4 addresses and on \<open>connect\<close>: which address strings are accepted, what every check
  refuses, what a successful connection adds and what a failing one leaves behind.
\<close>

section \<open>Addresses\<close>

text \<open>
  \<open>is_valid_ipv4\<close> accepts exactly the strings \<open>inet_ntop\<close> writes; parsing such a string and printing
  an address are inverse, two addresses are equal when their strings are (so the duplicate check,
  which compares strings, compares addresses), and every address with its NUL fits the 16 bytes of
  \<open>char ip[INET_ADDRSTRLEN]\<close>.
\<close>

theorem ipv4_text_roundtrip:
  "(is_valid_ipv4 (Some s) \<longleftrightarrow> (\<exists>a. s = inet_ntop a)) \<and> \<not> is_valid_ipv4 None \<and>
   inet_pton (inet_ntop a) = Some a \<and> (inet_pton s = Some a \<longleftrightarrow> s = inet_ntop a) \<and>
   (inet_ntop a = inet_ntop b \<longleftrightarrow> a = b) \<and> length (inet_ntop a) < 16"
  using is_valid_ipv4_iff inet_pton_iff inet_ntop_fits by (simp add: is_valid_ipv4_def)

section \<open>connect\<close>

text \<open>
  \<open>cmd_connect\<close> with a malformed address, a port that is not a number from 1 to 65535 (an empty
  string and trailing characters included), or the program's own address and port prints the
  matching error and does nothing else: no lock is taken, no socket made.
\<close>

theorem connect_refuses_bad_input:
  "(\<not> is_valid_ipv4 ip \<longrightarrow>
      cmd_connect e ip ps st = Some (safe_printf (Link (M_invalid_ip ip)) st)) \<and>
   (is_valid_ipv4 (Some i) \<and> (p = [] \<or> snd (strtol p) \<noteq> [] \<or> fst (strtol p) \<notin> {1..65535}) \<longrightarrow>
      cmd_connect e (Some i) (Some p) st = Some (safe_printf (Link (M_invalid_port (Some p))) st)) \<and>
   (is_valid_ipv4 (Some i) \<and> p \<noteq> [] \<and> snd (strtol p) = [] \<and> fst (strtol p) \<in> {1..65535} \<and>
      i \<in> {local_ip st, ''127.0.0.1''} \<and> fst (strtol p) = sint (listen_port st) \<longrightarrow>
      cmd_connect e (Some i) (Some p) st = Some (safe_printf (Link M_self_connect) st))"
  by (auto simp: cmd_connect_def Let_def split: prod.splits)

lemma local_valid: "is_valid_ipv4 (Some ''10.0.0.9'')" "is_valid_ipv4 (Some ''10.0.0.2'')"
  by code_simp+

lemma strtol_6000: "strtol ''6000'' = (6000, [])" "strtol ''5000'' = (5000, [])"
  by code_simp+

definition demo_env :: connect_env where
  "demo_env = \<lparr>ce_sock = 7, ce_connect = 0, ce_errno = 0,
     ce_malloc = (\<lambda>h. if h 12 = None then Some 12 else None),
     ce_create_ok = True, ce_window = [], ce_window2 = []\<rparr>"

lemma connect_refuses_bad_input_witness:
  "cmd_connect demo_env (Some ''10.0.0.9'') (Some ''6000'') demo =
     Some (safe_printf (Link M_self_connect) demo)"
  using connect_refuses_bad_input [of None demo_env None demo "''10.0.0.9''" "''6000''"]
    local_valid strtol_6000 by simp

text \<open>
  A well-formed address and port to which there is an active connection already is refused: the
  list does not change, nothing but locks and the message happens, and the message names the
  existing connection.
\<close>

theorem connect_refuses_duplicate:
  assumes "p2p_ok st xs" "connectable ip ps port st" "(a, i) \<in> set xs" "same_peer ip port i"
  shows "\<exists>b st'. cmd_connect e (Some ip) (Some ps) st = Some st' \<and> conns st' xs \<and>
    b \<in> snd ` set xs \<and> same_peer ip port b \<and>
    trace st' = trace st @ [Lock Conn_mutex, Unlock Conn_mutex, Lock Print_mutex,
       Out (Link (M_duplicate ip port (pc_id b))), Unlock Print_mutex]"
proof (rule cmd_connect_duplicate [OF assms, of e])
  fix b st'
  assume "cmd_connect e (Some ip) (Some ps) st = Some st'" "p2p_ok st' xs" "b \<in> snd ` set xs"
    "same_peer ip port b"
    "trace st' = trace st @ [Lock Conn_mutex, Unlock Conn_mutex, Lock Print_mutex,
       Out (Link (M_duplicate ip port (pc_id b))), Unlock Print_mutex]"
  then show ?thesis using wf_conns by blast
qed

lemma connectable_demo: "connectable ''10.0.0.2'' ''5000'' 5000 demo"
  using local_valid strtol_6000 by (simp add: connectable_def)

lemma connect_refuses_duplicate_witness:
  "\<exists>st'. cmd_connect demo_env (Some ''10.0.0.2'') (Some ''5000'') demo = Some st' \<and> conns st' demo_conns"
  using connect_refuses_duplicate [OF demo_ok connectable_demo, of 11 "unlinked demo_live" demo_env]
  by (auto simp: demo_conns_def same_peer_def)

text \<open>
  C8: a connection that succeeds (\<open>socket\<close>, \<open>connect\<close>, \<open>malloc\<close> and \<open>pthread_create\<close> do), whatever the other
  threads do while \<open>connect\<close> waits and between \<open>add_connection\<close> and \<open>pthread_create\<close>, is put in front of the list of
  the moment, with the address and the port the user typed, the new socket and the next id, active and not to
  be removed, and gets an unused thread; in front of it are in the end only connections accepted after it was added.
\<close>

theorem connect_adds_peer:
  assumes ok: "p2p_ok st xs" and c: "connectable ip ps port st"
    and new: "\<forall>x \<in> set xs. \<not> same_peer ip port (snd x)"
    and sys: "0 \<le> ce_sock e" "0 \<le> ce_connect e" "ce_create_ok e"
    and run: "env_run (ce_window e) (emit (Unlock Conn_mutex) (emit (Lock Conn_mutex) st)) = Some st1"
    and m: "malloc_fresh (ce_malloc e)" "ce_malloc e (heap st1) = Some p"
  shows "\<exists>st' xs1 peer st2 st3 ys i zs. cmd_connect e (Some ip) (Some ps) st = Some st' \<and>
    evolves (emit (Unlock Conn_mutex) (emit (Lock Conn_mutex) st)) xs st1 xs1 \<and>
    add_connection (ce_sock e) peer (Some p) st1 = (Some p, st2) \<and> next_conn_id st2 = next_conn_id st1 + 1 \<and>
    env_run (ce_window2 e) st2 = Some st3 \<and> next_conn_id st' = next_conn_id st3 \<and>
    p2p_ok st' (ys @ (p, i) # zs) \<and> list_all2 aged xs1 zs \<and> (ce_window2 e = [] \<longrightarrow> ys = [] \<and> zs = xs1) \<and>
    pc_ip i = ip \<and> pc_port i = port \<and> pc_sockfd i = ce_sock e \<and>
    pc_id i = next_conn_id st1 \<and> pc_active i \<and> \<not> pc_should_remove i"
proof -
  let ?st = "emit (Unlock Conn_mutex) (emit (Lock Conn_mutex) st)"
  obtain addr where addr: "ip = inet_ntop addr" using c is_valid_ipv4_iff by (auto simp: connectable_def)
  have port: "0 < port" "port \<le> 65535" using c by (simp_all add: connectable_def)
  have ok': "p2p_ok ?st xs" using ok by simp
  have "first_addr (same_peer ip port) xs = None" using new by (simp add: first_addr_None)
  then have eq: "cmd_connect e (Some ip) (Some ps) st = connect_new e ip port ?st"
    using cmd_connect_checked [OF ok c] by simp
  let ?peer = "\<lparr>sin_port = htons (word_of_int port), sin_addr = addr\<rparr>"
  show ?thesis
  proof (rule connect_new_success [OF ok' addr port sys run m refl])
    fix st' xs1 st2 st3 ys zs t
    assume r: "connect_new e ip port ?st = Some st'" "evolves ?st xs st1 xs1"
      "add_connection (ce_sock e) ?peer (Some p) st1 = (Some p, st2)" "next_conn_id st2 = next_conn_id st1 + 1"
      "env_run (ce_window2 e) st2 = Some st3" "next_conn_id st' = next_conn_id st3"
      "p2p_ok st' (ys @ (p, new_served (next_conn_id st1) (ce_sock e) ?peer t) # zs)" "list_all2 aged xs1 zs"
      "ce_window2 e = [] \<Longrightarrow> ys = [] \<and> zs = xs1"
    show ?thesis unfolding eq
      by (rule exI [of _ st'], rule exI [of _ xs1], rule exI [of _ ?peer], rule exI [of _ st2], rule exI [of _ st3],
          rule exI [of _ ys], rule exI [of _ "new_served (next_conn_id st1) (ce_sock e) ?peer t"], rule exI [of _ zs])
        (use r port_roundtrip [OF port] addr in simp)
  qed
qed

lemma demo_env_fields [simp]:
  "ce_sock demo_env = 7" "ce_connect demo_env = 0" "ce_create_ok demo_env"
  "ce_window demo_env = []" "ce_window2 demo_env = []" "malloc_fresh (ce_malloc demo_env)"
  "ce_malloc demo_env (heap (emit e1 (emit e2 demo))) = Some 12"
  by (auto simp: demo_env_def malloc_fresh_def eff)

lemma connectable_new_demo: "connectable ''10.0.0.2'' ''6000'' 6000 demo"
  using local_valid strtol_6000 by (simp add: connectable_def)

lemma connect_adds_peer_witness:
  "\<exists>st'. cmd_connect demo_env (Some ''10.0.0.2'') (Some ''6000'') demo = Some st'"
  using connect_adds_peer [OF demo_ok connectable_new_demo, of demo_env
      "emit (Unlock Conn_mutex) (emit (Lock Conn_mutex) demo)" 12]
  by (auto simp: demo_conns_def same_peer_def)

text \<open>
  C37: a connection that fails in \<open>connect\<close>, in \<open>malloc\<close> or in \<open>pthread_create\<close> closes its socket and leaves the list
  as the other threads have made it meanwhile, with no half-made node in it. When \<open>pthread_create\<close> fails the node has
  been in the list already, and the other threads may have put connections in front of it and ended others
  (\<open>ce_window2\<close>): the rollback takes out exactly this node, wherever it is, and frees it.
\<close>

theorem connect_failure_leaves_no_trace:
  assumes ok: "p2p_ok st xs" and c: "connectable ip ps port st"
    and new: "\<forall>x \<in> set xs. \<not> same_peer ip port (snd x)"
    and sock: "0 \<le> ce_sock e" and m: "malloc_fresh (ce_malloc e)"
    and run: "env_run (ce_window e) (emit (Unlock Conn_mutex) (emit (Lock Conn_mutex) st)) = Some st1"
  shows "(ce_connect e < 0 \<or> ce_malloc e (heap st1) = None \<longrightarrow>
      (\<exists>st' xs1 es. cmd_connect e (Some ip) (Some ps) st = Some st' \<and>
         evolves (emit (Unlock Conn_mutex) (emit (Lock Conn_mutex) st)) xs st1 xs1 \<and>
         p2p_ok st' xs1 \<and> trace st' = trace st1 @ es \<and> Sock_close (ce_sock e) \<in> set es)) \<and>
    (0 \<le> ce_connect e \<and> ce_malloc e (heap st1) = Some p \<and> \<not> ce_create_ok e \<longrightarrow>
      (\<exists>st' xs1 peer st2 st3 ys n zs es. cmd_connect e (Some ip) (Some ps) st = Some st' \<and>
         evolves (emit (Unlock Conn_mutex) (emit (Lock Conn_mutex) st)) xs st1 xs1 \<and>
         add_connection (ce_sock e) peer (Some p) st1 = (Some p, st2) \<and> env_run (ce_window2 e) st2 = Some st3 \<and>
         conns st3 (ys @ (p, n) # zs) \<and> list_all2 aged xs1 zs \<and>
         p2p_ok st' (ys @ zs) \<and> heap st' p = None \<and> trace st' = trace st3 @ es \<and> Sock_close (ce_sock e) \<in> set es))"
proof -
  let ?st = "emit (Unlock Conn_mutex) (emit (Lock Conn_mutex) st)"
  obtain addr where addr: "ip = inet_ntop addr" using c is_valid_ipv4_iff by (auto simp: connectable_def)
  have ok': "p2p_ok ?st xs" using ok by simp
  have "first_addr (same_peer ip port) xs = None" using new by (simp add: first_addr_None)
  then have eq: "cmd_connect e (Some ip) (Some ps) st = connect_new e ip port ?st"
    using cmd_connect_checked [OF ok c] by simp
  show ?thesis unfolding eq
  proof (intro conjI impI)
    assume "ce_connect e < 0 \<or> ce_malloc e (heap st1) = None"
    then show "\<exists>st' xs1 es. connect_new e ip port ?st = Some st' \<and> evolves ?st xs st1 xs1 \<and> p2p_ok st' xs1 \<and>
        trace st' = trace st1 @ es \<and> Sock_close (ce_sock e) \<in> set es"
      by (rule connect_new_failure [OF ok' addr sock run, of port]) blast
  next
    assume "0 \<le> ce_connect e \<and> ce_malloc e (heap st1) = Some p \<and> \<not> ce_create_ok e"
    then have f: "\<not> ce_connect e < 0" "ce_malloc e (heap st1) = Some p" "\<not> ce_create_ok e" by simp_all
    show "\<exists>st' xs1 peer st2 st3 ys n zs es. connect_new e ip port ?st = Some st' \<and> evolves ?st xs st1 xs1 \<and>
         add_connection (ce_sock e) peer (Some p) st1 = (Some p, st2) \<and> env_run (ce_window2 e) st2 = Some st3 \<and>
         conns st3 (ys @ (p, n) # zs) \<and> list_all2 aged xs1 zs \<and>
         p2p_ok st' (ys @ zs) \<and> heap st' p = None \<and> trace st' = trace st3 @ es \<and> Sock_close (ce_sock e) \<in> set es"
      by (rule connect_new_rollback [OF ok' addr sock run f m refl, of port]) blast
  qed
qed

text \<open>While the thread of node 12 is being created, the listener puts node 13 in front of it.\<close>

lemma connect_failure_leaves_no_trace_witness:
  "\<exists>st' ys zs. cmd_connect (demo_env\<lparr>ce_create_ok := False,
       ce_window2 := [Env_accept (Accepted 8 demo_peer (Some 13) True)]\<rparr>)
     (Some ''10.0.0.2'') (Some ''6000'') demo = Some st' \<and> heap st' 12 = None \<and> p2p_ok st' (ys @ zs)"
proof -
  let ?e = "demo_env\<lparr>ce_create_ok := False, ce_window2 := [Env_accept (Accepted 8 demo_peer (Some 13) True)]\<rparr>"
  let ?st1 = "emit (Unlock Conn_mutex) (emit (Lock Conn_mutex) demo)"
  have "\<forall>x \<in> set demo_conns. \<not> same_peer ''10.0.0.2'' 6000 (snd x)" by (simp add: demo_conns_def same_peer_def)
  from connect_failure_leaves_no_trace [OF demo_ok connectable_new_demo this, of ?e ?st1 12]
  show ?thesis by auto
qed

end
