(* ===== verification/Chat_Message_Theorems.thy ===== *)
theory Chat_Message_Theorems
  imports Chat_Connect_Theorems
begin

text \<open>
  The theorems on messages: what \<open>list\<close> prints, what \<open>send\<close> sends, what the receiving thread of the
  other peer makes of it, and when it takes data for a request to disconnect.
\<close>

section \<open>list\<close>

text \<open>
  C39: \<open>cmd_list\<close> prints, under the lock, the header and one row for each active connection in list
  order, and then reaps: afterwards no connection marked for removal is left, and none is taken out
  whose thread has not returned.
\<close>

theorem list_prints_active_and_reaps:
  assumes "p2p_ok st xs"
  shows "\<exists>st1 st' xs'. cmd_list ws st = Some st' \<and> reap_connections ws st1 = Some st' \<and>
    trace st1 = trace st @ [Lock Conn_mutex, Out (Cmd M_list_header)] @
      map (\<lambda>x. Out (Cmd (M_list_row (pc_id (snd x)) (pc_ip (snd x)) (pc_port (snd x)))))
        (filter (\<lambda>x. pc_active (snd x)) xs) @ [Unlock Conn_mutex] \<and>
    p2p_ok st1 xs \<and> p2p_ok st' xs' \<and> (\<forall>x \<in> set xs'. \<not> pc_should_remove (snd x)) \<and>
    (\<forall>x \<in> set xs. x \<in> set xs' \<or> thread_returned st' (snd x))"
proof -
  let ?st0 = "printf (Cmd M_list_header) (emit (Lock Conn_mutex) st)"
  have "conn_list (heap ?st0) (conn_head ?st0) xs"
    using wf_conns [OF assms] by (simp add: conns_def eff)
  then obtain st2 where st2: "list_rows ?st0 (conn_head ?st0) = Some st2"
    "trace st2 = trace ?st0 @ rows xs" "heap st2 = heap ?st0" "conn_head st2 = conn_head ?st0"
    "finished st2 = finished ?st0" "next_tid st2 = next_tid ?st0"
    using list_rows_trace by blast
  let ?st1 = "emit (Unlock Conn_mutex) st2"
  have ok1: "p2p_ok ?st1 xs"
    using assms st2 by (simp add: p2p_ok_def conns_def eff)
  have eq: "cmd_list ws st = reap_connections ws ?st1"
    using st2(1) by (simp add: cmd_list_def Let_def)
  have tr: "trace ?st1 = trace st @ [Lock Conn_mutex, Out (Cmd M_list_header)] @
      map (\<lambda>x. Out (Cmd (M_list_row (pc_id (snd x)) (pc_ip (snd x)) (pc_port (snd x)))))
        (filter (\<lambda>x. pc_active (snd x)) xs) @ [Unlock Conn_mutex]"
    using st2(2) by (simp add: rows_def eff)
  show ?thesis
  proof (rule reap_connections_reaped [OF ok1, of ws])
    fix st' xs'
    assume "reap_connections ws ?st1 = Some st'" "reaped ?st1 xs st' xs'"
    then show ?thesis using eq tr ok1
      by (intro exI [of _ ?st1] exI [of _ st'] exI [of _ xs'])
        (simp add: reaped_def list_all_iff live_def)
  qed
qed

lemma list_prints_active_and_reaps_witness:
  "\<exists>st'. cmd_list [] demo = Some st'"
  using list_prints_active_and_reaps [OF demo_ok] by blast

section \<open>send\<close>

text \<open>
  C34: \<open>cmd_send\<close> refuses a text of more than 100 characters and an id that names no active
  connection, without sending. Otherwise it sends exactly the text on the socket of that connection,
  under the lock, prints the result, and leaves the list as it is.
\<close>

theorem send_outcome:
  assumes "p2p_ok st xs" "ids_ok n xs"
  shows "(100 < length msg \<longrightarrow> cmd_send sent err cid msg st = Some (printf (Cmd M_too_long) st)) \<and>
   (length msg \<le> 100 \<and> (\<forall>x \<in> set xs. \<not> (pc_id (snd x) = cid \<and> pc_active (snd x))) \<longrightarrow>
      cmd_send sent err cid msg st =
        Some (printf (Cmd (M_not_active cid)) (emit (Unlock Conn_mutex) (emit (Lock Conn_mutex) st)))) \<and>
   (length msg \<le> 100 \<and> (a, i) \<in> set xs \<and> pc_id i = cid \<and> pc_active i \<longrightarrow>
      (\<exists>st'. cmd_send sent err cid msg st = Some st' \<and> p2p_ok st' xs \<and>
        trace st' = trace st @ [Lock Conn_mutex, Sock_send (pc_sockfd i) msg, Unlock Conn_mutex,
          Out (Cmd (if sent < 0 then M_send_failed err
               else M_sent cid (pc_ip i) (pc_port i) msg))]))"
proof (intro conjI impI)
  assume "100 < length msg"
  then show "cmd_send sent err cid msg st = Some (printf (Cmd M_too_long) st)"
    by (simp add: cmd_send_def MAX_MSG_LEN_def)
next
  assume h: "length msg \<le> 100 \<and> (\<forall>x \<in> set xs. \<not> (pc_id (snd x) = cid \<and> pc_active (snd x)))"
  then have "first_addr (\<lambda>c. pc_id c = cid \<and> pc_active c) xs = None"
    by (simp add: first_addr_None)
  then show "cmd_send sent err cid msg st =
      Some (printf (Cmd (M_not_active cid)) (emit (Unlock Conn_mutex) (emit (Lock Conn_mutex) st)))"
    using cmd_send_cases [OF assms(1), of msg sent err cid] h by (simp add: MAX_MSG_LEN_def)
next
  assume h: "length msg \<le> 100 \<and> (a, i) \<in> set xs \<and> pc_id i = cid \<and> pc_active i"
  have f: "first_addr (\<lambda>c. pc_id c = cid \<and> pc_active c) xs = Some a"
    by (rule first_addr_only [of a i]) (use h ids_ok_unique [OF assms(2), of a i] in auto)
  obtain c where c: "heap st a = Some c" "i = unlinked c"
    using conns_mapped [OF wf_conns [OF assms(1)]] h by blast
  let ?st' = "printf (Cmd (if sent < 0 then M_send_failed err
      else M_sent cid (pc_ip c) (pc_port c) msg))
    (emit (Unlock Conn_mutex) (emit (Sock_send (pc_sockfd c) msg) (emit (Lock Conn_mutex) st)))"
  have "cmd_send sent err cid msg st = Some ?st'"
    using cmd_send_cases [OF assms(1), of msg sent err cid] h f c
    by (simp add: MAX_MSG_LEN_def Let_def)
  then show "\<exists>st'. cmd_send sent err cid msg st = Some st' \<and> p2p_ok st' xs \<and>
        trace st' = trace st @ [Lock Conn_mutex, Sock_send (pc_sockfd i) msg, Unlock Conn_mutex,
          Out (Cmd (if sent < 0 then M_send_failed err
               else M_sent cid (pc_ip i) (pc_port i) msg))]"
    by (intro exI [of _ ?st']) (use assms(1) c in \<open>simp add: eff\<close>)
qed

lemma send_outcome_witness:
  "\<exists>st'. cmd_send 5 0 2 ''hello'' demo = Some st' \<and> Sock_send 6 ''hello'' \<in> set (trace st')"
  using send_outcome [OF demo_ok demo_ids, of "''hello''" 5 0 2 11 "unlinked demo_live"]
  by (auto simp: demo_conns_def)

section \<open>Receiving\<close>

text \<open>The comparison with \<open>CMD:DISCONNECT\<close> looks at the first 14 bytes.\<close>

lemma take_c_str:
  assumes "CHR 0x00 \<notin> set d"
  shows "take (length d) (c_str s) = d \<longleftrightarrow> take (length d) s = d"
  using assms
proof (induction d arbitrary: s)
  case Nil
  then show ?case by simp
next
  case (Cons x d)
  then show ?case by (cases s) (auto simp: c_str_def)
qed

lemma strncmp_disconnect:
  "strncmp_eq (take (BUFSIZE - 1) bs) disconnect_cmd 14 \<longleftrightarrow> take 14 bs = disconnect_cmd"
proof -
  have d: "CHR 0x00 \<notin> set disconnect_cmd" "length disconnect_cmd = 14"
    by (simp_all add: disconnect_cmd_def)
  have "strncmp_eq (take (BUFSIZE - 1) bs) disconnect_cmd 14 \<longleftrightarrow>
      take 14 (c_str (take (BUFSIZE - 1) bs)) = disconnect_cmd"
    using d by (simp add: strncmp_eq_def c_str_id)
  also have "\<dots> \<longleftrightarrow> take 14 (take (BUFSIZE - 1) bs) = disconnect_cmd"
    using take_c_str [OF d(1)] d(2) by metis
  finally show ?thesis by (simp add: BUFSIZE_def min_def)
qed

text \<open>
  C35: data without a NUL in which \<open>CMD:DISCONNECT\<close> occurs nowhere is printed completely and in order,
  in pieces of at most 511 characters, and the thread goes on receiving.
\<close>

theorem received_text_is_printed:
  assumes "heap st a = Some c" "bs \<noteq> []" "CHR 0x00 \<notin> set bs"
    "\<forall>k. take 14 (drop k bs) \<noteq> disconnect_cmd"
  shows "\<exists>ps. concat ps = bs \<and> (\<forall>p \<in> set ps. 0 < length p \<and> length p \<le> 511) \<and>
    conn_recv_thread a [Rx bs] st =
      Some (printed st (map (\<lambda>p. Net (M_message (pc_ip c) (pc_port c) p)) ps))"
proof -
  let ?m = "\<lambda>p. Net (M_message (pc_ip c) (pc_port c) p)"
  have "\<exists>ps. concat ps = bs \<and> (\<forall>p \<in> set ps. 0 < length p \<and> length p \<le> 511) \<and>
    recv_loop a [Rx bs] st = Some (False, printed st (map ?m ps))"
    using assms
  proof (induction "length bs" arbitrary: bs st rule: less_induct)
    case less
    let ?b = "take (BUFSIZE - 1) bs" and ?r = "drop (BUFSIZE - 1) bs"
    have "take 14 (drop 0 bs) \<noteq> disconnect_cmd" using less.prems(4) by blast
    then have "\<not> strncmp_eq ?b disconnect_cmd 14"
      using strncmp_disconnect [of bs] by (simp only: drop_0 simp_thms)
    from recv_loop_message [OF less.prems(1,2) this, of "[]"]
    have step: "recv_loop a [Rx bs] st =
        recv_loop a (if ?r = [] then [] else [Rx ?r]) (safe_printf (?m (c_str ?b)) st)" .
    have b: "c_str ?b = ?b"
      by (rule c_str_id) (use less.prems(3) in \<open>auto dest: in_set_takeD\<close>)
    show ?case
    proof (cases "?r = []")
      case True
      then have len: "length bs \<le> 511" by (simp add: BUFSIZE_def)
      then have "?b = bs" by (simp add: BUFSIZE_def)
      then show ?thesis using step True b less.prems(2) len
        by (intro exI [of _ "[bs]"]) simp
    next
      case False
      have lt: "length ?r < length bs" using less.prems(2) by (simp add: BUFSIZE_def)
      have "heap (safe_printf (?m ?b) st) a = Some c" using less.prems(1) by (simp add: eff)
      moreover have "CHR 0x00 \<notin> set ?r" using less.prems(3) by (auto dest: in_set_dropD)
      moreover have "\<forall>k. take 14 (drop k ?r) \<noteq> disconnect_cmd"
        using less.prems(4) by (simp add: drop_drop)
      ultimately obtain ps where ps: "concat ps = ?r"
        "\<forall>p \<in> set ps. 0 < length p \<and> length p \<le> 511"
        "recv_loop a [Rx ?r] (safe_printf (?m ?b) st) =
          Some (False, printed (safe_printf (?m ?b) st) (map ?m ps))"
        using less.hyps [OF lt] False by blast
      then show ?thesis using step False b less.prems(2)
        by (intro exI [of _ "?b # ps"]) (simp add: BUFSIZE_def)
    qed
  qed
  then show ?thesis by (auto simp: conn_recv_thread_def)
qed

lemma received_text_is_printed_witness:
  "\<exists>ps. concat ps = ''hi'' \<and> conn_recv_thread 11 [Rx ''hi''] demo =
     Some (printed demo (map (\<lambda>p. Net (M_message ''10.0.0.2'' 5000 p)) ps))"
proof -
  have "take 14 (drop k ''hi'') \<noteq> disconnect_cmd" for k
  proof
    assume "take 14 (drop k ''hi'') = disconnect_cmd"
    then have "length (take 14 (drop k ''hi'')) = length disconnect_cmd" by (rule arg_cong)
    moreover have "length disconnect_cmd = 14" by (simp add: disconnect_cmd_def)
    ultimately show False by simp
  qed
  then show ?thesis
    using received_text_is_printed [of demo 11 demo_live "''hi''"] by auto
qed

text \<open>
  C36: the receiving thread takes data for the request to disconnect exactly when the first 14 bytes
  of a \<open>recv\<close> are \<open>CMD:DISCONNECT\<close>, also when a user has typed them or more text follows: it prints that
  the peer disconnects, marks the connection dead and returns. Any other data is a message, also
  when \<open>CMD:DISCONNECT\<close> stands behind another text in the same \<open>recv\<close>.
\<close>

theorem disconnect_recognised:
  assumes "p2p_ok st xs" "heap st a = Some c" "\<not> pc_should_remove c" "bs \<noteq> []" "length bs \<le> 511"
  shows "(take 14 bs = disconnect_cmd \<longrightarrow> (\<exists>st'. conn_recv_thread a (Rx bs # rs) st = Some st' \<and>
      p2p_ok st' (at_addr a (\<lambda>i. i\<lparr>pc_active := False, pc_should_remove := True\<rparr>) xs) \<and>
      trace st' = trace st @ [Lock Print_mutex, Out (Net (M_peer_disconnect (pc_ip c) (pc_port c))),
        Unlock Print_mutex, Lock Conn_mutex, Unlock Conn_mutex])) \<and>
    (take 14 bs \<noteq> disconnect_cmd \<longrightarrow> conn_recv_thread a (Rx bs # rs) st =
      conn_recv_thread a rs (safe_printf (Net (M_message (pc_ip c) (pc_port c) (c_str bs))) st))"
proof (intro conjI impI)
  assume "take 14 bs = disconnect_cmd"
  then have "strncmp_eq (take (BUFSIZE - 1) bs) disconnect_cmd 14" using strncmp_disconnect by blast
  note l = recv_loop_disconnect [OF assms(2,4) this, of rs]
  let ?st = "safe_printf (Net (M_peer_disconnect (pc_ip c) (pc_port c))) st"
  have ok: "p2p_ok ?st xs" "heap ?st a = Some c" using assms(1,2) by (simp_all add: eff)
  show "\<exists>st'. conn_recv_thread a (Rx bs # rs) st = Some st' \<and>
      p2p_ok st' (at_addr a (\<lambda>i. i\<lparr>pc_active := False, pc_should_remove := True\<rparr>) xs) \<and>
      trace st' = trace st @ [Lock Print_mutex, Out (Net (M_peer_disconnect (pc_ip c) (pc_port c))),
        Unlock Print_mutex, Lock Conn_mutex, Unlock Conn_mutex]"
  proof (rule wf_recv_exit [OF ok assms(3)])
    fix st'
    assume "recv_exit a ?st = Some st'" "p2p_ok st' (at_addr a mark_dead xs)"
      "trace st' = trace ?st @ [Lock Conn_mutex, Unlock Conn_mutex]"
    with l show ?thesis
      by (intro exI [of _ st']) (simp add: conn_recv_thread_def mark_dead_def [abs_def] eff)
  qed
next
  assume "take 14 bs \<noteq> disconnect_cmd"
  then have "\<not> strncmp_eq (take (BUFSIZE - 1) bs) disconnect_cmd 14" using strncmp_disconnect by blast
  from recv_loop_message [OF assms(2,4) this, of rs] assms(5)
  show "conn_recv_thread a (Rx bs # rs) st =
      conn_recv_thread a rs (safe_printf (Net (M_message (pc_ip c) (pc_port c) (c_str bs))) st)"
    by (simp add: conn_recv_thread_def BUFSIZE_def)
qed

lemma disconnect_recognised_witness:
  "\<exists>st'. conn_recv_thread 11 [Rx ''CMD:DISCONNECTED''] demo = Some st'"
  using disconnect_recognised [OF demo_ok, of 11 demo_live "''CMD:DISCONNECTED''" "[]"]
  by (auto simp: disconnect_cmd_def)

end
