(* ===== verification/Chat_Exit_Theorems.thy ===== *)
theory Chat_Exit_Theorems
  imports Chat_Message_Theorems
begin

text \<open>
  The theorems on \<open>terminate\<close> and \<open>exit\<close>, the two commands that wait for threads, and on the order in
  which the program takes its two mutexes.
\<close>

section \<open>terminate\<close>

lemma env_run_trace:
  assumes "env_run w st = Some st'"
  obtains es where "trace st' = trace st @ es"
  using runs_env_run [OF assms] by (auto simp: runs_def)

lemma evolves_addr:
  "evolves st xs st' xs' \<Longrightarrow> x \<in> set xs \<Longrightarrow> \<exists>y \<in> set xs'. aged x y"
  by (rule evolves_mem) auto

text \<open>An unknown id: nothing but the message.\<close>

lemma terminate_unknown:
  assumes "p2p_ok st xs" "\<forall>x \<in> set xs. pc_id (snd x) \<noteq> cid"
  shows "cmd_terminate w cid st =
    Some (printf (Cmd (M_not_found cid)) (emit (Unlock Conn_mutex) (emit (Lock Conn_mutex) st)))"
proof -
  have "first_addr (\<lambda>c. pc_id c = cid) xs = None" using assms(2) by (simp add: first_addr_None)
  moreover obtain prev where "list_search (\<lambda>_ c. pc_id c = cid) (heap st) None (conn_head st) =
      Some (prev, first_addr (\<lambda>c. pc_id c = cid) xs)"
    by (rule ok_search [OF assms(1), of "\<lambda>c. pc_id c = cid"]) auto
  ultimately show ?thesis by (simp add: cmd_terminate_def Let_def eff)
qed

text \<open>A known id, when the receiving thread sees the end of its stream while the command waits.\<close>

lemma terminate_known:
  assumes "p2p_ok st xs" "ids_ok n xs" "(a, i) \<in> set xs" "pc_id i = cid"
  shows "\<exists>st' xs' es. cmd_terminate (w1 @ Env_recv a (Rx [] # rs) # w2) cid st = Some st' \<and>
       p2p_ok st' xs' \<and> a \<notin> fst ` set xs' \<and> heap st' a = None \<and>
       (\<forall>x \<in> set xs. fst x \<noteq> a \<longrightarrow> (\<exists>y \<in> set xs'. aged x y)) \<and>
       trace st' = trace st @ [Lock Conn_mutex, Sock_send (pc_sockfd i) disconnect_cmd,
         Sock_shutdown (pc_sockfd i), Sock_close (pc_sockfd i), Unlock Conn_mutex] @ es @
         [Join (pc_thread i), Lock Conn_mutex, Free a, Out (Cmd (M_terminated cid)),
          Unlock Conn_mutex]"
proof -
  have h: "(a, i) \<in> set xs \<and> pc_id i = cid" using assms(3,4) by simp
  have f: "first_addr (\<lambda>c. pc_id c = cid) xs = Some a"
    by (rule first_addr_only [of a i]) (use h ids_ok_unique [OF assms(2), of a i] in auto)
  obtain c t where c: "heap st a = Some c" "i = unlinked c" "pc_thread c = Some t"
    using wf_node [OF assms(1,3)] by metis
  let ?w = "w1 @ Env_recv a (Rx [] # rs) # w2"
  have ok: "p2p_ok (hung_up a c st) (at_addr a inactive xs)" by (rule hung_up_ok [OF assms(1) c(1)])
  obtain st2 xs2 where 2: "env_run ?w (hung_up a c st) = Some st2"
    using env_run_evolves [OF ok] by blast
  obtain es where es: "trace st2 = trace (hung_up a c st) @ es" using env_run_trace [OF 2] by blast
  have "(a, inactive i) \<in> set (at_addr a inactive xs)" using assms(3) by (force simp: at_addr_def)
  from env_run_recv_returns [OF ok this _ 2] c have fin: "t \<in> set (finished st2)" by simp
  show ?thesis
  proof (rule cmd_terminate_returned [OF assms(1) f c(1,3) 2 fin])
    fix st' xs2
    assume r: "cmd_terminate ?w cid st = Some st'"
      "evolves (hung_up a c st) (at_addr a inactive xs) st2 xs2" "p2p_ok st' (drop_addr a xs2)"
      "trace st' = trace st2 @ [Join (Some t), Lock Conn_mutex, Free a,
         Out (Cmd (M_terminated cid)), Unlock Conn_mutex]"
    have "\<exists>y \<in> set (drop_addr a xs2). aged x y" if x: "x \<in> set xs" "fst x \<noteq> a" for x
    proof -
      have "x \<in> set (at_addr a inactive xs)"
        using at_addr_other [of "fst x" a "snd x" inactive xs] x by simp
      from evolves_addr [OF r(2) this] x(2) show ?thesis by (auto simp: drop_addr_def aged_def)
    qed
    moreover have "a \<notin> fst ` set (drop_addr a xs2)" by (auto simp: drop_addr_def)
    moreover from this have "heap st' a = None"
      using wf_conns [OF r(3)] by (auto simp: conns_def)
    ultimately show ?thesis using r(1,3,4) es c
      by (intro exI [of _ st'] exI [of _ "drop_addr a xs2"] exI [of _ es])
        (simp add: hung_up_def eff)
  qed
qed

text \<open>
  C4: \<open>cmd_terminate\<close> with the id of a connection, in every schedule of the other threads in which the
  receiving thread of that connection gets to see the end of its stream, returns: it has sent
  \<open>CMD:DISCONNECT\<close>, shut down and closed the socket under the lock, released the lock before it
  waited, and taken the connection out; every other connection is still there (its own thread may
  have marked it dead meanwhile). For an unknown id it prints an error and changes nothing.
\<close>

theorem terminate_removes:
  assumes "p2p_ok st xs" "ids_ok n xs"
  shows "((a, i) \<in> set xs \<and> pc_id i = cid \<longrightarrow>
     (\<exists>st' xs' es. cmd_terminate (w1 @ Env_recv a (Rx [] # rs) # w2) cid st = Some st' \<and>
        p2p_ok st' xs' \<and> a \<notin> fst ` set xs' \<and> heap st' a = None \<and>
        (\<forall>x \<in> set xs. fst x \<noteq> a \<longrightarrow> (\<exists>y \<in> set xs'. aged x y)) \<and>
        trace st' = trace st @ [Lock Conn_mutex, Sock_send (pc_sockfd i) disconnect_cmd,
          Sock_shutdown (pc_sockfd i), Sock_close (pc_sockfd i), Unlock Conn_mutex] @ es @
          [Join (pc_thread i), Lock Conn_mutex, Free a, Out (Cmd (M_terminated cid)),
           Unlock Conn_mutex])) \<and>
   ((\<forall>x \<in> set xs. pc_id (snd x) \<noteq> cid) \<longrightarrow> cmd_terminate w cid st =
     Some (printf (Cmd (M_not_found cid)) (emit (Unlock Conn_mutex) (emit (Lock Conn_mutex) st))))"
  using terminate_known [OF assms] terminate_unknown [OF assms(1)] by (intro conjI impI) blast+

lemma terminate_removes_witness:
  "\<exists>st'. cmd_terminate [Env_accept (Accepted 8 demo_peer (Some 12) True), Env_recv 11 [Rx []]] 2 demo
     = Some st' \<and> heap st' 11 = None"
  using terminate_removes [OF demo_ok demo_ids, of 11 "unlinked demo_live" 2
      "[Env_accept (Accepted 8 demo_peer (Some 12) True)]" "[]" "[]"]
  by (auto simp: demo_conns_def)

section \<open>exit\<close>

text \<open>When \<open>cmd_exit\<close> comes back; the property below and the command loop rest on it.\<close>

lemma exit_outcome:
  assumes "p2p_ok st xs"
  shows "\<exists>st1 st2 xs2. exit_close st = Some st1 \<and> env_run w st1 = Some st2 \<and> p2p_ok st2 xs2 \<and>
    \<not> running st2 \<and>
    trace st1 = trace st @ [Lock Print_mutex, Out (Cmd M_exiting), Unlock Print_mutex] @
       (if server_sock st \<ge> 0 then [Sock_close (server_sock st)] else []) @
       [Lock Conn_mutex] @ hang_events xs @ [Unlock Conn_mutex] \<and>
    (cmd_exit w st = None \<longleftrightarrow>
       \<not> (listener_done st2 \<and> (\<forall>x \<in> set xs2. thread_returned st2 (snd x)))) \<and>
    (\<forall>st'. cmd_exit w st = Some st' \<longrightarrow> heap st' = Map.empty \<and> conn_head st' = None)"
proof (rule exit_close_ok [OF assms])
  fix st1
  assume 1: "exit_close st = Some st1" "p2p_ok st1 (all_inactive xs)" "\<not> running st1"
    "trace st1 = trace st @ [Lock Print_mutex, Out (Cmd M_exiting), Unlock Print_mutex] @
       (if server_sock st \<ge> 0 then [Sock_close (server_sock st)] else []) @
       [Lock Conn_mutex] @ hang_events xs @ [Unlock Conn_mutex]"
  obtain st2 xs2 where 2: "env_run w st1 = Some st2" "evolves st1 (all_inactive xs) st2 xs2"
    using env_run_evolves [OF 1(2)] by blast
  then have ok2: "p2p_ok st2 xs2" "\<not> running st2" using 1(3) by (auto simp: evolves_def globals_def)
  let ?st3 = "emit (Lock Conn_mutex) (emit (Join (listener_thread_id st2)) st2)"
  have cl: "conn_list (heap ?st3) (conn_head ?st3) xs2" "dom (heap ?st3) = fst ` set xs2"
    using wf_conns [OF ok2(1)] by (simp_all add: conns_def eff)
  have tr: "thread_returned ?st3 = thread_returned st2"
    by (simp add: thread_returned_def fun_eq_iff eff)
  have ex: "cmd_exit w st = (if listener_done st2
      then map_option (\<lambda>st2. emit (Unlock Conn_mutex) (st2\<lparr>conn_head := None\<rparr>))
             (exit_join_loop ?st3 (conn_head ?st3)) else None)"
    using 1(1) 2(1) by (simp add: cmd_exit_def exit_join_def Let_def)
  have none: "\<exists>x \<in> set xs2. \<not> thread_returned st2 (snd x) \<Longrightarrow> exit_join_loop ?st3 (conn_head ?st3) = None"
    using exit_join_loop_stuck [OF cl(1)] tr by simp
  have some: "\<forall>x \<in> set xs2. thread_returned st2 (snd x) \<Longrightarrow>
      \<exists>st'. exit_join_loop ?st3 (conn_head ?st3) = Some st' \<and> heap st' = Map.empty"
    using exit_join_loop_ok [OF cl] tr by auto
  have a: "cmd_exit w st = None \<longleftrightarrow>
       \<not> (listener_done st2 \<and> (\<forall>x \<in> set xs2. thread_returned st2 (snd x)))"
    by (cases "\<forall>x \<in> set xs2. thread_returned st2 (snd x)") (use ex none some in auto)
  have b: "\<forall>st'. cmd_exit w st = Some st' \<longrightarrow> heap st' = Map.empty \<and> conn_head st' = None"
    using ex none some by (fastforce simp: eff split: if_splits)
  show ?thesis
    by (intro exI [of _ st1] exI [of _ st2] exI [of _ xs2] conjI) (fact 1 2 ok2 a b)+
qed

text \<open>
  C5: \<open>cmd_exit\<close> has set \<open>running\<close> to 0, closed the listening socket and told every active peer; from
  there it comes back exactly when the listener and all receiving threads (those of connections
  accepted meanwhile included) have returned before the main thread takes the lock to join them;
  then every node is freed and the list is empty. A listener that stays in \<open>accept\<close>, or a receiving
  thread that still needs the lock, makes it wait forever.
\<close>

theorem exit_returns_iff_threads_returned:
  assumes "p2p_ok st xs"
  shows "\<exists>st1 st2 xs2. exit_close st = Some st1 \<and> env_run w st1 = Some st2 \<and> p2p_ok st2 xs2 \<and>
    \<not> running st2 \<and>
    trace st1 = trace st @ [Lock Print_mutex, Out (Cmd M_exiting), Unlock Print_mutex] @
       (if server_sock st \<ge> 0 then [Sock_close (server_sock st)] else []) @
       [Lock Conn_mutex] @ hang_events xs @ [Unlock Conn_mutex] \<and>
    (cmd_exit w st = None \<longleftrightarrow>
       \<not> (listener_done st2 \<and> (\<forall>x \<in> set xs2. thread_returned st2 (snd x)))) \<and>
    (\<forall>st'. cmd_exit w st = Some st' \<longrightarrow> heap st' = Map.empty \<and> conn_head st' = None)"
  by (rule exit_outcome [OF assms])

lemma exit_returns_iff_threads_returned_witness:
  "cmd_exit [] demo = None"
proof -
  obtain st1 where "exit_close demo = Some st1" "listener_done st1 = listener_done demo"
    using exit_close_ok [OF demo_ok] by metis
  then show ?thesis using exit_returns_iff_threads_returned [OF demo_ok, of "[]"] by auto
qed

section \<open>Locks\<close>

lemma runs_msg [intro]: "runs h st h (printf m st)"
  by (rule runs_trace) (auto simp: eff)

lemma runs_hang_up: "runs h st h (hang_up c st)"
  by (rule runs_trace) (auto simp: eff)

lemma runs_put [intro]: "runs h st h (put_node a c st)"
  by (rule runs_same) (simp add: eff)

lemma runs_section: "runs [] st [] (emit (Unlock Conn_mutex) (emit (Lock Conn_mutex) st))"
  by (rule runs_trans [OF runs_lock runs_unlock])

lemma runs_connect_new:
  assumes "connect_new e ip port st = Some st'"
  shows "runs [] st [] st'"
proof -
  have close: "runs [] s0 [] (emit (Sock_close fd) (safe_printf m s))" if "runs [] s0 [] s" for s0 s fd m
    by (rule runs_trans [OF runs_trans [OF that runs_safe_printf] runs_close]) simp
  show ?thesis
  proof (cases "ce_sock e < 0 \<or> inet_pton ip = None")
    case True
    with assms show ?thesis
      by (auto simp: connect_new_def Let_def split: if_splits intro: close)
  next
    case False
    then obtain addr where addr: "\<not> ce_sock e < 0" "inet_pton ip = Some addr" by auto
    let ?dest = "\<lparr>sin_port = htons (word_of_int port), sin_addr = addr\<rparr>"
    obtain st1 where 1: "env_run (ce_window e) st = Some st1"
      using assms addr by (auto simp: connect_new_def Let_def bind_eq_Some_conv)
    then have r1: "runs [] st [] st1" by (rule runs_env_run)
    obtain q st2 where a: "add_connection (ce_sock e) ?dest (ce_malloc e (heap st1)) st1 = (q, st2)"
      by fastforce
    have r2: "runs [] st [] st2" by (rule runs_trans [OF r1 runs_add [OF a]])
    have r3: "runs [] st [] st3" if "env_run (ce_window2 e) st2 = Some st3" for st3
      by (rule runs_trans [OF r2 runs_env_run [OF that]])
    have u: "env_run (ce_window2 e) st2 = Some st3 \<Longrightarrow>
        unlink_and_free p (emit (Sock_close fd) (safe_printf m st3)) = Some st' \<Longrightarrow> runs [] st [] st'" for p fd m st3
      by (rule runs_trans [OF close [OF r3] runs_unlink])
    have s: "env_run (ce_window2 e) st2 = Some st3 \<Longrightarrow> start_receiver p st3 = Some st4 \<Longrightarrow>
        runs [] st [] (safe_printf m st4)" for p st3 st4 m
      by (rule runs_trans [OF runs_trans [OF r3 runs_start] runs_safe_printf]) simp_all
    show ?thesis using assms addr 1 a close [OF r1] close [OF r2] u s
      by (auto simp: connect_new_def Let_def bind_eq_Some_conv split: if_splits option.splits)
  qed
qed

lemma runs_connect:
  assumes "cmd_connect e ip ps st = Some st'"
  shows "runs [] st [] st'"
proof -
  let ?st = "emit (Unlock Conn_mutex) (emit (Lock Conn_mutex) st)"
  have "runs [] st [] (safe_printf m ?st)" for m
    by (rule runs_trans [OF runs_section runs_safe_printf]) simp
  moreover have "connect_new e ip port ?st = Some st' \<Longrightarrow> runs [] st [] st'" for ip port
    by (rule runs_trans [OF runs_section runs_connect_new])
  ultimately show ?thesis using assms
    by (auto simp: cmd_connect_def Let_def split: if_splits option.splits prod.splits)
qed

lemma runs_terminate:
  assumes "cmd_terminate w cid st = Some st'"
  shows "runs [] st [] st'"
proof -
  let ?C = "[Conn_mutex]"
  let ?st1 = "emit (Lock Conn_mutex) st"
  obtain prev found where s: "list_search (\<lambda>_ c. pc_id c = cid) (heap ?st1) None (conn_head ?st1) =
      Some (prev, found)"
    using assms by (auto simp: cmd_terminate_def Let_def split: option.splits)
  show ?thesis
  proof (cases found)
    case None
    then show ?thesis using assms s runs_trans [OF runs_section runs_msg]
      by (auto simp: cmd_terminate_def Let_def)
  next
    case (Some a)
    with assms s obtain c st4 sp sc st6 where
      4: "pthread_join w (pc_thread c) (emit (Unlock Conn_mutex)
            (put_node a (c\<lparr>pc_active := False\<rparr>) (hang_up c ?st1))) = Some st4" and
      6: "(if sc = Some a then map_option (printf (Cmd (M_terminated cid)))
             (remove_node_locked sp sc (emit (Lock Conn_mutex) st4))
           else Some (emit (Lock Conn_mutex) st4)) = Some st6" and
      st': "st' = emit (Unlock Conn_mutex) st6"
      by (auto simp: cmd_terminate_def Let_def bind_eq_Some_conv)
    have "runs [] st ?C (put_node a (c\<lparr>pc_active := False\<rparr>) (hang_up c ?st1))"
      by (rule runs_trans [OF runs_trans [OF runs_lock runs_hang_up] runs_put])
    from runs_trans [OF this runs_unlock] runs_join [OF 4] have "runs [] st [] st4"
      by (rule runs_trans)
    from runs_trans [OF this runs_lock] have "runs [] st ?C (emit (Lock Conn_mutex) st4)" .
    moreover have "runs ?C (emit (Lock Conn_mutex) st4) ?C st6"
      using 6 by (auto split: if_splits intro: runs_trans [OF runs_remove runs_msg])
    ultimately have "runs [] st ?C st6" by (rule runs_trans)
    then show ?thesis unfolding st' by (rule runs_trans [OF _ runs_unlock])
  qed
qed

lemma runs_send_event: "runs h st h (emit (Sock_send fd m) st)"
  by (rule runs_trace) (auto simp: eff)

lemma runs_send:
  assumes "cmd_send sent err cid msg st = Some st'"
  shows "runs [] st [] st'"
proof -
  have "runs [] st [] (printf m (emit (Unlock Conn_mutex) (emit (Sock_send fd msg)
      (emit (Lock Conn_mutex) st))))" for fd m
    by (rule runs_trans [OF runs_trans [OF runs_trans [OF runs_lock runs_send_event] runs_unlock] runs_msg])
  moreover have "runs [] st [] (printf m (emit (Unlock Conn_mutex) (emit (Lock Conn_mutex) st)))" for m
    by (rule runs_trans [OF runs_section runs_msg])
  ultimately show ?thesis using assms
    by (auto simp: cmd_send_def Let_def bind_eq_Some_conv split: if_splits option.splits)
qed

lemma runs_rows:
  assumes "list_rows st cur = Some st'"
  shows "runs h st h st'"
proof (rule list_rows.raw_induct [where P = "\<lambda>st cur st'. runs h st h st'", OF _ assms])
  fix f st cur st'
  assume IH: "\<And>st cur st'. f st cur = Some st' \<Longrightarrow> runs h st h st'"
    and eq: "(case cur of
        None \<Rightarrow> Some st
      | Some a \<Rightarrow>
          Option.bind (heap st a) (\<lambda>c.
            f (if pc_active c
                then printf (Cmd (M_list_row (pc_id c) (pc_ip c) (pc_port c))) st else st)
              (pc_next c))) = Some st'"
  show "runs h st h st'"
  proof (cases cur)
    case None
    with eq show ?thesis by simp
  next
    case (Some a)
    with eq obtain c where "heap st a = Some c" by (auto simp: bind_eq_Some_conv)
    with eq Some have "f (if pc_active c
        then printf (Cmd (M_list_row (pc_id c) (pc_ip c) (pc_port c))) st else st) (pc_next c) = Some st'"
      by simp
    from IH [OF this] show ?thesis
      by (cases "pc_active c") (auto intro: runs_trans [OF runs_msg])
  qed
qed

lemma runs_list:
  assumes "cmd_list ws st = Some st'"
  shows "runs [] st [] st'"
proof -
  let ?st1 = "printf (Cmd M_list_header) (emit (Lock Conn_mutex) st)"
  obtain st2 where 2: "list_rows ?st1 (conn_head ?st1) = Some st2"
    and 3: "reap_connections ws (emit (Unlock Conn_mutex) st2) = Some st'"
    using assms by (auto simp: cmd_list_def Let_def bind_eq_Some_conv)
  have "runs [] st [Conn_mutex] st2"
    by (rule runs_trans [OF runs_trans [OF runs_lock runs_msg] runs_rows [OF 2]])
  from runs_trans [OF this runs_unlock] runs_reap [OF 3] show ?thesis by (rule runs_trans)
qed

text \<open>
  C6: \<open>connect\<close>, \<open>list\<close>, \<open>terminate\<close>, \<open>send\<close>, \<open>reap_connections\<close> and everything the listener and the receiving
  threads do between them use the two mutexes in one order: no mutex is taken twice or released
  without being held, \<open>conn_mutex\<close> is not taken while \<open>print_mutex\<close> is held, nobody waits for a thread
  while it holds \<open>conn_mutex\<close>, and all are released at the end.
\<close>

theorem lock_discipline:
  assumes "cmd_connect e ip ps st = Some st' \<or> cmd_list ws st = Some st' \<or>
    cmd_terminate w cid st = Some st' \<or> cmd_send sent err cid msg st = Some st' \<or>
    reap_connections ws st = Some st' \<or> env_run w st = Some st'"
  shows "\<exists>es. trace st' = trace st @ es \<and> locks [] es = Some []"
proof -
  have "runs [] st [] st'"
    using assms
    by (elim disjE) (erule runs_connect runs_list runs_terminate runs_send runs_reap runs_env_run)+
  then show ?thesis by (simp add: runs_def)
qed

lemma lock_discipline_witness:
  "\<exists>st'. env_run [Env_recv 11 [Rx []]] demo = Some st' \<and> (\<exists>es. trace st' = es \<and> locks [] es = Some [])"
proof -
  obtain st' where "env_run [Env_recv 11 [Rx []]] demo = Some st'"
    using env_run_evolves [OF demo_ok] by blast
  then show ?thesis
    using lock_discipline [of demo_env None None demo st' "[]" "[Env_recv 11 [Rx []]]" 1 0 0 "[]"] by simp
qed

text \<open>
  \<open>cmd_exit\<close> breaks the rule when there is a connection: it joins the receiving threads while it
  holds \<open>conn_mutex\<close>, which each of them has to take before it returns.
\<close>

theorem exit_joins_under_lock:
  assumes "p2p_ok st xs" "xs \<noteq> []" "cmd_exit w st = Some st'"
  shows "\<exists>es. trace st' = trace st @ es \<and> locks [] es = None"
proof (rule exit_close_ok [OF assms(1)])
  fix st1
  assume 1: "exit_close st = Some st1" "p2p_ok st1 (all_inactive xs)"
    "trace st1 = trace st @ [Lock Print_mutex, Out (Cmd M_exiting), Unlock Print_mutex] @
       (if server_sock st \<ge> 0 then [Sock_close (server_sock st)] else []) @
       [Lock Conn_mutex] @ hang_events xs @ [Unlock Conn_mutex]"
  obtain st2 xs2 where 2: "env_run w st1 = Some st2" "evolves st1 (all_inactive xs) st2 xs2"
    using env_run_evolves [OF 1(2)] by blast
  obtain fs where fs: "trace st2 = trace st1 @ fs" using env_run_trace [OF 2(1)] by blast
  let ?st3 = "emit (Lock Conn_mutex) (emit (Join (listener_thread_id st2)) st2)"
  have cl: "conn_list (heap ?st3) (conn_head ?st3) xs2" "dom (heap ?st3) = fst ` set xs2"
    using 2(2) by (simp_all add: evolves_def p2p_ok_def conns_def eff)
  obtain st4 where 4: "exit_join_loop ?st3 (conn_head ?st3) = Some st4"
    and st': "st' = emit (Unlock Conn_mutex) (st4\<lparr>conn_head := None\<rparr>)"
    using assms(3) 1(1) 2(1)
    by (auto simp: cmd_exit_def exit_join_def Let_def bind_eq_Some_conv split: if_splits)
  have "\<forall>x \<in> set xs2. thread_returned ?st3 (snd x)"
    using exit_join_loop_stuck [OF cl(1)] 4 by fastforce
  then have "trace st4 = trace ?st3 @ concat (map (\<lambda>z. [Join (pc_thread (snd z)), Free (fst z)]) xs2)"
    using exit_join_loop_ok [OF cl] 4 by auto
  moreover have "xs2 \<noteq> []" using 2(2) assms(2) by (auto simp: evolves_def all_inactive_def)
  then obtain z zs where z: "xs2 = z # zs" by (cases xs2) auto
  moreover define pre where "pre = [Lock Print_mutex, Out (Cmd M_exiting), Unlock Print_mutex] @
       (if server_sock st \<ge> 0 then [Sock_close (server_sock st)] else []) @
       [Lock Conn_mutex] @ hang_events xs @ [Unlock Conn_mutex] @ fs @ [Join (listener_thread_id st2)]"
  ultimately obtain gs where
    "trace st' = trace st @ pre @ [Lock Conn_mutex, Join (pc_thread (snd z))] @ gs"
    using 1(3) fs st' by (simp add: eff)
  moreover have "locks [] (pre @ [Lock Conn_mutex, Join (pc_thread (snd z))] @ gs) = None"
    by (auto simp: locks_append split: bind_splits)
  ultimately show ?thesis by blast
qed

definition demo_exit_window :: "env_act list" where
  "demo_exit_window = [Env_accept (Accept_err 9), Env_recv 11 [Rx []]]"

lemma demo_exit_returns: "\<not> Option.is_none (cmd_exit demo_exit_window demo)"
  by code_simp

lemma exit_joins_under_lock_witness:
  "\<exists>st'. cmd_exit demo_exit_window demo = Some st' \<and> locks [] (trace st') = None"
proof -
  obtain st' where "cmd_exit demo_exit_window demo = Some st'"
    using demo_exit_returns by (auto simp: Option.is_none_def)
  moreover have "demo_conns \<noteq> []" by (simp add: demo_conns_def)
  ultimately show ?thesis using exit_joins_under_lock [OF demo_ok] by fastforce
qed

end
