(* ===== verification/Chat_Main_Theorems.thy ===== *)
theory Chat_Main_Theorems
  imports Chat_Exit_Theorems
begin

text \<open>
  The theorems on \<open>main\<close> of the chat program: the check of the port, the parsing of a command line,
  and the loop over the input.
\<close>

section \<open>Start-up\<close>

lemma ucast_port:
  assumes p: "0 \<le> sint (p :: int32)" "sint p \<le> 65535"
  shows "uint (ucast p :: 16 word) = sint p"
proof -
  have "uint p = uint (word_of_int (sint p) :: int32)" by simp
  also have "\<dots> = sint p mod 2 ^ 32" by (simp only: uint_word_of_int) simp
  also have "\<dots> = sint p" using p by simp
  finally have "uint p = sint p" .
  moreover have "uint (ucast p :: 16 word) = uint p mod 65536"
    by (simp add: unsigned_ucast_eq take_bit_eq_mod)
  ultimately show ?thesis using p by simp
qed

definition local_text :: "local_env \<Rightarrow> string" where
  "local_text e = (case fst (get_local_ip e initial_p2p) of None \<Rightarrow> ''127.0.0.1'' | Some s \<Rightarrow> s)"

lemma get_local_ip_fields [eff]:
  "get_local_ip e st = (ip, st') \<Longrightarrow> heap st' = heap st \<and> conn_head st' = conn_head st \<and>
     finished st' = finished st \<and> next_tid st' = next_tid st \<and> listen_port st' = listen_port st \<and>
     ip = fst (get_local_ip e initial_p2p)"
  by (auto simp: get_local_ip_def eff split: if_splits option.splits)

text \<open>
  With one argument the program starts exactly when \<open>atoi\<close> of it is from 1 to 65535 and the
  system calls succeed. Then the connection list is well formed and empty, the socket is bound to
  the port the argument gives, in network byte order, on all interfaces, the listener thread exists,
  and the local address is that of \<open>get_local_ip\<close> or \<open>127.0.0.1\<close>.
\<close>

theorem main_starts_on_port:
  "(fst (main_start e [prog, arg] initial_p2p) \<longleftrightarrow>
      sint (atoi arg) \<in> {1..65535} \<and> 0 \<le> me_socket e \<and> 0 \<le> me_bind e (serv_addr (atoi arg)) \<and>
      0 \<le> me_listen e \<and> me_create_ok e) \<and>
   (fst (main_start e [prog, arg] initial_p2p) \<longrightarrow>
      (let st = snd (main_start e [prog, arg] initial_p2p) in
         p2p_ok st [] \<and> listen_port st = atoi arg \<and> server_sock st = me_socket e \<and>
         uint (ntohs (sin_port (serv_addr (listen_port st)))) = sint (listen_port st) \<and>
         listener_thread_id st \<noteq> None \<and> local_ip st = local_text (me_local e)))"
proof -
  obtain ip st2 where g: "get_local_ip (me_local e) (initial_p2p\<lparr>listen_port := atoi arg\<rparr>) = (ip, st2)"
    by fastforce
  note f = get_local_ip_fields [OF g]
  have ok: "p2p_ok s []" if "heap s = Map.empty" "conn_head s = None" "finished s = []" for s
    using that by (simp add: p2p_ok_def conns_def)
  show ?thesis
  proof (cases "sint (atoi arg) \<in> {1..65535}")
    case False
    then show ?thesis by (auto simp: main_start_def Let_def)
  next
    case True
    then have port: "uint (ntohs (sin_port (serv_addr (atoi arg)))) = sint (atoi arg)"
      by (simp add: serv_addr_def ucast_port)
    show ?thesis using True port g f
      by (auto simp: main_start_def Let_def not_less cmd_help_def local_text_def eff
          intro!: ok simp: initial_p2p_def)
  qed
qed

definition demo_main_env :: main_env where
  "demo_main_env = \<lparr>me_local = \<lparr>le_socket = 3, le_getsockname = None\<rparr>, me_socket = 4,
     me_bind = (\<lambda>a. 0), me_listen = 0, me_create_ok = True\<rparr>"

lemma main_starts_on_port_witness:
  "p2p_ok (snd (main_start demo_main_env [''p2p'', ''5000''] initial_p2p)) []"
proof -
  have "fst (main_start demo_main_env [''p2p'', ''5000''] initial_p2p)" by code_simp
  then show ?thesis
    using main_starts_on_port [of demo_main_env "''p2p''" "''5000''"] by (simp add: Let_def)
qed

section \<open>Parsing a line\<close>

lemma if_not: "x \<noteq> z \<Longrightarrow> y \<noteq> z \<Longrightarrow> (if P then x else y) \<noteq> z"
  by simp

lemma parse_line_nothing: "parse_line line = C_nothing \<longleftrightarrow> fst (strtok '' '' line) = None"
proof (cases "strtok '' '' line")
  case (Pair cmd rest)
  show ?thesis
  proof (cases cmd)
    case None
    with Pair show ?thesis by (simp add: parse_line_def)
  next
    case (Some c)
    have "parse_line line \<noteq> C_nothing"
      unfolding parse_line_def Pair Some Let_def case_prod_beta fst_conv snd_conv option.case
      by (intro if_not) (simp_all split: option.split)
    with Pair Some show ?thesis by simp
  qed
qed

text \<open>
  C38: the line of a command is parsed into the call with the arguments the user typed: the id of
  \<open>terminate\<close> and \<open>send\<close> as a number, the address and the port of \<open>connect\<close>, and for \<open>send\<close> everything after
  the space behind the id, blanks included, as the message; a line of blanks is no command.
\<close>

theorem command_lines_parse:
  "(0 < n \<and> n < 2 ^ 31 \<and> msg \<noteq> [] \<longrightarrow>
      parse_line (''send '' @ dec n @ '' '' @ msg) = C_send (word_of_nat n) msg) \<and>
   (0 < n \<and> n < 2 ^ 31 \<longrightarrow> parse_line (''terminate '' @ dec n) = C_terminate (word_of_nat n)) \<and>
   (ip \<noteq> [] \<and> port \<noteq> [] \<and> CHR '' '' \<notin> set (ip @ port) \<longrightarrow>
      parse_line (''connect '' @ ip @ '' '' @ port) = C_connect ip port) \<and>
   (parse_line line = C_nothing \<longleftrightarrow> set line \<subseteq> {CHR '' ''})"
proof -
  have sp: "CHR '' '' \<notin> set (dec n)" by (auto dest!: dec_digits simp: c_isdigit_def)
  have d: "strtok '' '' (dec n @ CHR '' '' # s) = (Some (dec n), s)" for s
    by (rule strtok_token) (use sp in auto)
  have d': "strtok '' '' (dec n) = (Some (dec n), [])"
    by (rule strtok_last) (use sp in auto)
  have t: "strtok '' '' (''terminate '' @ s) = (Some ''terminate'', s)"
    "strtok '' '' (''send '' @ s) = (Some ''send'', s)"
    "strtok '' '' (''connect '' @ s) = (Some ''connect'', s)" for s
    using strtok_token [of "''terminate''" "'' ''" "CHR '' ''" s]
      strtok_token [of "''send''" "'' ''" "CHR '' ''" s]
      strtok_token [of "''connect''" "'' ''" "CHR '' ''" s] by simp_all
  have a: "atoi (dec n) = word_of_nat n" if "n < 2 ^ 31"
    using that strtol_dec [of "[]" n] by (simp add: atoi_def)
  have s: "0 < sint (word_of_nat n :: int32)" if "0 < n" "n < 2 ^ 31"
    using atoi_dec [OF that(2)] a [OF that(2)] that(1) by simp
  have 1: "parse_line (''send '' @ dec n @ '' '' @ msg) = C_send (word_of_nat n) msg"
    if "0 < n" "n < 2 ^ 31" "msg \<noteq> []"
    using t(2) [of "dec n @ '' '' @ msg"] d [of msg] a s that
    by (simp add: parse_line_def strtok_empty_delims Let_def)
  have 2: "parse_line (''terminate '' @ dec n) = C_terminate (word_of_nat n)"
    if "0 < n" "n < 2 ^ 31"
    using t(1) [of "dec n"] d' a s that by (simp add: parse_line_def)
  have 3: "parse_line (''connect '' @ ip @ '' '' @ port) = C_connect ip port"
    if "ip \<noteq> []" "port \<noteq> []" "CHR '' '' \<notin> set (ip @ port)"
  proof -
    have "strtok '' '' (ip @ CHR '' '' # port) = (Some ip, port)"
      by (rule strtok_token) (use that in auto)
    moreover have "strtok '' '' port = (Some port, [])"
      by (rule strtok_last) (use that in auto)
    ultimately show ?thesis using t(3) [of "ip @ '' '' @ port"]
      by (simp add: parse_line_def Let_def)
  qed
  have "fst (strtok '' '' line) = None \<longleftrightarrow> set line \<subseteq> {CHR '' ''}"
    using strtok_None [of "'' ''" line] by simp
  then have 4: "parse_line line = C_nothing \<longleftrightarrow> set line \<subseteq> {CHR '' ''}"
    using parse_line_nothing [of line] by simp
  from 1 2 3 4 show ?thesis by blast
qed

lemma command_lines_parse_witness:
  "parse_line ''send 2 see you  later'' = C_send 2 ''see you  later''"
proof -
  have "dec 2 = ''2''" by code_simp
  then show ?thesis using command_lines_parse [of 2 "''see you  later''" "[]" "[]" "[]"] by simp
qed

section \<open>The loop\<close>

text \<open>A well-formed state with the globals of \<open>st\<close>.\<close>

definition keeps :: "p2p \<Rightarrow> p2p \<Rightarrow> bool" where
  "keeps st st' \<longleftrightarrow> (\<exists>xs. p2p_ok st' xs) \<and> globals st' = globals st"

lemma keeps_trans: "keeps st st1 \<Longrightarrow> keeps st1 st2 \<Longrightarrow> keeps st st2"
  by (simp add: keeps_def)

lemma keeps_printf: "p2p_ok st xs \<Longrightarrow> keeps st (printf m st)"
  by (auto simp: keeps_def eff)

lemma keeps_evolves: "evolves st xs st' xs' \<Longrightarrow> keeps st st'"
  by (auto simp: keeps_def evolves_def)

lemma keeps_reap:
  assumes "p2p_ok st xs"
  obtains st' where "reap_connections ws st = Some st'" "keeps st st'"
  by (rule reap_connections_reaped [OF assms, of ws]) (rule that, auto simp: reaped_def keeps_def)

lemma keeps_connect_new:
  assumes ok: "p2p_ok st xs" and m: "malloc_fresh (ce_malloc e)" and ip: "ip = inet_ntop addr"
    and port: "0 < port" "port \<le> 65535"
  obtains st' where "connect_new e ip port st = Some st'" "keeps st st'"
proof -
  obtain st1 xs1 where 1: "env_run (ce_window e) st = Some st1" using env_run_evolves [OF ok] by blast
  have fin: "keeps st st'" if "p2p_ok st' ys" "globals st' = globals st" for st' ys
    using that by (auto simp: keeps_def)
  consider (sock) "ce_sock e < 0"
    | (fail) "0 \<le> ce_sock e" "ce_connect e < 0 \<or> ce_malloc e (heap st1) = None"
    | (rollback) p where "0 \<le> ce_sock e" "\<not> ce_connect e < 0" "ce_malloc e (heap st1) = Some p" "\<not> ce_create_ok e"
    | (good) p where "0 \<le> ce_sock e" "0 \<le> ce_connect e" "ce_create_ok e" "ce_malloc e (heap st1) = Some p"
    by force
  then show ?thesis
  proof cases
    case sock
    then have "connect_new e ip port st = Some (safe_printf (Link (M_socket_failed (ce_errno e))) st)"
      by (simp add: connect_new_def)
    then show ?thesis by (rule that) (rule fin [of _ xs], use ok in \<open>simp_all add: eff\<close>)
  next
    case fail
    show ?thesis by (rule connect_new_failure [OF ok ip fail(1) 1 fail(2), of port]) (rule that, assumption, rule fin)
  next
    case (rollback p)
    show ?thesis
      by (rule connect_new_rollback [OF ok ip rollback(1) 1 rollback(2-4) m refl, of port]) (rule that, assumption, rule fin)
  next
    case (good p)
    show ?thesis
      by (rule connect_new_success [OF ok ip port good(1-3) 1 m good(4) refl]) (rule that, assumption, rule fin)
  qed
qed

lemma keeps_connect:
  assumes ok: "p2p_ok st xs" and m: "malloc_fresh (ce_malloc e)"
  obtains st' where "cmd_connect e (Some ip) (Some ps) st = Some st'" "keeps st st'"
proof (cases "connectable ip ps (fst (strtol ps)) st")
  case False
  have p: "keeps st (safe_printf m st)" for m using ok by (auto simp: keeps_def eff)
  from False have "\<exists>m. cmd_connect e (Some ip) (Some ps) st = Some (safe_printf m st)"
    by (cases "strtol ps") (auto simp: cmd_connect_def connectable_def)
  with p that show ?thesis by blast
next
  case True
  let ?st = "emit (Unlock Conn_mutex) (emit (Lock Conn_mutex) st)" and ?port = "fst (strtol ps)"
  show ?thesis
  proof (cases "first_addr (same_peer ip ?port) xs")
    case (Some a)
    then obtain i where i: "(a, i) \<in> set xs" "same_peer ip ?port i" by (rule first_addr_mem)
    show ?thesis
    proof (rule cmd_connect_duplicate [OF ok True i, of e])
      fix st'
      assume r: "cmd_connect e (Some ip) (Some ps) st = Some st'" "p2p_ok st' xs"
      obtain c where "heap st a = Some c" using conns_mapped [OF wf_conns [OF ok] i(1)] by auto
      then have "globals st' = globals st"
        using r(1) cmd_connect_checked [OF ok True, of e] Some by (auto simp: eff)
      with r that show ?thesis by (auto simp: keeps_def)
    qed
  next
    case None
    have ok': "p2p_ok ?st xs" using ok by simp
    obtain addr where addr: "ip = inet_ntop addr" using True is_valid_ipv4_iff by (auto simp: connectable_def)
    have port: "0 < ?port" "?port \<le> 65535" using True by (simp_all add: connectable_def)
    obtain st' where "connect_new e ip ?port ?st = Some st'" "keeps ?st st'"
      by (rule keeps_connect_new [OF ok' m addr port])
    with that show ?thesis using cmd_connect_checked [OF ok True, of e] None by (simp add: keeps_def eff)
  qed
qed

lemma keeps_list:
  assumes "p2p_ok st xs"
  obtains st' where "cmd_list ws st = Some st'" "keeps st st'"
proof -
  let ?st0 = "printf (Cmd M_list_header) (emit (Lock Conn_mutex) st)"
  have "conn_list (heap ?st0) (conn_head ?st0) xs"
    using wf_conns [OF assms] by (simp add: conns_def eff)
  then obtain st2 where st2: "list_rows ?st0 (conn_head ?st0) = Some st2"
    "heap st2 = heap ?st0" "conn_head st2 = conn_head ?st0" "finished st2 = finished ?st0"
    "next_tid st2 = next_tid ?st0" "globals st2 = globals ?st0"
    using list_rows_trace by blast
  let ?st1 = "emit (Unlock Conn_mutex) st2"
  have ok1: "p2p_ok ?st1 xs" using assms st2 by (simp add: p2p_ok_def conns_def eff)
  have eq: "cmd_list ws st = reap_connections ws ?st1"
    using st2(1) by (simp add: cmd_list_def Let_def)
  show ?thesis
    by (rule keeps_reap [OF ok1, of ws])
      (rule that, unfold eq, assumption, use st2(6) in \<open>simp add: keeps_def eff\<close>)
qed

lemma keeps_send:
  assumes "p2p_ok st xs"
  obtains st' where "cmd_send sent err cid msg st = Some st'" "keeps st st'"
proof (cases "length msg \<le> MAX_MSG_LEN")
  case False
  then show ?thesis using keeps_printf [OF assms] by (intro that) (simp_all add: cmd_send_def)
next
  case True
  note eq = cmd_send_cases [OF assms True, of sent err cid]
  show ?thesis
  proof (cases "first_addr (\<lambda>c. pc_id c = cid \<and> pc_active c) xs")
    case None
    then show ?thesis using assms eq by (intro that) (auto simp: keeps_def eff)
  next
    case (Some a)
    then obtain i where "(a, i) \<in> set xs" by (rule first_addr_mem)
    then obtain c where "heap st a = Some c" using conns_mapped [OF wf_conns [OF assms]] by blast
    with Some show ?thesis using assms eq by (intro that) (auto simp: keeps_def Let_def eff)
  qed
qed

lemma keeps_terminate:
  assumes ok: "p2p_ok st xs" and r: "cmd_terminate w cid st = Some st'"
  shows "keeps st st'"
proof (cases "first_addr (\<lambda>c. pc_id c = cid) xs")
  case None
  moreover obtain prev where "list_search (\<lambda>_ c. pc_id c = cid) (heap st) None (conn_head st) =
      Some (prev, first_addr (\<lambda>c. pc_id c = cid) xs)"
    by (rule ok_search [OF ok, of "\<lambda>c. pc_id c = cid"]) auto
  ultimately show ?thesis using r ok by (auto simp: cmd_terminate_def Let_def keeps_def eff)
next
  case (Some a)
  obtain prev where s: "list_search (\<lambda>_ c. pc_id c = cid) (heap st) None (conn_head st) =
      Some (prev, first_addr (\<lambda>c. pc_id c = cid) xs)"
    by (rule ok_search [OF ok, of "\<lambda>c. pc_id c = cid"]) auto
  obtain i where mem: "(a, i) \<in> set xs" using Some by (rule first_addr_mem)
  obtain c t where c: "heap st a = Some c" "pc_thread c = Some t"
    using wf_node [OF ok mem] by metis
  from r s Some c obtain st2 where 2: "env_run w (hung_up a c st) = Some st2" "t \<in> set (finished st2)"
    by (auto simp: cmd_terminate_def Let_def eff hung_up_def [symmetric] inactive_def [symmetric]
        pthread_join_def bind_eq_Some_conv split: option.splits if_splits)
  show ?thesis
    by (rule cmd_terminate_returned [OF ok Some c 2])
      (use r in \<open>auto simp: keeps_def\<close>)
qed

lemma exit_returned:
  assumes ok: "p2p_ok st xs" and r: "cmd_exit w st = Some st'"
  shows "heap st' = Map.empty" "conn_head st' = None"
proof -
  have "heap st' = Map.empty \<and> conn_head st' = None"
  proof (rule exit_close_ok [OF ok])
    fix st1
    assume 1: "exit_close st = Some st1" "p2p_ok st1 (all_inactive xs)"
    obtain st2 xs2 where 2: "env_run w st1 = Some st2" "evolves st1 (all_inactive xs) st2 xs2"
      using env_run_evolves [OF 1(2)] by blast
    let ?st3 = "emit (Lock Conn_mutex) (emit (Join (listener_thread_id st2)) st2)"
    have cl: "conn_list (heap ?st3) (conn_head ?st3) xs2" "dom (heap ?st3) = fst ` set xs2"
      using 2(2) by (simp_all add: evolves_def p2p_ok_def conns_def eff)
    obtain st4 where 4: "exit_join_loop ?st3 (conn_head ?st3) = Some st4"
      and st': "st' = emit (Unlock Conn_mutex) (st4\<lparr>conn_head := None\<rparr>)"
      using r 1(1) 2(1)
      by (auto simp: cmd_exit_def exit_join_def Let_def bind_eq_Some_conv split: if_splits)
    have "\<forall>x \<in> set xs2. thread_returned ?st3 (snd x)"
      using exit_join_loop_stuck [OF cl(1)] 4 by fastforce
    then have "heap st4 = Map.empty" using exit_join_loop_ok [OF cl] 4 by auto
    then show ?thesis using st' by (simp add: eff)
  qed
  then show "heap st' = Map.empty" "conn_head st' = None" by simp_all
qed

text \<open>The commands that wait for a thread.\<close>

definition waits :: "command \<Rightarrow> bool" where
  "waits c = (case c of C_terminate i \<Rightarrow> True | C_exit \<Rightarrow> True | _ \<Rightarrow> False)"

lemma run_command_keeps:
  assumes ok: "p2p_ok st xs" and m: "malloc_fresh (ce_malloc (re_connect e))"
  shows "\<not> waits c \<Longrightarrow> \<exists>st'. run_command e c st = Some (False, st') \<and> keeps st st'"
    and "run_command e c st = Some (q, st') \<Longrightarrow>
      if q then heap st' = Map.empty \<and> conn_head st' = None else keeps st st'"
proof -
  have p: "keeps st (printf m st)" "keeps st st" "keeps st (cmd_help st)" for m
    using ok keeps_printf by (auto simp: keeps_def cmd_help_def eff)
  have total: "\<exists>st'. run_command e c st = Some (False, st') \<and> keeps st st'" if "\<not> waits c"
  proof (cases c)
    case (C_connect ip port)
    show ?thesis
      by (rule keeps_connect [OF ok m, of ip port]) (simp add: C_connect run_command_def)
  next
    case C_list
    show ?thesis by (rule keeps_list [OF ok, of "re_list e"]) (simp add: C_list run_command_def)
  next
    case (C_send i m)
    show ?thesis
      by (rule keeps_send [OF ok, of "re_sent e" "re_errno e" i m]) (simp add: C_send run_command_def)
  qed (use p that in \<open>simp_all add: run_command_def waits_def\<close>)
  then show "\<not> waits c \<Longrightarrow> \<exists>st'. run_command e c st = Some (False, st') \<and> keeps st st'" .
  assume r: "run_command e c st = Some (q, st')"
  show "if q then heap st' = Map.empty \<and> conn_head st' = None else keeps st st'"
  proof (cases "waits c")
    case False
    with total r show ?thesis by auto
  next
    case True
    then consider i where "c = C_terminate i" | "c = C_exit"
      by (auto simp: waits_def split: command.splits)
    then show ?thesis
    proof cases
      case 1
      with r keeps_terminate [OF ok] show ?thesis by (auto simp: run_command_def)
    next
      case 2
      then obtain st1 where "cmd_exit (re_join e) st = Some st1" "q"
        "st' = printf (Main M_goodbye) st1"
        using r by (auto simp: run_command_def)
      with exit_returned [OF ok] show ?thesis by (simp add: eff)
    qed
  qed
qed

section \<open>Waiting for ever\<close>

text \<open>
  A command that does not come back waits for a thread that does not return; these predicates say so in terms
  of the state, and are false when the command would read memory that is not there. \<open>terminate\<close>: the id is known,
  and when the others have done what they do meanwhile, the thread of its connection has not returned. \<open>exit\<close>:
  when the main thread comes to its joins, the listener or some receiving thread has not returned.
\<close>

definition terminate_waits :: "env_act list \<Rightarrow> int32 \<Rightarrow> p2p \<Rightarrow> bool" where
  "terminate_waits w cid st =
     (case list_search (\<lambda>_ c. pc_id c = cid) (heap st) None (conn_head st) of
        Some (_, Some a) \<Rightarrow> (case heap st a of
            None \<Rightarrow> False
          | Some c \<Rightarrow> (case env_run w (hung_up a c st) of
                None \<Rightarrow> False
              | Some st2 \<Rightarrow> \<not> thread_returned st2 c))
      | _ \<Rightarrow> False)"

definition exit_waits :: "env_act list \<Rightarrow> p2p \<Rightarrow> bool" where
  "exit_waits w st =
     (case Option.bind (exit_close st) (env_run w) of
        None \<Rightarrow> False
      | Some st2 \<Rightarrow> \<not> listener_done st2 \<or>
          (case list_search (\<lambda>_ c. \<not> thread_returned st2 c) (heap st2) None (conn_head st2) of
             Some (_, Some a) \<Rightarrow> True
           | _ \<Rightarrow> False))"

definition command_waits :: "round_env \<Rightarrow> command \<Rightarrow> p2p \<Rightarrow> bool" where
  "command_waits e c st = (case c of
      C_terminate i \<Rightarrow> terminate_waits (re_join e) i st
    | C_exit \<Rightarrow> exit_waits (re_join e) st
    | _ \<Rightarrow> False)"

definition line_waits :: "round_env \<Rightarrow> string \<Rightarrow> p2p \<Rightarrow> bool" where
  "line_waits e buf st = (chomp buf \<noteq> [] \<and>
     (case reap_connections (re_reap e) st of
        None \<Rightarrow> False
      | Some st1 \<Rightarrow> command_waits e (parse_line (chomp buf)) st1))"

text \<open>The loop comes to a line whose command waits for ever.\<close>

function loop_waits :: "(nat \<Rightarrow> round_env) \<Rightarrow> nat \<Rightarrow> string \<Rightarrow> p2p \<Rightarrow> bool" where
  "loop_waits env k inp st =
     (running st \<and> (case env_run (re_idle (env k)) (printf (Main M_prompt) st) of
        None \<Rightarrow> False
      | Some st1 \<Rightarrow> (case fgets LINE_SIZE inp of
            None \<Rightarrow> False
          | Some (buf, rest) \<Rightarrow> line_waits (env k) buf st1 \<or>
              (case main_line (env k) buf st1 of
                 Some (False, st2) \<Rightarrow> loop_waits env (Suc k) rest st2
               | _ \<Rightarrow> False))))"
  by pat_completeness auto
termination
  by (relation "measure (\<lambda>(env, k, inp, st). length inp)")
    (auto intro: fgets_shrinks [of LINE_SIZE] simp: LINE_SIZE_def)

declare loop_waits.simps [simp del]

lemma terminate_none:
  assumes ok: "p2p_ok st xs"
  shows "cmd_terminate w cid st = None \<longleftrightarrow> terminate_waits w cid st"
proof (cases "first_addr (\<lambda>c. pc_id c = cid) xs")
  case None
  then have "cmd_terminate w cid st \<noteq> None"
    using terminate_unknown [OF ok, of cid w] by (simp add: first_addr_None)
  moreover obtain prev where "list_search (\<lambda>_ c. pc_id c = cid) (heap st) None (conn_head st) = Some (prev, None)"
    using ok_search [OF ok, of "\<lambda>c. pc_id c = cid"] None by (metis unlinked_fields(1))
  ultimately show ?thesis by (simp add: terminate_waits_def)
next
  case (Some a)
  obtain prev where s: "list_search (\<lambda>_ c. pc_id c = cid) (heap st) None (conn_head st) = Some (prev, Some a)"
    using ok_search [OF ok, of "\<lambda>c. pc_id c = cid"] Some by (metis unlinked_fields(1))
  obtain i where mem: "(a, i) \<in> set xs" using Some by (rule first_addr_mem)
  obtain c t where c: "heap st a = Some c" "pc_thread c = Some t"
    using wf_node [OF ok mem] by metis
  obtain st2 where 2: "env_run w (hung_up a c st) = Some st2"
    using env_run_evolves [OF hung_up_ok [OF ok c(1)], of w] by blast
  have w: "terminate_waits w cid st \<longleftrightarrow> t \<notin> set (finished st2)"
    using s c 2 by (simp add: terminate_waits_def thread_returned_def)
  show ?thesis
  proof (cases "t \<in> set (finished st2)")
    case True
    obtain st' where "cmd_terminate w cid st = Some st'"
      by (rule cmd_terminate_returned [OF ok Some c 2 True])
    with w True show ?thesis by simp
  next
    case False
    have "cmd_terminate w cid st = None"
      using s c 2 False
      by (simp add: cmd_terminate_def Let_def eff hung_up_def [symmetric] inactive_def [symmetric] pthread_join_def)
    with w False show ?thesis by simp
  qed
qed

lemma exit_none:
  assumes ok: "p2p_ok st xs"
  shows "cmd_exit w st = None \<longleftrightarrow> exit_waits w st"
proof -
  obtain st1 st2 xs2 where e: "exit_close st = Some st1" "env_run w st1 = Some st2" "p2p_ok st2 xs2"
    "cmd_exit w st = None \<longleftrightarrow> \<not> (listener_done st2 \<and> (\<forall>x \<in> set xs2. thread_returned st2 (snd x)))"
    using exit_outcome [OF ok, of w] by (elim exE conjE) (rule that)
  obtain prev where s: "list_search (\<lambda>_ c. \<not> thread_returned st2 c) (heap st2) None (conn_head st2) =
      Some (prev, first_addr (\<lambda>c. \<not> thread_returned st2 c) xs2)"
    by (rule ok_search [OF e(3), of "\<lambda>c. \<not> thread_returned st2 c"]) (simp add: thread_returned_def)
  have "exit_waits w st \<longleftrightarrow> \<not> listener_done st2 \<or> first_addr (\<lambda>c. \<not> thread_returned st2 c) xs2 \<noteq> None"
    using e(1,2) s by (auto simp: exit_waits_def split: option.split)
  then show ?thesis using e(4) by (auto simp: first_addr_None)
qed

lemma run_command_none:
  assumes ok: "p2p_ok st xs" and m: "malloc_fresh (ce_malloc (re_connect e))"
  shows "run_command e c st = None \<longleftrightarrow> command_waits e c st"
    "run_command e c st = Some (q, st') \<Longrightarrow> q \<longleftrightarrow> c = C_exit"
proof -
  show "run_command e c st = None \<longleftrightarrow> command_waits e c st"
  proof (cases "waits c")
    case False
    then show ?thesis using run_command_keeps(1) [OF ok m, of c]
      by (auto simp: command_waits_def waits_def split: command.splits)
  next
    case True
    then show ?thesis using terminate_none [OF ok] exit_none [OF ok]
      by (auto simp: command_waits_def waits_def run_command_def split: command.splits)
  qed
  show "run_command e c st = Some (q, st') \<Longrightarrow> q \<longleftrightarrow> c = C_exit"
    by (auto simp: run_command_def split: command.splits)
qed

section \<open>Every input\<close>

text \<open>The buffers \<open>fgets\<close> fills from an input, in order.\<close>

function fgets_all :: "string \<Rightarrow> string list" where
  "fgets_all inp =
     (case fgets LINE_SIZE inp of None \<Rightarrow> [] | Some (buf, rest) \<Rightarrow> buf # fgets_all rest)"
  by pat_completeness auto
termination
  by (relation "measure length") (auto intro: fgets_shrinks [of LINE_SIZE] simp: LINE_SIZE_def)

declare fgets_all.simps [simp del]

definition command_of :: "string \<Rightarrow> command" where
  "command_of buf = (if chomp buf = [] then C_nothing else parse_line (chomp buf))"

lemma main_line_keeps:
  assumes ok: "p2p_ok st xs" and m: "malloc_fresh (ce_malloc (re_connect e))"
  shows "\<not> waits (command_of buf) \<Longrightarrow> \<exists>st'. main_line e buf st = Some (False, st') \<and> keeps st st'"
    and "main_line e buf st = Some (q, st') \<Longrightarrow>
      if q then heap st' = Map.empty \<and> conn_head st' = None else keeps st st'"
proof -
  obtain st1 where 1: "reap_connections (re_reap e) st = Some st1" "keeps st st1"
    by (rule keeps_reap [OF ok])
  then obtain xs1 where ok1: "p2p_ok st1 xs1" by (auto simp: keeps_def)
  note c = run_command_keeps [OF ok1 m]
  have refl: "keeps st st" using ok by (auto simp: keeps_def)
  show "\<exists>st'. main_line e buf st = Some (False, st') \<and> keeps st st'" if "\<not> waits (command_of buf)"
  proof (cases "chomp buf = []")
    case True
    with refl show ?thesis by (simp add: main_line_def)
  next
    case False
    with that have "\<not> waits (parse_line (chomp buf))" by (simp add: command_of_def)
    from c(1) [OF this] False 1 keeps_trans [OF 1(2)] show ?thesis by (auto simp: main_line_def)
  qed
  show "if q then heap st' = Map.empty \<and> conn_head st' = None else keeps st st'"
    if "main_line e buf st = Some (q, st')"
  proof (cases "chomp buf = []")
    case True
    with that refl show ?thesis by (simp add: main_line_def)
  next
    case False
    with that 1(1) have "run_command e (parse_line (chomp buf)) st1 = Some (q, st')"
      by (simp add: main_line_def)
    from c(2) [OF this] show ?thesis using keeps_trans [OF 1(2)] by (auto split: if_splits)
  qed
qed

lemma main_line_none:
  assumes ok: "p2p_ok st xs" and m: "malloc_fresh (ce_malloc (re_connect e))"
  shows "main_line e buf st = None \<longleftrightarrow> line_waits e buf st"
    "main_line e buf st = Some (q, st') \<Longrightarrow> q \<longleftrightarrow> command_of buf = C_exit"
    "line_waits e buf st \<Longrightarrow> waits (command_of buf)"
proof -
  obtain st1 where 1: "reap_connections (re_reap e) st = Some st1" "keeps st st1"
    by (rule keeps_reap [OF ok])
  then obtain xs1 where ok1: "p2p_ok st1 xs1" by (auto simp: keeps_def)
  show "main_line e buf st = None \<longleftrightarrow> line_waits e buf st"
    "main_line e buf st = Some (q, st') \<Longrightarrow> q \<longleftrightarrow> command_of buf = C_exit"
    using run_command_none [OF ok1 m] 1(1)
    by (auto simp: main_line_def line_waits_def command_of_def Let_def split: if_splits)
  show "line_waits e buf st \<Longrightarrow> waits (command_of buf)"
    using 1(1) by (auto simp: line_waits_def command_of_def command_waits_def waits_def split: command.splits)
qed

lemma main_loop_step:
  assumes ok: "p2p_ok st xs" and r: "running st"
  obtains st1 xs1 where "keeps st st1" "p2p_ok st1 xs1"
    "main_loop env k inp st = (case fgets LINE_SIZE inp of
        None \<Rightarrow> Some (False, st1)
      | Some (buf, rest) \<Rightarrow>
          (case main_line (env k) buf st1 of
             None \<Rightarrow> None
           | Some (quit, st2) \<Rightarrow> if quit then Some (True, st2) else main_loop env (Suc k) rest st2))"
    "loop_waits env k inp st \<longleftrightarrow> (case fgets LINE_SIZE inp of
        None \<Rightarrow> False
      | Some (buf, rest) \<Rightarrow> line_waits (env k) buf st1 \<or>
          (case main_line (env k) buf st1 of Some (False, st2) \<Rightarrow> loop_waits env (Suc k) rest st2 | _ \<Rightarrow> False))"
proof -
  have "p2p_ok (printf (Main M_prompt) st) xs" using ok by simp
  then obtain st1 xs1 where 1: "env_run (re_idle (env k)) (printf (Main M_prompt) st) = Some st1"
    "evolves (printf (Main M_prompt) st) xs st1 xs1" using env_run_evolves by blast
  have "keeps st st1" "p2p_ok st1 xs1"
    using keeps_trans [OF keeps_printf [OF ok] keeps_evolves [OF 1(2)]] 1(2)
    by (auto simp: evolves_def)
  then show ?thesis by (rule that) (subst main_loop.simps loop_waits.simps, simp add: r 1(1))+
qed

text \<open>What the theorem below says of a call of \<open>main_loop\<close>, and one round of the loop.\<close>

definition loop_good :: "(nat \<Rightarrow> round_env) \<Rightarrow> nat \<Rightarrow> string \<Rightarrow> p2p \<Rightarrow> bool" where
  "loop_good env k inp st \<longleftrightarrow>
     (main_loop env k inp st = None \<longleftrightarrow> loop_waits env k inp st) \<and>
     (loop_waits env k inp st \<longrightarrow> (\<exists>buf \<in> set (fgets_all inp). waits (command_of buf))) \<and>
     (\<forall>q st'. main_loop env k inp st = Some (q, st') \<longrightarrow>
       (q \<longleftrightarrow> (\<exists>buf \<in> set (fgets_all inp). command_of buf = C_exit)) \<and>
       (if q then heap st' = Map.empty \<and> conn_head st' = None
        else running st' \<and> (\<exists>xs'. p2p_ok st' xs')))"

lemma loop_good_line:
  assumes ok: "p2p_ok st1 xs1" and fresh: "malloc_fresh (ce_malloc (re_connect (env k)))"
    and line: "fgets LINE_SIZE inp = Some (buf, rest)"
    and eq: "main_loop env k inp st = (case main_line (env k) buf st1 of
        None \<Rightarrow> None
      | Some (quit, st2) \<Rightarrow> if quit then Some (True, st2) else main_loop env (Suc k) rest st2)"
    and wq: "loop_waits env k inp st \<longleftrightarrow> line_waits (env k) buf st1 \<or>
        (case main_line (env k) buf st1 of Some (False, st2) \<Rightarrow> loop_waits env (Suc k) rest st2 | _ \<Rightarrow> False)"
    and later: "\<And>st2. keeps st1 st2 \<Longrightarrow> loop_good env (Suc k) rest st2"
  shows "loop_good env k inp st"
proof -
  have all: "set (fgets_all inp) = insert buf (set (fgets_all rest))"
    using line by (subst fgets_all.simps) simp
  note none = main_line_none [OF ok fresh, of buf] and l = main_line_keeps(2) [OF ok fresh]
  show ?thesis
  proof (cases "main_line (env k) buf st1")
    case None
    with eq wq none all show ?thesis by (auto simp: loop_good_def)
  next
    case (Some r)
    obtain q st2 where r: "r = (q, st2)" by (cases r)
    have nw: "\<not> line_waits (env k) buf st1" using none(1) Some by simp
    have q: "q \<longleftrightarrow> command_of buf = C_exit" using none(2) Some r by simp
    show ?thesis
    proof (cases q)
      case True
      with eq wq Some r nw q l [OF Some [unfolded r]] all show ?thesis by (auto simp: loop_good_def)
    next
      case False
      with l [OF Some [unfolded r]] have "loop_good env (Suc k) rest st2" using later by simp
      with eq wq Some r nw q all False show ?thesis by (auto simp: loop_good_def)
    qed
  qed
qed

lemma loop_good:
  assumes "p2p_ok st xs" "running st" "\<forall>k. malloc_fresh (ce_malloc (re_connect (env k)))"
  shows "loop_good env k inp st"
  using assms(1,2)
proof (induction "length inp" arbitrary: inp k st xs rule: less_induct)
  case less
  have run: "keeps s1 s2 \<Longrightarrow> running s1 \<Longrightarrow> running s2" for s1 s2
    by (auto simp: keeps_def globals_def)
  obtain st1 xs1 where 1: "keeps st st1" "p2p_ok st1 xs1" and
    eq: "main_loop env k inp st = (case fgets LINE_SIZE inp of
        None \<Rightarrow> Some (False, st1)
      | Some (buf, rest) \<Rightarrow>
          (case main_line (env k) buf st1 of
             None \<Rightarrow> None
           | Some (quit, st2) \<Rightarrow> if quit then Some (True, st2) else main_loop env (Suc k) rest st2))" and
    wq: "loop_waits env k inp st \<longleftrightarrow> (case fgets LINE_SIZE inp of
        None \<Rightarrow> False
      | Some (buf, rest) \<Rightarrow> line_waits (env k) buf st1 \<or>
          (case main_line (env k) buf st1 of Some (False, st2) \<Rightarrow> loop_waits env (Suc k) rest st2 | _ \<Rightarrow> False))"
    by (rule main_loop_step [OF less.prems, of env k inp])
  note r1 = run [OF 1(1) less.prems(2)]
  show ?case
  proof (cases "fgets LINE_SIZE inp")
    case None
    then have "fgets_all inp = []" by (subst fgets_all.simps) (simp add: fgets_def)
    moreover have "main_loop env k inp st = Some (False, st1)" "\<not> loop_waits env k inp st"
      using eq wq unfolding None by simp_all
    ultimately show ?thesis using 1 r1 by (auto simp: loop_good_def)
  next
    case (Some p)
    obtain buf rest where p: "p = (buf, rest)" by (cases p)
    have lt: "length rest < length inp"
      by (rule fgets_shrinks [of LINE_SIZE]) (use Some p in \<open>simp_all add: LINE_SIZE_def\<close>)
    show ?thesis
    proof (rule loop_good_line [OF 1(2) _ Some [unfolded p]])
      show "malloc_fresh (ce_malloc (re_connect (env k)))" using assms(3) by blast
      show "main_loop env k inp st = (case main_line (env k) buf st1 of None \<Rightarrow> None
        | Some (quit, st2) \<Rightarrow> if quit then Some (True, st2) else main_loop env (Suc k) rest st2)"
        using eq Some p by simp
      show "loop_waits env k inp st \<longleftrightarrow> line_waits (env k) buf st1 \<or>
          (case main_line (env k) buf st1 of Some (False, st2) \<Rightarrow> loop_waits env (Suc k) rest st2 | _ \<Rightarrow> False)"
        using wq Some p by simp
      show "loop_good env (Suc k) rest st2" if "keeps st1 st2" for st2
        using less.hyps [OF lt] run [OF that r1] that by (auto simp: keeps_def)
    qed
  qed
qed

text \<open>
  C3: the command loop, on every input and whatever the other threads and the system calls do: no walk through
  the list comes to freed memory, and the loop fails to come back exactly when it comes to a \<open>terminate\<close> of a known
  connection or an \<open>exit\<close> that waits for a thread that does not return; so it comes back on every input without
  these two commands. It comes back by \<open>exit\<close> exactly when a line of the input is that command, and then every connection is
  freed; otherwise it has read the input to its end, the list is still well formed and \<open>running\<close> is as before.
\<close>

theorem main_loop_outcome:
  assumes "p2p_ok st xs" "running st" "\<forall>k. malloc_fresh (ce_malloc (re_connect (env k)))"
  shows "(main_loop env k inp st = None \<longleftrightarrow> loop_waits env k inp st) \<and>
    ((\<forall>buf \<in> set (fgets_all inp). \<not> waits (command_of buf)) \<longrightarrow>
      (\<exists>st'. main_loop env k inp st = Some (False, st'))) \<and>
    (\<forall>q st'. main_loop env k inp st = Some (q, st') \<longrightarrow>
      (q \<longleftrightarrow> (\<exists>buf \<in> set (fgets_all inp). command_of buf = C_exit)) \<and>
      (if q then heap st' = Map.empty \<and> conn_head st' = None
       else running st' \<and> (\<exists>xs'. p2p_ok st' xs')))"
proof -
  have g: "loop_good env k inp st" by (rule loop_good [OF assms])
  have "\<exists>st'. main_loop env k inp st = Some (False, st')"
    if no: "\<forall>buf \<in> set (fgets_all inp). \<not> waits (command_of buf)"
  proof -
    obtain q st' where r: "main_loop env k inp st = Some (q, st')" using g no by (fastforce simp: loop_good_def)
    moreover have "command_of buf \<noteq> C_exit" if "buf \<in> set (fgets_all inp)" for buf
      using no that by (auto simp: waits_def)
    ultimately show ?thesis using g by (auto simp: loop_good_def)
  qed
  with g show ?thesis unfolding loop_good_def by blast
qed

text \<open>
  Three runs: without a command that waits; with a \<open>terminate\<close> of an id that is not in the list, which does not
  wait; and with one of connection 2, whose thread never returns.
\<close>

lemma main_loop_outcome_witness:
  fixes env :: "env_act list \<Rightarrow> nat \<Rightarrow> round_env"
  defines "env \<equiv> \<lambda>idle k. \<lparr>re_idle = idle, re_reap = [], re_list = [], re_join = [],
     re_connect = demo_env, re_sent = 0, re_errno = 0\<rparr>"
  shows "(\<exists>st'. main_loop (env [Env_recv 11 [Rx []]]) 0 ''myport'' demo = Some (False, st')) \<and>
    main_loop (env []) 0 ''terminate 99'' demo \<noteq> None \<and> main_loop (env []) 0 ''terminate 2'' demo = None"
proof -
  have f: "malloc_fresh (ce_malloc (re_connect (env idle k)))" for idle k by (simp add: env_def)
  note t = main_loop_outcome [OF demo_ok, of "env _", OF _ allI, OF _ f]
  have "fgets_all ''myport'' = [''myport'']" "\<not> waits (command_of ''myport'')" by code_simp+
  then have 1: "\<exists>st'. main_loop (env [Env_recv 11 [Rx []]]) 0 ''myport'' demo = Some (False, st')"
    using t [of "[Env_recv 11 [Rx []]]" 0 "''myport''"] by simp
  have "\<not> loop_waits (env []) 0 ''terminate 99'' demo" unfolding env_def by code_simp
  moreover have "loop_waits (env []) 0 ''terminate 2'' demo" unfolding env_def by code_simp
  ultimately show ?thesis
    using 1 t [of "[]" 0 "''terminate 99''"] t [of "[]" 0 "''terminate 2''"] by simp
qed

end
