(* ===== verification/Restaurant.thy ===== *)
theory Restaurant
  imports Prelude
begin

text \<open>
  The restaurant of \<open>S10_IPC_Semafore\<close>: two trays in shared memory, each with a mutex and two counting
  semaphores, two chef processes and three customer processes. The one-shot operations
  (\<open>chef.c\<close>, \<open>consumer.c\<close>) are functions on the shared data; the endless loops of the five processes are
  a step function for one process between two semaphore operations and the step relation of all of
  them. A \<open>sem_wait\<close> on a semaphore at 0 blocks: \<open>None\<close>.
\<close>

section \<open>Shared data\<close>

definition TRAY_SIZE :: nat where
  "TRAY_SIZE = 10"

datatype food = EMPTY | VEGAN | NON_VEGAN

record shared_data =
  vegan_tray :: "food list"
  nonvegan_tray :: "food list"
  vegan_mutex :: nat
  vegan_empty :: nat
  vegan_full :: nat
  non_mutex :: nat
  non_empty :: nat
  non_full :: nat

text \<open>\<open>memset\<close> of the trays and the six \<open>sem_init\<close>; the memory may hold anything before.\<close>

definition init_shared_memory :: "shared_data \<Rightarrow> shared_data" where
  "init_shared_memory d = d\<lparr>vegan_tray := replicate TRAY_SIZE EMPTY,
     nonvegan_tray := replicate TRAY_SIZE EMPTY,
     vegan_mutex := 1, vegan_empty := TRAY_SIZE, vegan_full := 0,
     non_mutex := 1, non_empty := TRAY_SIZE, non_full := 0\<rparr>"

definition sem_wait :: "nat \<Rightarrow> nat option" where
  "sem_wait n = (if n = 0 then None else Some (n - 1))"

definition sem_post :: "nat \<Rightarrow> nat" where
  "sem_post n = n + 1"

text \<open>
  \<open>for (i = 0; i < TRAY_SIZE; i++) if (tray[i] == from) { tray[i] = to; success = 1; break; }\<close>: from
  index \<open>i\<close> on.
\<close>

function replace_first :: "food \<Rightarrow> food \<Rightarrow> nat \<Rightarrow> food list \<Rightarrow> bool \<times> food list" where
  "replace_first frm to i tray =
     (if i < TRAY_SIZE then
        (if tray ! i = frm then (True, tray[i := to]) else replace_first frm to (Suc i) tray)
      else (False, tray))"
  by pat_completeness auto
termination
  by (relation "measure (\<lambda>(frm, to, i, tray). TRAY_SIZE - i)") auto

declare replace_first.simps [simp del]

section \<open>The one-shot operations\<close>

definition add_vegan_dish_once :: "shared_data \<Rightarrow> (bool \<times> shared_data) option" where
  "add_vegan_dish_once d =
     Option.bind (sem_wait (vegan_empty d)) (\<lambda>e.
     Option.bind (sem_wait (vegan_mutex d)) (\<lambda>m.
       let (success, tray) = replace_first EMPTY VEGAN 0 (vegan_tray d)
       in Some (success, d\<lparr>vegan_tray := tray, vegan_empty := e, vegan_mutex := sem_post m,
                           vegan_full := sem_post (vegan_full d)\<rparr>)))"

text \<open>The non-vegan function posts \<open>non_empty\<close>, not \<open>non_full\<close>, at the end.\<close>

definition add_nonvegan_dish_once :: "shared_data \<Rightarrow> (bool \<times> shared_data) option" where
  "add_nonvegan_dish_once d =
     Option.bind (sem_wait (non_empty d)) (\<lambda>e.
     Option.bind (sem_wait (non_mutex d)) (\<lambda>m.
       let (success, tray) = replace_first EMPTY NON_VEGAN 0 (nonvegan_tray d)
       in Some (success, d\<lparr>nonvegan_tray := tray, non_mutex := sem_post m,
                           non_empty := sem_post e\<rparr>)))"

definition eat_vegan_once :: "shared_data \<Rightarrow> (bool \<times> shared_data) option" where
  "eat_vegan_once d =
     Option.bind (sem_wait (vegan_full d)) (\<lambda>f.
     Option.bind (sem_wait (vegan_mutex d)) (\<lambda>m.
       let (success, tray) = replace_first VEGAN EMPTY 0 (vegan_tray d)
       in Some (success, d\<lparr>vegan_tray := tray, vegan_full := f, vegan_mutex := sem_post m,
                           vegan_empty := sem_post (vegan_empty d)\<rparr>)))"

definition eat_nonvegan_once :: "shared_data \<Rightarrow> (bool \<times> shared_data) option" where
  "eat_nonvegan_once d =
     Option.bind (sem_wait (non_full d)) (\<lambda>f.
     Option.bind (sem_wait (non_mutex d)) (\<lambda>m.
       let (success, tray) = replace_first NON_VEGAN EMPTY 0 (nonvegan_tray d)
       in Some (success, d\<lparr>nonvegan_tray := tray, non_full := f, non_mutex := sem_post m,
                           non_empty := sem_post (non_empty d)\<rparr>)))"

text \<open>The two numbers \<open>print_tray_status\<close> prints.\<close>

definition tray_status :: "shared_data \<Rightarrow> nat \<times> nat" where
  "tray_status d = (length (filter (\<lambda>x. x \<noteq> EMPTY) (vegan_tray d)),
                    length (filter (\<lambda>x. x \<noteq> EMPTY) (nonvegan_tray d)))"

section \<open>The processes\<close>

text \<open>
  Both trays are handled by the same code on their own fields; \<open>side\<close> selects the fields.
\<close>

datatype side = Veg | Non

fun tray_of :: "side \<Rightarrow> shared_data \<Rightarrow> food list" where
  "tray_of Veg d = vegan_tray d" | "tray_of Non d = nonvegan_tray d"

fun mutex_of :: "side \<Rightarrow> shared_data \<Rightarrow> nat" where
  "mutex_of Veg d = vegan_mutex d" | "mutex_of Non d = non_mutex d"

fun empty_of :: "side \<Rightarrow> shared_data \<Rightarrow> nat" where
  "empty_of Veg d = vegan_empty d" | "empty_of Non d = non_empty d"

fun full_of :: "side \<Rightarrow> shared_data \<Rightarrow> nat" where
  "full_of Veg d = vegan_full d" | "full_of Non d = non_full d"

fun set_tray :: "side \<Rightarrow> food list \<Rightarrow> shared_data \<Rightarrow> shared_data" where
  "set_tray Veg x d = d\<lparr>vegan_tray := x\<rparr>" | "set_tray Non x d = d\<lparr>nonvegan_tray := x\<rparr>"

fun set_mutex :: "side \<Rightarrow> nat \<Rightarrow> shared_data \<Rightarrow> shared_data" where
  "set_mutex Veg x d = d\<lparr>vegan_mutex := x\<rparr>" | "set_mutex Non x d = d\<lparr>non_mutex := x\<rparr>"

fun set_empty :: "side \<Rightarrow> nat \<Rightarrow> shared_data \<Rightarrow> shared_data" where
  "set_empty Veg x d = d\<lparr>vegan_empty := x\<rparr>" | "set_empty Non x d = d\<lparr>non_empty := x\<rparr>"

fun set_full :: "side \<Rightarrow> nat \<Rightarrow> shared_data \<Rightarrow> shared_data" where
  "set_full Veg x d = d\<lparr>vegan_full := x\<rparr>" | "set_full Non x d = d\<lparr>non_full := x\<rparr>"

fun dish_of :: "side \<Rightarrow> food" where
  "dish_of Veg = VEGAN" | "dish_of Non = NON_VEGAN"

text \<open>
  One round of a loop is an operation: \<open>Add\<close> (the body of \<open>chef_vegan\<close>, \<open>chef_nonvegan\<close>) or \<open>Eat\<close> (the
  calls of \<open>eat_vegan_once\<close>, \<open>eat_nonvegan_once\<close> in the customers). The program counter says which
  semaphore operation comes next; \<open>Scan i\<close> is the search loop at index \<open>i\<close>, \<open>Release b\<close> and \<open>Signal b\<close>
  the two \<open>sem_post\<close> after it, with the success flag.
\<close>

datatype action = Add | Eat
datatype pc = Start | Lock_tray | Scan nat | Release bool | Signal bool

type_synonym job = "action \<times> side"

definition from_food :: "job \<Rightarrow> food" where
  "from_food j = (case j of (Add, s) \<Rightarrow> EMPTY | (Eat, s) \<Rightarrow> dish_of s)"

definition to_food :: "job \<Rightarrow> food" where
  "to_food j = (case j of (Add, s) \<Rightarrow> dish_of s | (Eat, s) \<Rightarrow> EMPTY)"

definition job_step :: "job \<Rightarrow> pc \<Rightarrow> shared_data \<Rightarrow> (pc \<times> shared_data) option" where
  "job_step j p d =
     (let s = snd j in
      case p of
        Start \<Rightarrow>
          (case fst j of
             Add \<Rightarrow> map_option (\<lambda>n. (Lock_tray, set_empty s n d)) (sem_wait (empty_of s d))
           | Eat \<Rightarrow> map_option (\<lambda>n. (Lock_tray, set_full s n d)) (sem_wait (full_of s d)))
      | Lock_tray \<Rightarrow> map_option (\<lambda>n. (Scan 0, set_mutex s n d)) (sem_wait (mutex_of s d))
      | Scan i \<Rightarrow>
          if i < TRAY_SIZE then
            (if tray_of s d ! i = from_food j
             then Some (Release True, set_tray s ((tray_of s d)[i := to_food j]) d)
             else Some (Scan (Suc i), d))
          else Some (Release False, d)
      | Release b \<Rightarrow> Some (Signal b, set_mutex s (sem_post (mutex_of s d)) d)
      | Signal b \<Rightarrow>
          (case fst j of
             Add \<Rightarrow> Some (Start, set_full s (sem_post (full_of s d)) d)
           | Eat \<Rightarrow> Some (Start, set_empty s (sem_post (empty_of s d)) d)))"

text \<open>
  A process repeats its list of jobs: \<open>prog ! k\<close> is the current one. The five processes in the order
  \<open>main\<close> forks them.
\<close>

record proc =
  prog :: "job list"
  cur :: nat
  at :: pc

definition job_of :: "proc \<Rightarrow> job" where
  "job_of p = prog p ! cur p"

definition programs :: "job list list" where
  "programs = [[(Add, Non)], [(Add, Veg)], [(Eat, Non)], [(Eat, Veg)], [(Eat, Veg), (Eat, Non)]]"

record kitchen =
  data :: shared_data
  procs :: "proc list"

definition kitchen_start :: "shared_data \<Rightarrow> kitchen" where
  "kitchen_start d = \<lparr>data = init_shared_memory d,
     procs = map (\<lambda>js. \<lparr>prog = js, cur = 0, at = Start\<rparr>) programs\<rparr>"

definition advance :: "proc \<Rightarrow> pc \<Rightarrow> proc" where
  "advance p c = (case at p of
      Signal b \<Rightarrow> p\<lparr>at := c, cur := (if Suc (cur p) < length (prog p) then Suc (cur p) else 0)\<rparr>
    | _ \<Rightarrow> p\<lparr>at := c\<rparr>)"

definition proc_step :: "nat \<Rightarrow> kitchen \<Rightarrow> kitchen option" where
  "proc_step i k =
     (let p = procs k ! i in
      map_option (\<lambda>(c, d). \<lparr>data = d, procs = (procs k)[i := advance p c]\<rparr>)
        (job_step (job_of p) (at p) (data k)))"

inductive kitchen_step :: "kitchen \<Rightarrow> kitchen \<Rightarrow> bool" where
  kitchen_stepI: "i < length (procs k) \<Longrightarrow> proc_step i k = Some k' \<Longrightarrow> kitchen_step k k'"

inductive_cases kitchen_stepE: "kitchen_step k k'"

definition kitchen_init :: "kitchen \<Rightarrow> bool" where
  "kitchen_init k \<longleftrightarrow> (\<exists>d. k = kitchen_start d)"

section \<open>main\<close>

text \<open>
  \<open>main\<close> stores what the five calls of \<open>fork\<close> return in the parent, prints the trays every ten seconds
  and cleans up when the clock says that 60 seconds have passed. A failed \<open>fork\<close> stores -1 and is not
  noticed. The readings of \<open>time (NULL)\<close> are a list; \<open>None\<close> is a run that has not come to the end.
\<close>

datatype main_event =
    Status nat nat
  | Finished_msg
  | Cleaning_msg
  | Sigint_msg
  | Kill int
  | Wait int
  | Shm_unlink

definition cleanup_all :: "int list \<Rightarrow> bool \<Rightarrow> main_event list" where
  "cleanup_all children have_data =
     Cleaning_msg # map Kill children @ map Wait children @ (if have_data then [Shm_unlink] else [])"

definition handle_sigint :: "int list \<Rightarrow> bool \<Rightarrow> main_event list" where
  "handle_sigint children have_data = Sigint_msg # cleanup_all children have_data"

text \<open>Each round sees the shared data of that moment and the clock.\<close>

fun parent_loop :: "int list \<Rightarrow> int \<Rightarrow> (shared_data \<times> int) list \<Rightarrow> main_event list option" where
  "parent_loop children start [] = None"
| "parent_loop children start ((d, now) # rounds) =
     (let status = (case tray_status d of (v, n) \<Rightarrow> Status v n) in
      if now - start \<ge> 60 then Some (status # Finished_msg # cleanup_all children True)
      else map_option (Cons status) (parent_loop children start rounds))"

end
