(* ===== verification/Restaurant_Inv.thy ===== *)
theory Restaurant_Inv
  imports Restaurant
begin

text \<open>
  The invariant of the restaurant and its consequences: no two processes are at one tray at the same
  time, the semaphores count the free places and the dishes, a chef that got past its semaphore
  finds a free place and a customer a dish, and some process can always move.
\<close>

section \<open>Reading after writing the shared data\<close>

lemma side_fields [simp]:
  "tray_of s (set_mutex t x d) = tray_of s d" "tray_of s (set_empty t x d) = tray_of s d"
  "tray_of s (set_full t x d) = tray_of s d"
  "mutex_of s (set_tray t y d) = mutex_of s d" "mutex_of s (set_empty t x d) = mutex_of s d"
  "mutex_of s (set_full t x d) = mutex_of s d"
  "empty_of s (set_tray t y d) = empty_of s d" "empty_of s (set_mutex t x d) = empty_of s d"
  "empty_of s (set_full t x d) = empty_of s d"
  "full_of s (set_tray t y d) = full_of s d" "full_of s (set_mutex t x d) = full_of s d"
  "full_of s (set_empty t x d) = full_of s d"
  "tray_of s (set_tray t y d) = (if s = t then y else tray_of s d)"
  "mutex_of s (set_mutex t x d) = (if s = t then x else mutex_of s d)"
  "empty_of s (set_empty t x d) = (if s = t then x else empty_of s d)"
  "full_of s (set_full t x d) = (if s = t then x else full_of s d)"
  by (cases s; cases t; simp)+

lemma dish_not_empty [simp]: "dish_of s \<noteq> EMPTY" "EMPTY \<noteq> dish_of s"
  by (cases s; simp)+

lemma food_of_job [simp]:
  "from_food (Add, s) = EMPTY" "from_food (Eat, s) = dish_of s"
  "to_food (Add, s) = dish_of s" "to_food (Eat, s) = EMPTY"
  by (simp_all add: from_food_def to_food_def)

section \<open>Who holds what\<close>

type_synonym view = "job \<times> pc"

definition at_tray :: "pc \<Rightarrow> bool" where
  "at_tray c = (case c of Lock_tray \<Rightarrow> True | Scan i \<Rightarrow> True | _ \<Rightarrow> False)"

definition finished_scan :: "pc \<Rightarrow> bool" where
  "finished_scan c = (case c of Release b \<Rightarrow> True | Signal b \<Rightarrow> True | _ \<Rightarrow> False)"

definition pending :: "action \<Rightarrow> side \<Rightarrow> view \<Rightarrow> bool" where
  "pending a s v \<longleftrightarrow> fst v = (a, s) \<and> at_tray (snd v)"

definition done_by :: "action \<Rightarrow> side \<Rightarrow> view \<Rightarrow> bool" where
  "done_by a s v \<longleftrightarrow> fst v = (a, s) \<and> finished_scan (snd v)"

definition critical :: "side \<Rightarrow> view \<Rightarrow> bool" where
  "critical s v \<longleftrightarrow> snd (fst v) = s \<and> (case snd v of Scan i \<Rightarrow> True | Release b \<Rightarrow> True | _ \<Rightarrow> False)"

definition view_of :: "proc \<Rightarrow> view" where
  "view_of p = (job_of p, at p)"

definition views :: "kitchen \<Rightarrow> view list" where
  "views k = map view_of (procs k)"

lemma holder_simps [simp]:
  "pending a s ((b, t), Start) = False" "done_by a s ((b, t), Start) = False"
  "critical s ((b, t), Start) = False"
  "pending a s ((b, t), Lock_tray) = (a = b \<and> s = t)" "done_by a s ((b, t), Lock_tray) = False"
  "critical s ((b, t), Lock_tray) = False"
  "pending a s ((b, t), Scan i) = (a = b \<and> s = t)" "done_by a s ((b, t), Scan i) = False"
  "critical s ((b, t), Scan i) = (s = t)"
  "pending a s ((b, t), Release f) = False" "done_by a s ((b, t), Release f) = (a = b \<and> s = t)"
  "critical s ((b, t), Release f) = (s = t)"
  "pending a s ((b, t), Signal f) = False" "done_by a s ((b, t), Signal f) = (a = b \<and> s = t)"
  "critical s ((b, t), Signal f) = False"
  by (auto simp: pending_def done_by_def critical_def at_tray_def finished_scan_def)

section \<open>The invariant\<close>

text \<open>
  A tray has \<open>TRAY_SIZE\<close> places, empty or with a dish of its kind; the empty places are those
  \<open>empty\<close> counts, those promised to a chef on its way and those a customer has just emptied; the same
  for dishes and \<open>full\<close>; and the mutex is held by exactly one process or free.
\<close>

definition side_ok :: "side \<Rightarrow> shared_data \<Rightarrow> view list \<Rightarrow> bool" where
  "side_ok s d vs \<longleftrightarrow>
     length (tray_of s d) = TRAY_SIZE \<and> set (tray_of s d) \<subseteq> {EMPTY, dish_of s} \<and>
     cnt ((=) EMPTY) (tray_of s d) = empty_of s d + cnt (pending Add s) vs + cnt (done_by Eat s) vs \<and>
     cnt ((=) (dish_of s)) (tray_of s d) = full_of s d + cnt (pending Eat s) vs + cnt (done_by Add s) vs \<and>
     mutex_of s d + cnt (critical s) vs = 1"

text \<open>A search has not missed a place, and no search has failed.\<close>

definition view_ok :: "shared_data \<Rightarrow> view \<Rightarrow> bool" where
  "view_ok d v = (case snd v of
      Scan i \<Rightarrow> i \<le> TRAY_SIZE \<and> (\<forall>n < i. tray_of (snd (fst v)) d ! n \<noteq> from_food (fst v))
    | Release b \<Rightarrow> b
    | Signal b \<Rightarrow> b
    | _ \<Rightarrow> True)"

definition proc_ok :: "proc \<Rightarrow> bool" where
  "proc_ok p \<longleftrightarrow> cur p < length (prog p)"

definition kitchen_inv :: "kitchen \<Rightarrow> bool" where
  "kitchen_inv k \<longleftrightarrow> map prog (procs k) = programs \<and> list_all proc_ok (procs k) \<and>
     (\<forall>s. side_ok s (data k) (views k)) \<and> list_all (view_ok (data k)) (views k)"

section \<open>A step of one process keeps it\<close>

text \<open>The other tray is not touched.\<close>

lemma job_step_other:
  assumes "job_step j c d = Some (c', d')" "s \<noteq> snd j"
  shows "tray_of s d' = tray_of s d" "mutex_of s d' = mutex_of s d" "empty_of s d' = empty_of s d"
    "full_of s d' = full_of s d"
  using assms
  by (auto simp: job_step_def Let_def split: pc.splits action.splits if_splits)

lemma side_ok_other:
  assumes "side_ok s d vs" "i < length vs" "vs ! i = (j, c)" "job_step j c d = Some (c', d')"
    "s \<noteq> snd j" "snd j' = snd j \<or> c' = Start"
  shows "side_ok s d' (vs[i := (j', c')])"
proof -
  note u = cnt_update [OF assms(2), where y = "(j', c')", unfolded assms(3)]
  have "\<not> pending a s (j, c) \<and> \<not> done_by a s (j, c) \<and> \<not> critical s (j, c)" for a
    using assms(5) by (cases j) (auto simp: pending_def done_by_def critical_def)
  moreover have "\<not> pending a s (j', c') \<and> \<not> done_by a s (j', c') \<and> \<not> critical s (j', c')" for a
    using assms(5,6)
    by (cases j') (auto simp: pending_def done_by_def critical_def at_tray_def finished_scan_def)
  ultimately have "cnt (pending a s) (vs[i := (j', c')]) = cnt (pending a s) vs \<and>
      cnt (done_by a s) (vs[i := (j', c')]) = cnt (done_by a s) vs \<and>
      cnt (critical s) (vs[i := (j', c')]) = cnt (critical s) vs" for a
    using u [of "pending a s"] u [of "done_by a s"] u [of "critical s"] by simp
  then show ?thesis using assms(1) job_step_other [OF assms(4,5)] by (simp add: side_ok_def)
qed

text \<open>A search that has passed its semaphore ends at a place.\<close>

lemma scan_finds:
  assumes "side_ok s d vs" "((a, s), Scan n) \<in> set vs" "view_ok d ((a, s), Scan n)"
  shows "n < TRAY_SIZE"
proof (rule ccontr)
  assume "\<not> n < TRAY_SIZE"
  then have n: "\<forall>m < TRAY_SIZE. tray_of s d ! m \<noteq> from_food (a, s)"
    using assms(3) by (simp add: view_ok_def)
  have len: "length (tray_of s d) = TRAY_SIZE" using assms(1) by (simp add: side_ok_def)
  have zero: "cnt ((=) (from_food (a, s))) (tray_of s d) = 0"
    using n len by (auto simp: cnt_zero_nth)
  have "cnt (pending a s) vs \<noteq> 0" using assms(2)
    by (auto simp: cnt_0_iff intro!: bexI [of _ "((a, s), Scan n)"])
  then show False using assms(1) zero by (cases a) (simp_all add: side_ok_def)
qed

lemma side_ok_step:
  assumes "side_ok s d vs" "i < length vs" "vs ! i = ((a, s), c)"
    "job_step (a, s) c d = Some (c', d')" "view_ok d ((a, s), c)"
    "j' = (a, s) \<or> c' = Start"
  shows "side_ok s d' (vs[i := (j', c')])"
proof -
  note u = cnt_update [OF assms(2), where y = "(j', c')", unfolded assms(3)]
  note us = u [of "pending Add s"] u [of "pending Eat s"] u [of "done_by Add s"]
    u [of "done_by Eat s"] u [of "critical s"]
  obtain b t where j': "j' = (b, t)" by (cases j')
  show ?thesis
  proof (cases c)
    case Start
    then show ?thesis using assms(1,4,6) us j'
      by (cases a) (auto simp: job_step_def sem_wait_def side_ok_def split: if_splits)
  next
    case Lock_tray
    then show ?thesis using assms(1,4,6) us j'
      by (cases a) (auto simp: job_step_def sem_wait_def side_ok_def split: if_splits)
  next
    case (Scan n)
    have mem: "((a, s), Scan n) \<in> set vs" using assms(2,3) Scan nth_mem [of i vs] by simp
    have n: "n < TRAY_SIZE"
      using scan_finds [OF assms(1) mem] assms(5) Scan by simp
    have len: "length (tray_of s d) = TRAY_SIZE" using assms(1) by (simp add: side_ok_def)
    show ?thesis
    proof (cases "tray_of s d ! n = from_food (a, s)")
      case False
      then show ?thesis using Scan n assms(1,4,6) us j'
        by (cases a) (auto simp: job_step_def side_ok_def)
    next
      case True
      let ?t = "(tray_of s d)[n := to_food (a, s)]"
      have s': "c' = Release True" "d' = set_tray s ?t d"
        using Scan n True assms(4) by (simp_all add: job_step_def)
      have "cnt ((=) x) ?t + of_bool (x = from_food (a, s)) =
          cnt ((=) x) (tray_of s d) + of_bool (x = to_food (a, s))" for x
        using cnt_update [of n "tray_of s d" "(=) x" "to_food (a, s)"] n len True by simp
      note t = this [of EMPTY] this [of "dish_of s"]
      have "set ?t \<subseteq> {EMPTY, dish_of s}"
        using assms(1) set_update_subset_insert [of "tray_of s d" n "to_food (a, s)"]
        by (cases a) (auto simp: side_ok_def)
      then show ?thesis using t us s' Scan assms(1,6) j' len
        by (cases a) (simp_all add: side_ok_def)
    qed
  next
    case (Release f)
    then show ?thesis using assms(1,4,6) us j'
      by (cases a) (auto simp: job_step_def sem_post_def side_ok_def)
  next
    case (Signal f)
    then show ?thesis using assms(1,4,6) us j'
      by (cases a) (auto simp: job_step_def sem_post_def side_ok_def)
  qed
qed

lemma job_step_view:
  assumes "side_ok s d vs" "i < length vs" "vs ! i = ((a, s), c)"
    "job_step (a, s) c d = Some (c', d')" "view_ok d ((a, s), c)" "j' = (a, s) \<or> c' = Start"
  shows "view_ok d' (j', c')"
proof (cases c)
  case (Scan n)
  have mem: "((a, s), Scan n) \<in> set vs" using assms(2,3) Scan nth_mem [of i vs] by simp
  have n: "n < TRAY_SIZE" using scan_finds [OF assms(1) mem] assms(5) Scan by simp
  then show ?thesis using assms(4-6) Scan
    by (auto simp: job_step_def view_ok_def less_Suc_eq split: if_splits)
qed (use assms(4-6) in \<open>auto simp: job_step_def view_ok_def split: action.splits if_splits\<close>)

lemma job_step_others:
  assumes ok: "side_ok s d vs" and i: "i < length vs" "vs ! i = ((a, s), c)"
    and step: "job_step (a, s) c d = Some (c', d')"
    and k: "k < length vs" "k \<noteq> i" "view_ok d (vs ! k)"
  shows "view_ok d' (vs ! k)"
proof (cases "tray_of s d' = tray_of s d")
  case True
  then have "tray_of t d' = tray_of t d" for t
    using job_step_other(1) [OF step, of t] by (cases "t = s") auto
  then show ?thesis using k(3) by (cases "snd (vs ! k)") (simp_all add: view_ok_def)
next
  case False
  then obtain n where n: "c = Scan n"
    using step by (auto simp: job_step_def split: pc.splits action.splits)
  obtain b t e where v: "vs ! k = ((b, t), e)" by (cases "vs ! k") auto
  show ?thesis
  proof (cases "t = s \<and> (\<exists>m. e = Scan m)")
    case True
    then have "critical s (vs ! k)" "critical s (vs ! i)" using v i(2) n by auto
    then have "2 \<le> cnt (critical s) vs" using cnt_two [OF k(1) i(1) k(2)] by blast
    then show ?thesis using ok by (simp add: side_ok_def)
  next
    case False
    then show ?thesis using k(3) v job_step_other(1) [OF step, of t]
      by (auto simp: view_ok_def split: pc.splits)
  qed
qed

lemma advance_fields [simp]:
  "prog (advance p c) = prog p" "at (advance p c) = c"
  "proc_ok p \<Longrightarrow> proc_ok (advance p c)"
  by (auto simp: advance_def proc_ok_def split: pc.split)

lemma advance_job:
  assumes "job_step (job_of p) (at p) d = Some (c', d')"
  shows "job_of (advance p c') = job_of p \<or> c' = Start"
  using assms by (auto simp: advance_def job_of_def job_step_def Let_def split: pc.splits action.splits)

lemma kitchen_inv_step:
  assumes inv: "kitchen_inv k" and step: "kitchen_step k k'"
  shows "kitchen_inv k'"
  using step
proof (rule kitchen_stepE)
  fix i
  assume i: "i < length (procs k)" "proc_step i k = Some k'"
  let ?p = "procs k ! i" and ?vs = "views k"
  obtain c' d' where s: "job_step (job_of ?p) (at ?p) (data k) = Some (c', d')"
    "k' = \<lparr>data = d', procs = (procs k)[i := advance ?p c']\<rparr>"
    using i(2) by (auto simp: proc_step_def Let_def)
  obtain a t where j: "job_of ?p = (a, t)" by (cases "job_of ?p")
  let ?j = "job_of (advance ?p c')"
  have vs: "views k' = ?vs[i := (?j, c')]" by (simp add: s(2) views_def map_update view_of_def)
  have len: "i < length ?vs" and vi: "?vs ! i = ((a, t), at ?p)"
    using i(1) j by (simp_all add: views_def view_of_def)
  have j': "?j = (a, t) \<or> c' = Start" using advance_job [OF s(1)] j by simp
  note step' = s(1) [unfolded j]
  have ok: "side_ok t (data k) ?vs" for t using inv by (simp add: kitchen_inv_def)
  have vok: "n < length ?vs \<Longrightarrow> view_ok (data k) (?vs ! n)" for n
    using inv by (simp add: kitchen_inv_def list_all_length)
  have "side_ok r d' (views k')" for r
  proof (cases "r = t")
    case True
    then show ?thesis
      using side_ok_step [OF ok len vi step' vok [OF len, unfolded vi] j'] by (simp add: vs)
  next
    case False
    then show ?thesis
      unfolding vs by (intro side_ok_other [OF ok len vi step']) (use j' in auto)
  qed
  moreover have "list_all (view_ok d') (views k')"
    unfolding list_all_length vs
    using job_step_view [OF ok len vi step' vok [OF len, unfolded vi] j']
      job_step_others [OF ok len vi step'] vok len
    by (auto simp: nth_list_update [OF len])
  moreover have "map prog (procs k') = programs"
  proof -
    have "map prog (procs k') = (map prog (procs k))[i := map prog (procs k) ! i]"
      using i(1) by (simp add: s(2) map_update)
    then show ?thesis using inv by (simp add: kitchen_inv_def)
  qed
  moreover have "list_all proc_ok (procs k')"
    using inv i(1) by (auto simp: kitchen_inv_def s(2) list_all_length nth_list_update)
  ultimately show ?thesis by (simp add: kitchen_inv_def s(2))
qed

lemma kitchen_inv_start: "kitchen_init k \<Longrightarrow> kitchen_inv k"
proof -
  assume "kitchen_init k"
  then obtain d where k: "k = kitchen_start d" by (auto simp: kitchen_init_def)
  have none: "cnt (pending a s) (views k) = 0" "cnt (done_by a s) (views k) = 0"
    "cnt (critical s) (views k) = 0" for a s
    by (auto simp: k cnt_0_iff views_def view_of_def kitchen_start_def pending_def done_by_def
        critical_def at_tray_def finished_scan_def)
  have "side_ok s (data k) (views k)" for s
    using none by (cases s)
      (auto simp: k side_ok_def kitchen_start_def init_shared_memory_def cnt_replicate)
  moreover have "map prog (procs k) = programs" "list_all proc_ok (procs k)"
    by (simp_all add: k kitchen_start_def proc_ok_def programs_def)
  moreover have "list_all (view_ok (data k)) (views k)"
    by (auto simp: k list_all_iff views_def view_of_def view_ok_def kitchen_start_def)
  ultimately show ?thesis by (simp add: kitchen_inv_def)
qed

interpretation kitchen_sys: invariant_system kitchen_init kitchen_step kitchen_inv
  by unfold_locales (auto intro: kitchen_inv_start kitchen_inv_step)

end
