(* ===== verification/Restaurant_Theorems.thy ===== *)
theory Restaurant_Theorems
  imports Restaurant_Inv
begin

text \<open>
  The properties of the restaurant: safety and progress of the five processes, and the one-shot
  operations against the loops.
\<close>

section \<open>Safety and progress of the processes\<close>

abbreviation kitchen_reach :: "kitchen \<Rightarrow> bool" where
  "kitchen_reach \<equiv> reach kitchen_init kitchen_step"

lemmas reach_side = kitchen_sys.reach_inv [unfolded kitchen_inv_def side_ok_def, THEN conjunct2,
    THEN conjunct2, THEN conjunct1, rule_format]

lemma five_procs:
  assumes "kitchen_inv k"
  shows "length (procs k) = 5"
proof -
  have "length (map prog (procs k)) = length programs" using assms by (simp add: kitchen_inv_def)
  then show ?thesis by (simp add: programs_def)
qed

definition some_data :: shared_data where
  "some_data = \<lparr>vegan_tray = [], nonvegan_tray = [], vegan_mutex = 0, vegan_empty = 0,
     vegan_full = 0, non_mutex = 0, non_empty = 0, non_full = 0\<rparr>"

lemma start_reachable: "kitchen_reach (kitchen_start some_data)"
  by (rule reach_start) (auto simp: kitchen_init_def)

definition after_put :: kitchen where
  "after_put = the (Option.bind (proc_step 1 (kitchen_start some_data)) (\<lambda>k1.
     Option.bind (proc_step 1 k1) (proc_step 1)))"

lemma after_put_reachable: "kitchen_reach after_put"
proof -
  have step: "kitchen_reach k \<Longrightarrow> proc_step 1 k = Some k' \<Longrightarrow> 1 < length (procs k) \<Longrightarrow> kitchen_reach k'"
    for k k' by (rule reach_step) (auto intro: kitchen_stepI)
  obtain k1 where k1: "proc_step 1 (kitchen_start some_data) = Some k1" "length (procs k1) = 5"
    by (simp add: proc_step_def kitchen_start_def job_of_def programs_def job_step_def sem_wait_def
        init_shared_memory_def TRAY_SIZE_def Let_def)
  obtain k2 where k2: "proc_step 1 k1 = Some k2" "length (procs k2) = 5"
    using k1 by (auto simp: proc_step_def kitchen_start_def job_of_def programs_def job_step_def
        sem_wait_def init_shared_memory_def TRAY_SIZE_def Let_def advance_def)
  obtain k3 where k3: "proc_step 1 k2 = Some k3" "length (procs k3) = 5"
    using k1 k2 by (auto simp: proc_step_def kitchen_start_def job_of_def programs_def job_step_def
        sem_wait_def init_shared_memory_def TRAY_SIZE_def Let_def advance_def)
  have "after_put = k3" using k1 k2 k3 by (simp add: after_put_def)
  moreover have "kitchen_reach k1" by (rule step [OF start_reachable k1(1)]) (simp add: kitchen_start_def programs_def)
  then have "kitchen_reach k2" by (rule step [OF _ k2(1)]) (simp add: k1(2))
  then have "kitchen_reach k3" by (rule step [OF _ k3(1)]) (simp add: k2(2))
  ultimately show ?thesis by simp
qed

text \<open>
  C2: in every state the five processes can reach, on each tray at most one process is between its
  \<open>sem_wait\<close> and \<open>sem_post\<close> of the mutex; the tray has ten places with nothing but its own kind of dish;
  and the empty places are those the semaphore \<open>empty\<close> counts, plus one for each chef that has passed
  it and not yet put its dish, plus one for each customer that has taken a dish and not yet posted;
  correspondingly the dishes and \<open>full\<close>.
\<close>

theorem restaurant_safe:
  assumes "kitchen_reach k"
  shows "(\<forall>i < length (procs k). \<forall>j < length (procs k).
      critical s (view_of (procs k ! i)) \<and> critical s (view_of (procs k ! j)) \<longrightarrow> i = j) \<and>
    length (tray_of s (data k)) = TRAY_SIZE \<and> set (tray_of s (data k)) \<subseteq> {EMPTY, dish_of s} \<and>
    cnt ((=) EMPTY) (tray_of s (data k)) =
      empty_of s (data k) + cnt (pending Add s) (views k) + cnt (done_by Eat s) (views k) \<and>
    cnt ((=) (dish_of s)) (tray_of s (data k)) =
      full_of s (data k) + cnt (pending Eat s) (views k) + cnt (done_by Add s) (views k)"
proof -
  note inv = reach_side [OF assms, of s]
  have "i = j" if "i < length (procs k)" "j < length (procs k)"
    "critical s (view_of (procs k ! i))" "critical s (view_of (procs k ! j))" for i j
  proof (rule ccontr)
    assume "i \<noteq> j"
    then have "2 \<le> cnt (critical s) (views k)"
      using that by (intro cnt_two [of i _ j]) (auto simp: views_def)
    with inv show False by simp
  qed
  with inv show ?thesis by blast
qed

lemma restaurant_safe_witness:
  "length (tray_of Veg (data after_put)) = TRAY_SIZE"
  using restaurant_safe [OF after_put_reachable, of Veg] by simp

text \<open>
  C11: no search fails: a chef that has passed \<open>sem_wait (empty)\<close> always finds an empty place and a
  customer that has passed \<open>sem_wait (full)\<close> always finds a dish, before the end of the tray.
\<close>

theorem searches_succeed:
  assumes "kitchen_reach k" "p \<in> set (procs k)"
  shows "at p \<noteq> Release False \<and> at p \<noteq> Signal False \<and> (\<forall>n. at p = Scan n \<longrightarrow> n < TRAY_SIZE)"
proof -
  have inv: "kitchen_inv k" by (rule kitchen_sys.reach_inv [OF assms(1)])
  have v: "view_of p \<in> set (views k)" using assms(2) by (simp add: views_def)
  then have ok: "view_ok (data k) (view_of p)" using inv by (auto simp: kitchen_inv_def list_all_iff)
  obtain a s where j: "job_of p = (a, s)" by (cases "job_of p")
  have "n < TRAY_SIZE" if "at p = Scan n" for n
    using scan_finds [of s "data k" "views k" a n] inv v ok that j
    by (simp add: kitchen_inv_def view_of_def)
  then show ?thesis using ok by (auto simp: view_ok_def view_of_def)
qed

lemma searches_succeed_witness:
  "at (procs after_put ! 1) \<noteq> Release False"
proof -
  have "length (procs after_put) = 5"
    by (rule five_procs [OF kitchen_sys.reach_inv [OF after_put_reachable]])
  then show ?thesis using searches_succeed [OF after_put_reachable, of "procs after_put ! 1"] by simp
qed

lemma step_unless_waiting:
  assumes "i < length (procs k)" "\<nexists>k'. kitchen_step k k'"
  shows "at (procs k ! i) = Start \<or> at (procs k ! i) = Lock_tray"
    "at (procs k ! i) = Lock_tray \<Longrightarrow> mutex_of (snd (job_of (procs k ! i))) (data k) = 0"
    "at (procs k ! i) = Start \<Longrightarrow>
      (if fst (job_of (procs k ! i)) = Add then empty_of (snd (job_of (procs k ! i))) (data k) = 0
       else full_of (snd (job_of (procs k ! i))) (data k) = 0)"
proof -
  let ?p = "procs k ! i"
  have none: "job_step (job_of ?p) (at ?p) (data k) = None"
  proof (rule ccontr)
    assume "job_step (job_of ?p) (at ?p) (data k) \<noteq> None"
    then obtain k' where "proc_step i k = Some k'" by (auto simp: proc_step_def)
    with assms show False by (auto intro: kitchen_stepI)
  qed
  then show "at ?p = Start \<or> at ?p = Lock_tray"
    by (auto simp: job_step_def Let_def split: pc.splits action.splits if_splits)
  show "at ?p = Lock_tray \<Longrightarrow> mutex_of (snd (job_of ?p)) (data k) = 0"
    using none by (auto simp: job_step_def Let_def sem_wait_def split: if_splits)
  show "at ?p = Start \<Longrightarrow> (if fst (job_of ?p) = Add then empty_of (snd (job_of ?p)) (data k) = 0
       else full_of (snd (job_of ?p)) (data k) = 0)"
    using none by (cases "fst (job_of ?p)")
      (auto simp: job_step_def Let_def sem_wait_def split: if_splits)
qed

text \<open>
  C10: the restaurant never comes to a standstill: in every reachable state some process can take its
  next step.
\<close>

theorem restaurant_no_deadlock:
  assumes "kitchen_reach k"
  shows "\<exists>k'. kitchen_step k k'"
proof (rule ccontr)
  assume stuck: "\<nexists>k'. kitchen_step k k'"
  have inv: "kitchen_inv k" by (rule kitchen_sys.reach_inv [OF assms])
  then have progs: "map prog (procs k) = programs" by (simp add: kitchen_inv_def)
  have len: "length (procs k) = 5" by (rule five_procs [OF inv])
  note waiting = step_unless_waiting [OF _ stuck]
  have no_crit: "cnt (critical s) (views k) = 0" for s
    using waiting(1) by (fastforce simp: cnt_zero_nth views_def view_of_def critical_def)
  have start: "at (procs k ! i) = Start" if "i < length (procs k)" for i
    using waiting(1,2) [OF that] reach_side [OF assms, of "snd (job_of (procs k ! i))"] no_crit
    by auto
  have none: "cnt (pending a s) (views k) = 0" "cnt (done_by a s) (views k) = 0" for a s
    using start by (auto simp: cnt_zero_nth views_def view_of_def pending_def done_by_def at_tray_def
        finished_scan_def)
  have job: "job_of (procs k ! 1) = (Add, Veg)" "job_of (procs k ! 3) = (Eat, Veg)"
  proof -
    have pr: "prog (procs k ! i) = programs ! i" if "i < 5" for i
      using that len nth_map [of i "procs k" prog] progs by simp
    have cu: "cur (procs k ! i) < length (prog (procs k ! i))" if "i < 5" for i
      using that len inv by (auto simp: kitchen_inv_def list_all_length proc_ok_def)
    show "job_of (procs k ! 1) = (Add, Veg)"
      using pr [of 1] cu [of 1] by (simp add: job_of_def programs_def)
    show "job_of (procs k ! 3) = (Eat, Veg)"
      using pr [of 3] cu [of 3] by (simp add: job_of_def programs_def)
  qed
  have "empty_of Veg (data k) = 0" "full_of Veg (data k) = 0"
    using waiting(3) [of 1] waiting(3) [of 3] start [of 1] start [of 3] job len by auto
  with reach_side [OF assms, of Veg] none
  have "cnt ((=) EMPTY) (vegan_tray (data k)) = 0" "cnt ((=) VEGAN) (vegan_tray (data k)) = 0"
    "length (vegan_tray (data k)) = TRAY_SIZE" "set (vegan_tray (data k)) \<subseteq> {EMPTY, VEGAN}" by auto
  then show False by (cases "vegan_tray (data k)") (auto simp: TRAY_SIZE_def cnt_0_iff)
qed

lemma restaurant_no_deadlock_witness: "\<exists>k'. kitchen_step after_put k'"
  by (rule restaurant_no_deadlock [OF after_put_reachable])

section \<open>The one-shot operations\<close>

text \<open>One job run to its end with no other process moving, in at most \<open>n\<close> steps.\<close>

fun job_run :: "nat \<Rightarrow> job \<Rightarrow> pc \<Rightarrow> shared_data \<Rightarrow> (bool \<times> shared_data) option" where
  "job_run 0 j c d = None"
| "job_run (Suc n) j c d = Option.bind (job_step j c d) (\<lambda>(c', d').
     case c of Signal b \<Rightarrow> Some (b, d') | _ \<Rightarrow> job_run n j c' d')"

lemma job_run_end:
  "job_run (Suc (Suc n)) (Add, s) (Release b) d =
     Some (b, set_full s (sem_post (full_of s d)) (set_mutex s (sem_post (mutex_of s d)) d))"
  "job_run (Suc (Suc n)) (Eat, s) (Release b) d =
     Some (b, set_empty s (sem_post (empty_of s d)) (set_mutex s (sem_post (mutex_of s d)) d))"
  by (simp_all add: job_step_def)

lemma set_tray_same [simp]: "set_tray s (tray_of s d) d = d"
  by (cases s) simp_all

lemma job_run_scan:
  "i \<le> TRAY_SIZE \<Longrightarrow> job_run (TRAY_SIZE - i + Suc (Suc (Suc n))) j (Scan i) d =
     (case replace_first (from_food j) (to_food j) i (tray_of (snd j) d) of
        (b, t) \<Rightarrow> job_run (Suc (Suc (if b then n + TRAY_SIZE else n))) j (Release b) (set_tray (snd j) t d))"
proof (induction "TRAY_SIZE - i" arbitrary: i)
  case 0
  then have "i = TRAY_SIZE" by simp
  then show ?case by (simp add: job_step_def replace_first.simps)
next
  case (Suc m)
  obtain a s where j: "j = (a, s)" by (cases j)
  from Suc.hyps(2) have i: "i < TRAY_SIZE" by simp
  then have n: "TRAY_SIZE - i + Suc (Suc (Suc n)) = Suc (TRAY_SIZE - Suc i + Suc (Suc (Suc n)))" by simp
  show ?case
  proof (cases "tray_of s d ! i = from_food j")
    case True
    obtain k where k: "TRAY_SIZE - Suc i + Suc (Suc (Suc n)) = Suc (Suc k)" by simp
    show ?thesis unfolding n k using True i j
      by (cases a) (simp_all add: job_step_def job_run_end replace_first.simps del: job_run.simps(2)
          add: job_run.simps(2) [of "Suc (Suc k)"])
  next
    case False
    have "m = TRAY_SIZE - Suc i" using Suc.hyps(2) by simp
    from Suc.hyps(1) [OF this] i False j show ?thesis unfolding n
      by (simp add: job_step_def replace_first.simps [of _ _ i])
  qed
qed

lemma job_run_start:
  "job_run 15 (a, s) Start d =
     Option.bind (sem_wait (if a = Add then empty_of s d else full_of s d)) (\<lambda>x.
     Option.bind (sem_wait (mutex_of s d)) (\<lambda>m.
       (case replace_first (from_food (a, s)) (to_food (a, s)) 0 (tray_of s d) of
          (b, t) \<Rightarrow> Some (b,
            (if a = Add then set_full s (sem_post (full_of s d)) else set_empty s (sem_post (empty_of s d)))
              (set_mutex s (sem_post m) (set_tray s t (set_mutex s m
                ((if a = Add then set_empty s x else set_full s x) d))))))))"
proof -
  have n: "15 = Suc (Suc (Suc (Suc (Suc TRAY_SIZE))))" by (simp add: TRAY_SIZE_def)
  note scan = job_run_scan [of 0 0 "(a, s)"]
  show ?thesis
    unfolding n using scan job_run_end
    by (cases a; cases "sem_wait (if a = Add then empty_of s d else full_of s d)";
        cases "sem_wait (mutex_of s d)")
      (auto simp: job_step_def simp del: job_run.simps(2) split: prod.split
        simp: job_run.simps(2) [of "Suc (Suc (Suc (Suc TRAY_SIZE)))"]
          job_run.simps(2) [of "Suc (Suc (Suc TRAY_SIZE))"])
qed

text \<open>
  C40: the one-shot operations are the rounds of the endless loops: run alone, a round of the vegan
  chef and of each customer ends after at most 15 steps in what \<open>add_vegan_dish_once\<close>, \<open>eat_vegan_once\<close> and
  \<open>eat_nonvegan_once\<close> return, and blocks when they block. \<open>add_nonvegan_dish_once\<close> differs from the round
  of the other chef: it gives back the place it has filled (\<open>non_empty\<close>) and does not announce the dish
  (\<open>non_full\<close>).
\<close>

theorem one_shot_is_loop_round:
  "job_run 15 (Add, Veg) Start d = add_vegan_dish_once d \<and>
   job_run 15 (Eat, Veg) Start d = eat_vegan_once d \<and>
   job_run 15 (Eat, Non) Start d = eat_nonvegan_once d \<and>
   job_run 15 (Add, Non) Start d =
     map_option (\<lambda>(b, d'). (b, d'\<lparr>non_empty := non_empty d' - 1, non_full := non_full d' + 1\<rparr>))
       (add_nonvegan_dish_once d)"
  unfolding job_run_start add_vegan_dish_once_def eat_vegan_once_def eat_nonvegan_once_def
    add_nonvegan_dish_once_def
  by (auto simp: Let_def sem_post_def split: bind_split prod.split)

text \<open>What the search loop does to a tray of ten places.\<close>

lemma replace_first_spec:
  assumes "length tray = TRAY_SIZE" "i \<le> TRAY_SIZE" "\<forall>n < i. tray ! n \<noteq> frm"
  shows "(frm \<in> set tray \<longrightarrow> (\<exists>n < TRAY_SIZE. tray ! n = frm \<and>
      replace_first frm to i tray = (True, tray[n := to]))) \<and>
    (frm \<notin> set tray \<longrightarrow> replace_first frm to i tray = (False, tray))"
  using assms
proof (induction "TRAY_SIZE - i" arbitrary: i)
  case 0
  then have "i = TRAY_SIZE" by simp
  with 0 show ?case by (auto simp: replace_first.simps in_set_conv_nth)
next
  case (Suc m)
  then have i: "i < TRAY_SIZE" by simp
  show ?case
  proof (cases "tray ! i = frm")
    case True
    with i Suc.prems(1) have "frm \<in> set tray" by auto
    with True i show ?thesis by (auto simp: replace_first.simps [of _ _ i])
  next
    case False
    have "m = TRAY_SIZE - Suc i" using Suc.hyps(2) by simp
    from Suc.hyps(1) [OF this Suc.prems(1)] i False Suc.prems(3) show ?thesis
      by (simp add: replace_first.simps [of _ _ i] less_Suc_eq)
  qed
qed

lemma replace_first_cnt:
  assumes "length tray = TRAY_SIZE" "frm \<noteq> to" "0 < cnt ((=) frm) tray"
  obtains t where "replace_first frm to 0 tray = (True, t)" "length t = TRAY_SIZE"
    "set t \<subseteq> insert to (set tray)" "cnt ((=) to) t = Suc (cnt ((=) to) tray)"
    "cnt ((=) frm) t = cnt ((=) frm) tray - 1"
proof -
  have "frm \<in> set tray"
    using assms(3) by (metis cnt_0_iff gr_implies_not_zero)
  then obtain n where n: "n < TRAY_SIZE" "tray ! n = frm"
    "replace_first frm to 0 tray = (True, tray[n := to])"
    using replace_first_spec [OF assms(1), of 0 frm to] by auto
  note u = cnt_update [of n tray "(=) to" to] cnt_update [of n tray "(=) frm" to]
  show ?thesis
    by (rule that [OF n(3)]) (use assms n u set_update_subset_insert [of tray n to] in simp_all)
qed

text \<open>A tray nobody is at: the semaphores give exactly its places and dishes.\<close>

definition at_rest :: "side \<Rightarrow> shared_data \<Rightarrow> bool" where
  "at_rest s d \<longleftrightarrow> side_ok s d []"

lemma add_vegan_at_rest:
  assumes r: "at_rest Veg d"
  shows "if vegan_empty d = 0 then add_vegan_dish_once d = None
      else \<exists>t. let d' = d\<lparr>vegan_tray := t, vegan_empty := vegan_empty d - 1,
                   vegan_full := vegan_full d + 1\<rparr>
          in add_vegan_dish_once d = Some (True, d') \<and> at_rest Veg d'"
proof (cases "vegan_empty d = 0")
  case True
  then show ?thesis by (simp add: add_vegan_dish_once_def sem_wait_def)
next
  case False
  show ?thesis
  proof (rule replace_first_cnt [of "vegan_tray d" EMPTY VEGAN])
    fix t
    assume "replace_first EMPTY VEGAN 0 (vegan_tray d) = (True, t)" "length t = TRAY_SIZE"
      "set t \<subseteq> insert VEGAN (set (vegan_tray d))"
      "cnt ((=) VEGAN) t = Suc (cnt ((=) VEGAN) (vegan_tray d))"
      "cnt ((=) EMPTY) t = cnt ((=) EMPTY) (vegan_tray d) - 1"
    with False r show ?thesis
      by (auto simp: add_vegan_dish_once_def sem_wait_def sem_post_def at_rest_def side_ok_def
          intro!: exI [of _ t])
  qed (use r False in \<open>auto simp: at_rest_def side_ok_def\<close>)
qed

lemma eat_vegan_at_rest:
  assumes r: "at_rest Veg d"
  shows "if vegan_full d = 0 then eat_vegan_once d = None
      else \<exists>t. let d' = d\<lparr>vegan_tray := t, vegan_empty := vegan_empty d + 1,
                   vegan_full := vegan_full d - 1\<rparr>
          in eat_vegan_once d = Some (True, d') \<and> at_rest Veg d'"
proof (cases "vegan_full d = 0")
  case True
  then show ?thesis by (simp add: eat_vegan_once_def sem_wait_def)
next
  case False
  show ?thesis
  proof (rule replace_first_cnt [of "vegan_tray d" VEGAN EMPTY])
    fix t
    assume "replace_first VEGAN EMPTY 0 (vegan_tray d) = (True, t)" "length t = TRAY_SIZE"
      "set t \<subseteq> insert EMPTY (set (vegan_tray d))"
      "cnt ((=) EMPTY) t = Suc (cnt ((=) EMPTY) (vegan_tray d))"
      "cnt ((=) VEGAN) t = cnt ((=) VEGAN) (vegan_tray d) - 1"
    with False r show ?thesis
      by (auto simp: eat_vegan_once_def sem_wait_def sem_post_def at_rest_def side_ok_def
          intro!: exI [of _ t])
  qed (use r False in \<open>auto simp: at_rest_def side_ok_def\<close>)
qed

lemma init_at_rest: "at_rest s (init_shared_memory d)" "empty_of s (init_shared_memory d) = TRAY_SIZE"
  by (cases s; auto simp: at_rest_def side_ok_def init_shared_memory_def cnt_replicate)+

text \<open>
  At a tray nobody is at, \<open>add_vegan_dish_once\<close> blocks when there is no empty place and otherwise
  succeeds, turns one empty place into a dish and leaves the semaphores in agreement with the tray;
  \<open>eat_vegan_once\<close> is its inverse on the counts. The other tray and its semaphores do not change. After
  \<open>init_shared_memory\<close> both trays are in this state, with ten empty places.
\<close>

theorem vegan_one_shot_correct:
  "at_rest s (init_shared_memory d) \<and> empty_of s (init_shared_memory d) = TRAY_SIZE \<and>
   (at_rest Veg d \<longrightarrow>
     (if vegan_empty d = 0 then add_vegan_dish_once d = None
      else \<exists>t. let d' = d\<lparr>vegan_tray := t, vegan_empty := vegan_empty d - 1,
                   vegan_full := vegan_full d + 1\<rparr>
          in add_vegan_dish_once d = Some (True, d') \<and> at_rest Veg d') \<and>
     (if vegan_full d = 0 then eat_vegan_once d = None
      else \<exists>t. let d' = d\<lparr>vegan_tray := t, vegan_empty := vegan_empty d + 1,
                   vegan_full := vegan_full d - 1\<rparr>
          in eat_vegan_once d = Some (True, d') \<and> at_rest Veg d'))"
  by (intro conjI impI init_at_rest add_vegan_at_rest eat_vegan_at_rest)

lemma vegan_one_shot_correct_witness:
  "\<exists>d'. add_vegan_dish_once (init_shared_memory some_data) = Some (True, d')"
  using vegan_one_shot_correct [of Veg some_data] vegan_one_shot_correct [of Veg "init_shared_memory some_data"]
  by (auto simp: TRAY_SIZE_def Let_def)

text \<open>\<open>add_nonvegan_dish_once\<close> called \<open>n\<close> times.\<close>

fun add_nonvegan_times :: "nat \<Rightarrow> shared_data \<Rightarrow> (bool list \<times> shared_data) option" where
  "add_nonvegan_times 0 d = Some ([], d)"
| "add_nonvegan_times (Suc n) d =
     Option.bind (add_nonvegan_times n d) (\<lambda>(bs, d1).
     map_option (\<lambda>(b, d2). (bs @ [b], d2)) (add_nonvegan_dish_once d1))"

text \<open>
  Because \<open>add_nonvegan_dish_once\<close> posts \<open>non_empty\<close> in place of \<open>non_full\<close>, the dishes it adds are never
  offered: however often it is called after \<open>init_shared_memory\<close>, \<open>eat_nonvegan_once\<close> still blocks. The
  calls fill the tray; the semaphore still counts ten empty places, so from the eleventh on they do
  not block, as a full tray should make them, but return 0.
\<close>

theorem nonvegan_one_shot_never_offered:
  "\<exists>d'. add_nonvegan_times n (init_shared_memory d) = Some (map (\<lambda>i. i < TRAY_SIZE) [0..<n], d') \<and>
     eat_nonvegan_once d' = None \<and> non_empty d' = TRAY_SIZE \<and>
     cnt ((=) NON_VEGAN) (nonvegan_tray d') = min n TRAY_SIZE"
proof -
  have "\<exists>d'. add_nonvegan_times n (init_shared_memory d) = Some (map (\<lambda>i. i < TRAY_SIZE) [0..<n], d') \<and>
     non_full d' = 0 \<and> non_empty d' = TRAY_SIZE \<and> non_mutex d' = 1 \<and>
     length (nonvegan_tray d') = TRAY_SIZE \<and>
     cnt ((=) NON_VEGAN) (nonvegan_tray d') = min n TRAY_SIZE \<and>
     cnt ((=) EMPTY) (nonvegan_tray d') = TRAY_SIZE - n"
  proof (induction n)
    case 0
    then show ?case by (simp add: init_shared_memory_def cnt_replicate)
  next
    case (Suc n)
    then obtain d1 where d1: "add_nonvegan_times n (init_shared_memory d) =
        Some (map (\<lambda>i. i < TRAY_SIZE) [0..<n], d1)" "non_full d1 = 0" "non_empty d1 = TRAY_SIZE"
      "non_mutex d1 = 1" "length (nonvegan_tray d1) = TRAY_SIZE"
      "cnt ((=) NON_VEGAN) (nonvegan_tray d1) = min n TRAY_SIZE"
      "cnt ((=) EMPTY) (nonvegan_tray d1) = TRAY_SIZE - n" by blast
    have ten: "0 < TRAY_SIZE" by (simp add: TRAY_SIZE_def)
    show ?case
    proof (cases "n < TRAY_SIZE")
      case True
      show ?thesis
      proof (rule replace_first_cnt [of "nonvegan_tray d1" EMPTY NON_VEGAN])
        fix t
        assume "replace_first EMPTY NON_VEGAN 0 (nonvegan_tray d1) = (True, t)" "length t = TRAY_SIZE"
          "cnt ((=) NON_VEGAN) t = Suc (cnt ((=) NON_VEGAN) (nonvegan_tray d1))"
          "cnt ((=) EMPTY) t = cnt ((=) EMPTY) (nonvegan_tray d1) - 1"
        then show ?thesis using True d1 ten
          by (simp add: add_nonvegan_dish_once_def sem_wait_def sem_post_def)
      qed (use True d1 in simp_all)
    next
      case False
      then have "EMPTY \<notin> set (nonvegan_tray d1)" using d1(7) by (auto simp: cnt_0_iff)
      then have "replace_first EMPTY NON_VEGAN 0 (nonvegan_tray d1) = (False, nonvegan_tray d1)"
        using replace_first_spec [OF d1(5), of 0 EMPTY NON_VEGAN] by simp
      then show ?thesis using False d1 ten
        by (simp add: add_nonvegan_dish_once_def sem_wait_def sem_post_def)
    qed
  qed
  then obtain d' where "add_nonvegan_times n (init_shared_memory d) = Some (map (\<lambda>i. i < TRAY_SIZE) [0..<n], d')"
    "non_full d' = 0" "non_empty d' = TRAY_SIZE" "cnt ((=) NON_VEGAN) (nonvegan_tray d') = min n TRAY_SIZE"
    by blast
  then show ?thesis by (intro exI [of _ d']) (simp add: eat_nonvegan_once_def sem_wait_def)
qed

section \<open>main\<close>

text \<open>
  \<open>main\<close> prints the trays in every round up to the first in which 60 seconds have passed, and then
  sends \<open>SIGTERM\<close> to each stored child, waits for each of them in the same order, and removes the
  shared memory, each exactly once; \<open>SIGINT\<close> leads to the same clean-up. In a reachable state the two
  numbers it prints are the dishes on the trays.
\<close>

theorem main_reports_and_cleans_up:
  assumes "\<forall>r \<in> set early. snd r - start < 60" "60 \<le> now - start" "kitchen_reach k"
  shows "parent_loop children start (early @ (data k, now) # late) =
      Some (map (\<lambda>r. Status (fst (tray_status (fst r))) (snd (tray_status (fst r)))) early @
        [Status (cnt ((=) VEGAN) (vegan_tray (data k))) (cnt ((=) NON_VEGAN) (nonvegan_tray (data k))),
         Finished_msg, Cleaning_msg] @ map Kill children @ map Wait children @ [Shm_unlink]) \<and>
    handle_sigint children True =
      [Sigint_msg, Cleaning_msg] @ map Kill children @ map Wait children @ [Shm_unlink]"
proof -
  have f: "filter (\<lambda>x. x \<noteq> EMPTY) xs = filter ((=) y) xs" if "set xs \<subseteq> {EMPTY, y}" "y \<noteq> EMPTY" for xs y
    by (rule filter_cong) (use that in auto)
  have "tray_status (data k) =
      (cnt ((=) VEGAN) (vegan_tray (data k)), cnt ((=) NON_VEGAN) (nonvegan_tray (data k)))"
    using reach_side [OF assms(3), of Veg] reach_side [OF assms(3), of Non]
      f [of "vegan_tray (data k)" VEGAN] f [of "nonvegan_tray (data k)" NON_VEGAN]
    by (simp add: tray_status_def cnt_def)
  with assms(1,2) show ?thesis
    by (induction early) (auto simp: cleanup_all_def handle_sigint_def Let_def split: prod.split)
qed

lemma main_reports_and_cleans_up_witness:
  "parent_loop [11, 12] 0 [(data after_put, 10), (data after_put, 60)] \<noteq> None"
  using main_reports_and_cleans_up [of "[(data after_put, 10)]" 0 60 after_put "[11, 12]" "[]"]
    after_put_reachable by simp

end
