(* ===== verification/Restaurant_Main.thy ===== *)
theory Restaurant_Main
  imports Restaurant_Theorems
begin

text \<open>
  The restaurant around its processes: \<open>main\<close> of \<open>app/main.c\<close> from the shared memory and the five calls of
  \<open>fork\<close> to the clean-up, whichever calls fail, and the three test programs of \<open>tests/\<close>.
\<close>

section \<open>The whole of main\<close>

text \<open>Which of \<open>shm_open\<close>, \<open>ftruncate\<close> and \<open>mmap\<close> succeed; the message of \<open>perror\<close> before \<open>exit (1)\<close> is \<open>Inl\<close>.\<close>

record shm =
  shm_opened :: bool
  truncated :: bool
  mapped :: bool

definition init_shm :: "shm \<Rightarrow> shared_data \<Rightarrow> string + shared_data" where
  "init_shm m d =
     (if \<not> shm_opened m then Inl ''shm_open''
      else if \<not> truncated m then Inl ''ftruncate''
      else if \<not> mapped m then Inl ''mmap''
      else Inr (init_shared_memory d))"

text \<open>
  \<open>children [child_count++] = fork ()\<close> five times: the parent stores the numbers \<open>pids\<close>, -1 for a \<open>fork\<close> that
  fails. The child with the number \<open>p\<close> runs the endless loop of its place in \<open>programs\<close>.
\<close>

definition started :: "int list \<Rightarrow> (int \<times> job list) list" where
  "started pids = filter (\<lambda>(p, js). 0 < p) (zip pids programs)"

definition main_kitchen :: "int list \<Rightarrow> shared_data \<Rightarrow> kitchen" where
  "main_kitchen pids d = \<lparr>data = d, procs = map (\<lambda>(p, js). \<lparr>prog = js, cur = 0, at = Start\<rparr>) (started pids)\<rparr>"

text \<open>How \<open>main\<close> ends: with \<open>exit (1)\<close> and a message, or after the events of \<open>parent_loop\<close>.\<close>

definition restaurant_main :: "shm \<Rightarrow> shared_data \<Rightarrow> int list \<Rightarrow> int \<Rightarrow> (shared_data \<times> int) list \<Rightarrow>
    (string + main_event list) option" where
  "restaurant_main m d pids start rounds = (case init_shm m d of
      Inl msg \<Rightarrow> Some (Inl msg)
    | Inr _ \<Rightarrow> map_option Inr (parent_loop pids start rounds))"

text \<open>
  The ids of a process that decide whether it may signal another: \<open>kill\<close> is permitted to a process of the
  superuser, and to one whose real or effective user id is the real or the saved user id of the target.
\<close>

record cred =
  ruid :: nat
  euid :: nat
  suid :: nat

definition may_signal :: "cred \<Rightarrow> cred \<Rightarrow> bool" where
  "may_signal c t \<longleftrightarrow> euid c = 0 \<or> ruid c \<in> {ruid t, suid t} \<or> euid c \<in> {ruid t, suid t}"

lemma may_signal_refl [simp]: "may_signal c c"
  by (simp add: may_signal_def)

text \<open>
  Whom \<open>kill (p, SIGTERM)\<close> of the process \<open>self\<close> reaches: the process \<open>p\<close> if that is permitted, or for -1
  every process it is permitted to signal except itself and process 1 (the other values, which stand for groups, do not
  occur here). \<open>running\<close> are the processes of the machine and \<open>creds\<close> their ids.
\<close>

definition kill_targets :: "(int \<Rightarrow> cred) \<Rightarrow> int \<Rightarrow> int list \<Rightarrow> int \<Rightarrow> int list" where
  "kill_targets creds self running p =
     (if 0 < p then filter (\<lambda>q. q = p \<and> may_signal (creds self) (creds q)) running
      else if p = -1 then filter (\<lambda>q. q \<noteq> self \<and> q \<noteq> 1 \<and> may_signal (creds self) (creds q)) running else [])"

text \<open>
  The machine as \<open>cleanup_all\<close> changes it: the processes that have not ended, the children that \<open>main\<close> has not
  waited for, and whom \<open>SIGTERM\<close> has reached. A child has no handler for \<open>SIGTERM\<close>, so the signal ends it; what
  other processes do with the signal is not recorded.
\<close>

record machine =
  running :: "int list"
  children :: "int list"
  signalled :: "int list"

definition sys_kill :: "(int \<Rightarrow> cred) \<Rightarrow> int \<Rightarrow> int \<Rightarrow> machine \<Rightarrow> machine" where
  "sys_kill creds self p m =
     (let ts = kill_targets creds self (running m) p in
      m\<lparr>running := filter (\<lambda>q. \<not> (q \<in> set ts \<and> q \<in> set (children m))) (running m), signalled := signalled m @ ts\<rparr>)"

text \<open>
  \<open>waitpid (p, NULL, 0)\<close>: for the number of a child it returns once that child has ended, for -1 once some child has
  ended, \<open>pick\<close> says which one it reports if there are several; without such a child it fails at once. \<open>None\<close> is
  waiting for ever: nobody but \<open>main\<close> ends its children.
\<close>

definition sys_waitpid :: "(int list \<Rightarrow> int) \<Rightarrow> int \<Rightarrow> machine \<Rightarrow> machine option" where
  "sys_waitpid pick p m =
     (let ended = filter (\<lambda>c. c \<notin> set (running m)) (children m);
          candidates = (if p = -1 then children m else if p \<in> set (children m) then [p] else []);
          ready = filter (\<lambda>c. c \<in> set ended) candidates;
          c = (if pick ready \<in> set ready then pick ready else hd ready)
      in if candidates = [] then Some m
         else if ready = [] then None
         else Some (m\<lparr>children := remove1 c (children m)\<rparr>))"

fun machine_run :: "(int list \<Rightarrow> int) \<Rightarrow> (int \<Rightarrow> cred) \<Rightarrow> int \<Rightarrow> main_event list \<Rightarrow> machine \<Rightarrow> machine option" where
  "machine_run pick creds self [] m = Some m"
| "machine_run pick creds self (Kill p # es) m = machine_run pick creds self es (sys_kill creds self p m)"
| "machine_run pick creds self (Wait p # es) m = Option.bind (sys_waitpid pick p m) (machine_run pick creds self es)"
| "machine_run pick creds self (_ # es) m = machine_run pick creds self es m"

text \<open>
  The machine at the end of \<open>main\<close>: the calls of \<open>fork\<close> have returned \<open>pids\<close>, a new number for each child, which
  has inherited the ids of \<open>main\<close>; nobody has been signalled or waited for.
\<close>

definition after_forks :: "(int \<Rightarrow> cred) \<Rightarrow> int \<Rightarrow> int list \<Rightarrow> machine \<Rightarrow> bool" where
  "after_forks creds self pids m \<longleftrightarrow>
     list_all (\<lambda>p. p = -1 \<or> 0 < p) pids \<and> children m = filter (\<lambda>p. 0 < p) pids \<and> distinct (children m) \<and>
     distinct (running m) \<and> list_all (\<lambda>c. c \<in> set (running m) \<and> c \<noteq> self \<and> c \<noteq> 1 \<and> creds c = creds self) (children m) \<and>
     signalled m = []"

lemma machine_run_status [simp]:
  "machine_run pick creds self (map (\<lambda>r. Status (f r) (g r)) rs @ es) m = machine_run pick creds self es m"
  by (induction rs) simp_all

text \<open>The kills: who still runs, and who has been reached.\<close>

definition killed :: "(int \<Rightarrow> cred) \<Rightarrow> int \<Rightarrow> int list \<Rightarrow> machine \<Rightarrow> machine" where
  "killed creds self ps m = fold (sys_kill creds self) ps m"

lemma machine_run_kills:
  "machine_run pick creds self (map Kill ps @ es) m = machine_run pick creds self es (killed creds self ps m)"
  by (induction ps arbitrary: m) (simp_all add: killed_def)

lemma sys_kill_children [simp]: "children (sys_kill creds self p m) = children m"
  by (simp add: sys_kill_def Let_def)

lemma killed_children: "children (killed creds self ps m) = children m"
  by (induction ps arbitrary: m) (simp_all add: killed_def)

definition reached :: "(int \<Rightarrow> cred) \<Rightarrow> int \<Rightarrow> int \<Rightarrow> int \<Rightarrow> bool" where
  "reached creds self q p \<longleftrightarrow> may_signal (creds self) (creds q) \<and> (p = q \<and> 0 < q \<or> p = -1 \<and> q \<noteq> self \<and> q \<noteq> 1)"

lemma in_kill_targets: "q \<in> set (kill_targets creds self rs p) \<longleftrightarrow> q \<in> set rs \<and> reached creds self q p"
  by (auto simp: kill_targets_def reached_def)

lemma sys_kill_simps [simp]:
  "q \<in> set (running (sys_kill creds self p m)) \<longleftrightarrow> q \<in> set (running m) \<and> \<not> (q \<in> set (children m) \<and> reached creds self q p)"
  "q \<in> set (signalled (sys_kill creds self p m)) \<longleftrightarrow> q \<in> set (signalled m) \<or> q \<in> set (running m) \<and> reached creds self q p"
  by (auto simp: sys_kill_def Let_def in_kill_targets)

lemma killed_Cons: "killed creds self (p # ps) m = killed creds self ps (sys_kill creds self p m)"
  by (simp add: killed_def)

lemma killed_running:
  "q \<in> set (running (killed creds self ps m)) \<longleftrightarrow>
   q \<in> set (running m) \<and> \<not> (q \<in> set (children m) \<and> (\<exists>p \<in> set ps. reached creds self q p))"
proof (induction ps arbitrary: m)
  case (Cons p ps)
  show ?case unfolding killed_Cons Cons.IH by auto
qed (simp add: killed_def)

lemma killed_signalled:
  "q \<in> set (signalled (killed creds self ps m)) \<longleftrightarrow>
   q \<in> set (signalled m) \<or> q \<in> set (running m) \<and> (\<exists>p \<in> set ps. reached creds self q p)"
proof (induction ps arbitrary: m)
  case (Cons p ps)
  show ?case unfolding killed_Cons Cons.IH by auto
qed (simp add: killed_def)

lemma kill_one: "distinct rs \<Longrightarrow> 0 < p \<Longrightarrow> p \<in> set rs \<Longrightarrow> may_signal (creds self) (creds p) \<Longrightarrow> kill_targets creds self rs p = [p]"
  by (induction rs) (auto simp: kill_targets_def filter_empty_conv)

lemma killed_each_once:
  "distinct ps \<Longrightarrow> distinct (running m) \<Longrightarrow> \<forall>p \<in> set ps. 0 < p \<and> p \<in> set (running m) \<and> may_signal (creds self) (creds p) \<Longrightarrow>
   signalled (killed creds self ps m) = signalled m @ ps"
proof (induction ps arbitrary: m)
  case (Cons p ps)
  have t: "kill_targets creds self (running m) p = [p]" using Cons.prems by (intro kill_one) auto
  have "signalled (killed creds self ps (sys_kill creds self p m)) = signalled (sys_kill creds self p m) @ ps"
    by (rule Cons.IH) (use Cons.prems t in \<open>auto simp: sys_kill_def\<close>)
  with t show ?case by (simp add: killed_def sys_kill_def)
qed (simp add: killed_def)

text \<open>The waits: once no child runs, none of them hangs, and a child whose number is among \<open>ps\<close> is gone afterwards.\<close>

lemma wait_ended:
  assumes "\<forall>c \<in> set (children m). c \<notin> set (running m)" "distinct (children m)"
  obtains c where "sys_waitpid pick p m = Some (m\<lparr>children := remove1 c (children m)\<rparr>)" "0 < p \<Longrightarrow> p \<in> set (children m) \<Longrightarrow> c = p"
proof -
  have e: "filter (\<lambda>c. c \<notin> set (running m)) (children m) = children m" using assms(1) by (simp add: filter_id_conv)
  consider (none) "p \<noteq> -1 \<and> p \<notin> set (children m) \<or> children m = []" | (one) "p \<noteq> -1" "p \<in> set (children m)"
    | (any) "p = -1" "children m \<noteq> []" by blast
  then show thesis
  proof cases
    case none
    then have "sys_waitpid pick p m = Some (m\<lparr>children := remove1 p (children m)\<rparr>)"
      by (auto simp: sys_waitpid_def remove1_idem)
    then show thesis by (rule that) simp
  next
    case one
    then have "sys_waitpid pick p m = Some (m\<lparr>children := remove1 p (children m)\<rparr>)"
      unfolding sys_waitpid_def Let_def e by auto
    then show thesis by (rule that) simp
  next
    case any
    then have "sys_waitpid pick p m = Some (m\<lparr>children := remove1
        (if pick (children m) \<in> set (children m) then pick (children m) else hd (children m)) (children m)\<rparr>)"
      unfolding sys_waitpid_def Let_def e by simp
    then show thesis by (rule that) (use any in simp)
  qed
qed

lemma machine_run_waits:
  "\<forall>c \<in> set (children m). c \<notin> set (running m) \<Longrightarrow> distinct (children m) \<Longrightarrow>
   \<exists>m'. machine_run pick creds self (map Wait ps @ es) m = machine_run pick creds self es m' \<and>
     running m' = running m \<and> signalled m' = signalled m \<and> set (children m') \<subseteq> set (children m) - {p \<in> set ps. 0 < p}"
proof (induction ps arbitrary: m)
  case Nil
  show ?case by (intro exI [of _ m]) simp
next
  case (Cons p ps)
  obtain c where c: "sys_waitpid pick p m = Some (m\<lparr>children := remove1 c (children m)\<rparr>)"
    "0 < p \<Longrightarrow> p \<in> set (children m) \<Longrightarrow> c = p" using wait_ended [OF Cons.prems] by blast
  let ?m = "m\<lparr>children := remove1 c (children m)\<rparr>"
  have "\<exists>m'. machine_run pick creds self (map Wait ps @ es) ?m = machine_run pick creds self es m' \<and>
     running m' = running ?m \<and> signalled m' = signalled ?m \<and> set (children m') \<subseteq> set (children ?m) - {p \<in> set ps. 0 < p}"
    by (rule Cons.IH) (use Cons.prems in \<open>auto dest: set_remove1_subset [THEN subsetD]\<close>)
  then obtain m' where m': "machine_run pick creds self (map Wait ps @ es) ?m = machine_run pick creds self es m'"
     "running m' = running m" "signalled m' = signalled m" "set (children m') \<subseteq> set (children ?m) - {p \<in> set ps. 0 < p}" by auto
  have "set (children ?m) \<subseteq> set (children m) - {q. q = p \<and> 0 < p}" using c(2) Cons.prems(2) by auto
  with m' c(1) show ?case by (intro exI [of _ m']) auto
qed

lemma cleanup_run:
  assumes "after_forks creds self pids m"
  obtains m' where "machine_run pick creds self (cleanup_all pids True) m = Some m'" "children m' = []"
    "running m' = running (killed creds self pids m)" "signalled m' = signalled (killed creds self pids m)"
proof -
  let ?k = "killed creds self pids m"
  have k: "children ?k = filter (\<lambda>p. 0 < p) pids" "distinct (children ?k)" "\<forall>c \<in> set (children ?k). c \<notin> set (running ?k)"
    using assms by (auto simp: killed_children killed_running after_forks_def list_all_iff reached_def)
  from machine_run_waits [OF k(3,2), of pick creds self pids "[Shm_unlink]"] obtain m' where
    "machine_run pick creds self (map Wait pids @ [Shm_unlink]) ?k = Some m'" "running m' = running ?k"
    "signalled m' = signalled ?k" "set (children m') \<subseteq> set (children ?k) - {p \<in> set pids. 0 < p}" by auto
  then show thesis using k(1) by (intro that [of m']) (auto simp: cleanup_all_def machine_run_kills)
qed

lemma parent_loop_ends:
  "parent_loop pids start rounds = Some es \<Longrightarrow>
   \<exists>rs. es = map (\<lambda>r. Status (fst (tray_status r)) (snd (tray_status r))) rs @ Finished_msg # cleanup_all pids True"
proof (induction pids start rounds arbitrary: es rule: parent_loop.induct)
  case (2 pids start d now rounds)
  show ?case
  proof (cases "now - start \<ge> 60")
    case True
    with 2 show ?thesis by (intro exI [of _ "[d]"]) (auto simp: Let_def split: prod.splits)
  next
    case False
    with "2.prems" obtain fs where fs: "parent_loop pids start rounds = Some fs"
        "es = Status (fst (tray_status d)) (snd (tray_status d)) # fs"
      by (auto simp: Let_def split: prod.splits)
    from "2.IH" [OF refl False fs(1)] obtain rs where
      "fs = map (\<lambda>r. Status (fst (tray_status r)) (snd (tray_status r))) rs @ Finished_msg # cleanup_all pids True" by blast
    with fs(2) show ?thesis by (intro exI [of _ "d # rs"]) simp
  qed
qed simp

lemma main_kitchen_start:
  assumes "length pids = 5" "\<forall>p \<in> set pids. 0 < p"
  shows "main_kitchen pids (init_shared_memory d) = kitchen_start d"
proof -
  have "started pids = zip pids programs"
    unfolding started_def using assms(2) by (intro filter_True) (auto dest: set_zip_leftD)
  moreover have "map (\<lambda>(p, js). \<lparr>prog = js, cur = 0, at = Start\<rparr>) (zip pids programs) =
      map (\<lambda>js. \<lparr>prog = js, cur = 0, at = Start\<rparr>) programs"
  proof (rule nth_equalityI)
    show len: "length (map (\<lambda>(p, js). \<lparr>prog = js, cur = 0, at = Start\<rparr>) (zip pids programs)) =
        length (map (\<lambda>js. \<lparr>prog = js, cur = 0, at = Start\<rparr>) programs)"
      using assms(1) by (simp add: programs_def)
  qed (use assms(1) in simp)
  ultimately show ?thesis by (simp add: main_kitchen_def kitchen_start_def)
qed

text \<open>
  C23: what the end of \<open>main\<close> does to the machine. If shared memory cannot be set up it exits with a message
  and starts nothing. Otherwise a run that ends, by itself or by a
  \<open>SIGINT\<close> after the calls of \<open>fork\<close>, sends \<open>SIGTERM\<close> to the children and
  waits for them, without hanging, whichever of the calls of \<open>fork\<close> have failed and whichever child \<open>waitpid (-1)\<close>
  reports: in the end no child runs and none is left as a zombie, and the shared memory is removed last. If all
  five calls of \<open>fork\<close> have succeeded, exactly the five children are reached by \<open>SIGTERM\<close>, each once, and they are the
  processes of \<open>kitchen_start\<close>; if one has failed, its -1 is passed to \<open>kill\<close>, and the signal reaches exactly the
  processes of the machine that \<open>main\<close> is permitted to signal, except itself and process 1.
\<close>

theorem main_terminates_children:
  assumes "length pids = 5" "after_forks creds self pids m"
  shows "(\<forall>msg. init_shm sh d = Inl msg \<longrightarrow> restaurant_main sh d pids start rounds = Some (Inl msg)) \<and>
    (\<forall>es. restaurant_main sh d pids start rounds = Some (Inr es) \<or> es = handle_sigint pids True \<longrightarrow>
       last es = Shm_unlink \<and>
       (\<exists>m'. machine_run pick creds self es m = Some m' \<and> children m' = [] \<and>
          set (running m') = set (running m) - set (children m) \<and>
          (-1 \<notin> set pids \<longrightarrow> signalled m' = pids \<and> main_kitchen pids (init_shared_memory d) = kitchen_start d) \<and>
          (-1 \<in> set pids \<longrightarrow>
             set (signalled m') = {q \<in> set (running m). q \<noteq> self \<and> q \<noteq> 1 \<and> may_signal (creds self) (creds q)})))"
proof (intro conjI allI impI)
  fix es assume es: "restaurant_main sh d pids start rounds = Some (Inr es) \<or> es = handle_sigint pids True"
  have "\<exists>rs e. es = map (\<lambda>r. Status (fst (tray_status r)) (snd (tray_status r))) rs @ e # cleanup_all pids True \<and>
      (e = Finished_msg \<or> e = Sigint_msg)"
  proof (cases "es = handle_sigint pids True")
    case True
    then show ?thesis by (intro exI [of _ "[]"]) (simp add: handle_sigint_def)
  next
    case False
    with es have "parent_loop pids start rounds = Some es" by (auto simp: restaurant_main_def split: sum.splits)
    from parent_loop_ends [OF this] show ?thesis by blast
  qed
  then obtain rs e where
    es: "es = map (\<lambda>r. Status (fst (tray_status r)) (snd (tray_status r))) rs @ e # cleanup_all pids True"
      "e = Finished_msg \<or> e = Sigint_msg" by blast
  show "last es = Shm_unlink" using es by (simp add: cleanup_all_def)
  obtain m' where m': "machine_run pick creds self (cleanup_all pids True) m = Some m'" "children m' = []"
    "running m' = running (killed creds self pids m)" "signalled m' = signalled (killed creds self pids m)"
    using cleanup_run [OF assms(2)] by blast
  note a = assms(2) [unfolded after_forks_def list_all_iff]
  have "machine_run pick creds self es m = Some m'" using m'(1) es by auto
  moreover have "set (running m') = set (running m) - set (children m)"
    unfolding m'(3) using a by (auto simp: killed_running reached_def)
  moreover have "signalled m' = pids \<and> main_kitchen pids (init_shared_memory d) = kitchen_start d" if "-1 \<notin> set pids"
  proof
    have pos: "\<forall>p \<in> set pids. 0 < p" using a that by auto
    then have "children m = pids" using a by simp
    then show "signalled m' = pids" unfolding m'(4) using a pos by (subst killed_each_once) auto
    show "main_kitchen pids (init_shared_memory d) = kitchen_start d" by (rule main_kitchen_start [OF assms(1) pos])
  qed
  moreover have "set (signalled m') = {q \<in> set (running m). q \<noteq> self \<and> q \<noteq> 1 \<and> may_signal (creds self) (creds q)}"
    if "-1 \<in> set pids"
  proof (rule set_eqI)
    fix q
    have c: "q \<in> set (running m) \<and> q \<noteq> self \<and> q \<noteq> 1 \<and> creds q = creds self" if "q \<in> set pids" "0 < q"
      using a that by auto
    have s: "signalled m = []" using a by blast
    have "q \<in> set (signalled m') \<longleftrightarrow> q \<in> set (running m) \<and> (\<exists>p \<in> set pids. reached creds self q p)"
      unfolding m'(4) killed_signalled s by simp
    also have "\<dots> \<longleftrightarrow> q \<in> set (running m) \<and> q \<noteq> self \<and> q \<noteq> 1 \<and> may_signal (creds self) (creds q)"
      using c that by (auto simp: reached_def)
    finally show "q \<in> set (signalled m') \<longleftrightarrow> q \<in> {q \<in> set (running m). q \<noteq> self \<and> q \<noteq> 1 \<and> may_signal (creds self) (creds q)}"
      by simp
  qed
  ultimately show "\<exists>m'. machine_run pick creds self es m = Some m' \<and> children m' = [] \<and>
      set (running m') = set (running m) - set (children m) \<and>
      (-1 \<notin> set pids \<longrightarrow> signalled m' = pids \<and> main_kitchen pids (init_shared_memory d) = kitchen_start d) \<and>
      (-1 \<in> set pids \<longrightarrow>
         set (signalled m') = {q \<in> set (running m). q \<noteq> self \<and> q \<noteq> 1 \<and> may_signal (creds self) (creds q)})"
    using m'(2) by blast
qed (simp add: restaurant_main_def)

text \<open>Processes 11 to 15 are the children of 10; 99 belongs to another user, 98 to the same.\<close>

lemma main_terminates_children_witness:
  defines "creds \<equiv> (\<lambda>q :: int. if q = 1 \<or> q = 99 then \<lparr>ruid = 0, euid = 0, suid = 0\<rparr> else \<lparr>ruid = 7, euid = 7, suid = 7\<rparr>)"
  shows "(\<exists>m'. machine_run hd creds 10 (handle_sigint [11, 12, 13, 14, 15] True)
        \<lparr>running = [1, 10, 11, 12, 13, 14, 15, 98, 99], children = [11, 12, 13, 14, 15], signalled = []\<rparr> = Some m' \<and>
        children m' = [] \<and> signalled m' = [11, 12, 13, 14, 15]) \<and>
    (\<exists>m'. machine_run hd creds 10 (handle_sigint [11, -1, 12, -1, -1] True)
        \<lparr>running = [1, 10, 11, 12, 98, 99], children = [11, 12], signalled = []\<rparr> = Some m' \<and>
        children m' = [] \<and> set (signalled m') = {11, 12, 98})"
proof
  let ?sh = "\<lparr>shm_opened = True, truncated = True, mapped = True\<rparr>"
  let ?m1 = "\<lparr>running = [1, 10, 11, 12, 13, 14, 15, 98, 99], children = [11, 12, 13, 14, 15], signalled = []\<rparr>"
  let ?m2 = "\<lparr>running = [1, 10, 11, 12, 98, 99], children = [11, 12], signalled = []\<rparr>"
  note t = main_terminates_children [of _ creds 10 _ ?sh some_data 0 "[]" hd]
  have "after_forks creds 10 [11, 12, 13, 14, 15] ?m1" by (simp add: after_forks_def creds_def)
  from t [OF _ this] show "\<exists>m'. machine_run hd creds 10 (handle_sigint [11, 12, 13, 14, 15] True) ?m1 = Some m' \<and>
      children m' = [] \<and> signalled m' = [11, 12, 13, 14, 15]" by auto
  have "after_forks creds 10 [11, -1, 12, -1, -1] ?m2" by (simp add: after_forks_def creds_def)
  from t [OF _ this] obtain m' where m': "machine_run hd creds 10 (handle_sigint [11, -1, 12, -1, -1] True) ?m2 = Some m'" "children m' = []"
     "set (signalled m') = {q \<in> set (running ?m2). q \<noteq> 10 \<and> q \<noteq> 1 \<and> may_signal (creds 10) (creds q)}" by auto
  have "{q \<in> set (running ?m2). q \<noteq> 10 \<and> q \<noteq> 1 \<and> may_signal (creds 10) (creds q)} = {11, 12, 98}"
    by (auto simp: creds_def may_signal_def)
  with m' show "\<exists>m'. machine_run hd creds 10 (handle_sigint [11, -1, 12, -1, -1] True) ?m2 = Some m' \<and>
      children m' = [] \<and> set (signalled m') = {11, 12, 98}" by blast
qed

section \<open>The tests\<close>

text \<open>
  A test ends with \<open>Some True\<close> when every \<open>assert\<close> holds, with \<open>Some False\<close> at the first that fails, and is
  \<open>None\<close> if it blocks.
\<close>

definition on_tray :: "food \<Rightarrow> food list \<Rightarrow> bool" where
  "on_tray f tray = list_ex (\<lambda>i. tray ! i = f) [0..<TRAY_SIZE]"

definition test_chef :: "shared_data \<Rightarrow> bool option" where
  "test_chef d =
     Option.bind (add_vegan_dish_once (init_shared_memory d)) (\<lambda>(r1, d1).
     if \<not> r1 then Some False else if \<not> on_tray VEGAN (vegan_tray d1) then Some False else
     Option.bind (add_nonvegan_dish_once d1) (\<lambda>(r2, d2).
     if \<not> r2 then Some False else Some (on_tray NON_VEGAN (nonvegan_tray d2))))"

definition sem_trywait :: "nat \<Rightarrow> nat" where
  "sem_trywait n = (if n = 0 then 0 else n - 1)"

text \<open>The customer's test puts the dishes itself.\<close>

definition put_by_hand :: "shared_data \<Rightarrow> shared_data" where
  "put_by_hand d = d\<lparr>vegan_tray := (vegan_tray d)[0 := VEGAN], nonvegan_tray := (nonvegan_tray d)[0 := NON_VEGAN],
     vegan_empty := sem_trywait (vegan_empty d), vegan_full := sem_post (vegan_full d),
     non_empty := sem_trywait (non_empty d), non_full := sem_post (non_full d)\<rparr>"

definition test_consumer :: "shared_data \<Rightarrow> bool option" where
  "test_consumer d =
     Option.bind (eat_vegan_once (put_by_hand (init_shared_memory d))) (\<lambda>(r1, d1).
     if \<not> r1 then Some False else if vegan_tray d1 ! 0 \<noteq> EMPTY then Some False else
     Option.bind (eat_nonvegan_once d1) (\<lambda>(r2, d2).
     if \<not> r2 then Some False else Some (nonvegan_tray d2 ! 0 = EMPTY)))"

text \<open>The test of \<open>shared.c\<close>: its \<open>assert\<close>s and what \<open>print_tray_status\<close> prints in it.\<close>

definition test_shared :: "shm \<Rightarrow> shared_data \<Rightarrow> (bool \<times> (nat \<times> nat)) option" where
  "test_shared m d = (case init_shm m d of
      Inl _ \<Rightarrow> None
    | Inr d1 \<Rightarrow>
        (let empty = list_all (\<lambda>i. vegan_tray d1 ! i = EMPTY \<and> nonvegan_tray d1 ! i = EMPTY) [0..<TRAY_SIZE];
             d2 = d1\<lparr>vegan_tray := (vegan_tray d1)[0 := VEGAN, 1 := VEGAN], nonvegan_tray := (nonvegan_tray d1)[0 := NON_VEGAN]\<rparr>
         in Some (empty \<and> vegan_empty d2 = TRAY_SIZE, tray_status d2)))"

lemma tray_size_nat: "TRAY_SIZE = Suc (Suc (Suc (Suc (Suc (Suc (Suc (Suc (Suc (Suc 0)))))))))"
  by (simp add: TRAY_SIZE_def)

lemma init_fields:
  "vegan_tray (init_shared_memory d) = replicate TRAY_SIZE EMPTY" "nonvegan_tray (init_shared_memory d) = replicate TRAY_SIZE EMPTY"
  "vegan_mutex (init_shared_memory d) = 1" "vegan_empty (init_shared_memory d) = TRAY_SIZE" "vegan_full (init_shared_memory d) = 0"
  "non_mutex (init_shared_memory d) = 1" "non_empty (init_shared_memory d) = TRAY_SIZE" "non_full (init_shared_memory d) = 0"
  by (simp_all add: init_shared_memory_def)

lemmas once_defs = add_vegan_dish_once_def add_nonvegan_dish_once_def eat_vegan_once_def eat_nonvegan_once_def

lemma first_place: "frm = tray ! 0 \<Longrightarrow> replace_first frm to 0 tray = (True, tray[0 := to])"
  by (simp add: replace_first.simps TRAY_SIZE_def)

lemma first_empty [simp]: "replicate TRAY_SIZE EMPTY ! 0 = EMPTY" "0 < TRAY_SIZE"
  by (simp_all add: TRAY_SIZE_def)

lemma on_tray_first: "tray \<noteq> [] \<Longrightarrow> on_tray f (tray[0 := f])"
  by (cases tray) (auto simp: on_tray_def TRAY_SIZE_def list_ex_iff intro!: bexI [of _ 0])

text \<open>
  All three test programs pass, whatever the shared memory holds at the start, and the test of the
  shared library prints two vegan dishes and one other. They do not notice that \<open>add_nonvegan_dish_once\<close>
  announces its dish on the wrong semaphore: after the same two calls that \<open>test_chef\<close> makes, the vegan
  dish can be eaten, but \<open>eat_nonvegan_once\<close> would block.
\<close>

theorem tests_pass:
  "test_chef d = Some True \<and> test_consumer d = Some True \<and>
   test_shared \<lparr>shm_opened = True, truncated = True, mapped = True\<rparr> d = Some (True, (2, 1)) \<and>
   Option.bind (add_vegan_dish_once (init_shared_memory d)) (\<lambda>(r1, d1).
     Option.bind (add_nonvegan_dish_once d1) (\<lambda>(r2, d2). Some (eat_vegan_once d2 = None, eat_nonvegan_once d2 = None))) =
   Some (False, True)"
proof (intro conjI)
  have e: "replicate TRAY_SIZE EMPTY \<noteq> []" by (simp add: TRAY_SIZE_def)
  note run = once_defs init_fields sem_wait_def sem_post_def first_place Let_def
  show "test_chef d = Some True" using e by (simp add: test_chef_def run on_tray_first)
  show "test_consumer d = Some True"
    using e by (simp add: test_consumer_def put_by_hand_def sem_trywait_def run nth_list_update_eq)
  show "test_shared \<lparr>shm_opened = True, truncated = True, mapped = True\<rparr> d = Some (True, (2, 1))"
    by (simp add: test_shared_def init_shm_def init_fields tray_status_def list_all_iff) (simp add: tray_size_nat)
  show "Option.bind (add_vegan_dish_once (init_shared_memory d)) (\<lambda>(r1, d1).
     Option.bind (add_nonvegan_dish_once d1) (\<lambda>(r2, d2). Some (eat_vegan_once d2 = None, eat_nonvegan_once d2 = None))) =
   Some (False, True)"
    by (simp add: run split: prod.split)
qed

end
