(* ===== verification/Monitor.thy ===== *)
theory Monitor
  imports Prelude
begin

text \<open>
  What the producer/consumer programs of \<open>S4_Thread\<close> share: the states of a thread that uses a mutex
  and a condition variable, the effect of \<open>pthread_cond_signal\<close>, and the interface of the bounded
  buffer between the two sides. The interface is what the programs rely on; \<open>N_Consumer\<close> provides it
  with a ring buffer and \<open>Cond_Var\<close> with one variable and a flag.
\<close>

section \<open>Threads at a monitor\<close>

text \<open>
  \<open>At_lock\<close>: before \<open>pthread_mutex_lock\<close>; \<open>Inside\<close>: holding the mutex, at the test of the \<open>while\<close>;
  \<open>Waiting\<close>: in \<open>pthread_cond_wait\<close>; \<open>Woken\<close>: waking up, the mutex still to be taken again; \<open>Leaving\<close>:
  done, holding the mutex, before \<open>pthread_mutex_unlock\<close>; \<open>Finished\<close>: the loop is over. The number is
  the loop variable \<open>i\<close>.
\<close>

datatype phase = At_lock | Inside | Waiting | Woken | Leaving | Finished

type_synonym monitor_thread = "nat \<times> phase"

definition holding :: "monitor_thread \<Rightarrow> bool" where
  "holding t \<longleftrightarrow> snd t = Inside \<or> snd t = Leaving"

definition asleep :: "monitor_thread \<Rightarrow> bool" where
  "asleep t \<longleftrightarrow> snd t = Waiting"

text \<open>Threads that will look at the condition again before they do anything else.\<close>

definition alert :: "monitor_thread \<Rightarrow> bool" where
  "alert t \<longleftrightarrow> snd t = Woken \<or> snd t = Inside"

text \<open>The rounds a thread has done its work in.\<close>

definition rounds :: "monitor_thread \<Rightarrow> nat" where
  "rounds t = fst t + of_bool (snd t = Leaving)"

text \<open>
  \<open>pthread_cond_signal\<close>: thread \<open>j\<close> of those that wait is woken; nothing happens when none waits.
  \<open>None\<close>: \<open>j\<close> is not a thread that can be woken.
\<close>

definition signal :: "nat \<Rightarrow> monitor_thread list \<Rightarrow> monitor_thread list option" where
  "signal j ts =
     (if j < length ts \<and> asleep (ts ! j) then Some (ts[j := (fst (ts ! j), Woken)])
      else if list_all (\<lambda>t. \<not> asleep t) ts then Some ts
      else None)"

text \<open>\<open>pthread_mutex_unlock\<close> and the end of the loop body.\<close>

definition next_round :: "nat \<Rightarrow> nat \<Rightarrow> monitor_thread" where
  "next_round limit i = (Suc i, if Suc i < limit then At_lock else Finished)"

definition thread_ok :: "nat \<Rightarrow> monitor_thread \<Rightarrow> bool" where
  "thread_ok limit t \<longleftrightarrow> (if snd t = Finished then fst t = limit else fst t < limit)"

lemma phase_simps [simp]:
  "holding (i, At_lock) = False" "holding (i, Inside) = True" "holding (i, Waiting) = False"
  "holding (i, Woken) = False" "holding (i, Leaving) = True" "holding (i, Finished) = False"
  "asleep (i, At_lock) = False" "asleep (i, Inside) = False" "asleep (i, Waiting) = True"
  "asleep (i, Woken) = False" "asleep (i, Leaving) = False" "asleep (i, Finished) = False"
  "alert (i, At_lock) = False" "alert (i, Inside) = True" "alert (i, Waiting) = False"
  "alert (i, Woken) = True" "alert (i, Leaving) = False" "alert (i, Finished) = False"
  "rounds (i, At_lock) = i" "rounds (i, Inside) = i" "rounds (i, Waiting) = i"
  "rounds (i, Woken) = i" "rounds (i, Leaving) = Suc i" "rounds (i, Finished) = i"
  by (simp_all add: holding_def asleep_def alert_def rounds_def)

lemma next_round_simps [simp]:
  "holding (next_round l i) = False" "asleep (next_round l i) = False"
  "alert (next_round l i) = False" "rounds (next_round l i) = Suc i"
  "i < l \<Longrightarrow> thread_ok l (next_round l i)"
  by (auto simp: next_round_def thread_ok_def)

lemma thread_ok_simps [simp]:
  "thread_ok l (i, Finished) = (i = l)" "ph \<noteq> Finished \<Longrightarrow> thread_ok l (i, ph) = (i < l)"
  by (auto simp: thread_ok_def)

text \<open>A signal wakes one sleeping thread, if there is one.\<close>

lemma signal_effect:
  assumes "signal j ts = Some us"
  shows "length us = length ts" "cnt holding us = cnt holding ts"
    "sum_list (map rounds us) = sum_list (map rounds ts)"
    "list_all (thread_ok l) ts \<Longrightarrow> list_all (thread_ok l) us"
    "0 < cnt asleep us \<Longrightarrow> cnt alert us = Suc (cnt alert ts)"
    "cnt alert ts \<le> cnt alert us" "cnt asleep us \<le> cnt asleep ts"
proof -
  consider "us = ts" "cnt asleep ts = 0" | "j < length ts" "asleep (ts ! j)" "us = ts[j := (fst (ts ! j), Woken)]"
    using assms by (auto simp: signal_def cnt_0_iff list_all_iff split: if_splits)
  then have "length us = length ts \<and> cnt holding us = cnt holding ts \<and>
    sum_list (map rounds us) = sum_list (map rounds ts) \<and>
    (list_all (thread_ok l) ts \<longrightarrow> list_all (thread_ok l) us) \<and>
    (0 < cnt asleep us \<longrightarrow> cnt alert us = Suc (cnt alert ts)) \<and>
    cnt alert ts \<le> cnt alert us \<and> cnt asleep us \<le> cnt asleep ts"
  proof cases
    case 2
    obtain i where t: "ts ! j = (i, Waiting)" using 2(2) by (cases "ts ! j") (auto simp: asleep_def)
    note u = cnt_update [OF 2(1), where y = "(i, Woken)", unfolded t]
      sum_map_update [OF 2(1), where f = rounds and y = "(i, Woken)", unfolded t]
    have "list_all (thread_ok l) ts \<longrightarrow> thread_ok l (i, Woken)"
      using 2(1) t by (auto simp: list_all_length thread_ok_def dest!: spec [of _ j])
    then show ?thesis
      using u(1) [of holding] u(1) [of asleep] u(1) [of alert] u(2) 2(3) t
      by (auto intro: list_all_update)
  qed simp_all
  then show "length us = length ts" "cnt holding us = cnt holding ts"
    "sum_list (map rounds us) = sum_list (map rounds ts)"
    "list_all (thread_ok l) ts \<Longrightarrow> list_all (thread_ok l) us"
    "0 < cnt asleep us \<Longrightarrow> cnt alert us = Suc (cnt alert ts)"
    "cnt alert ts \<le> cnt alert us" "cnt asleep us \<le> cnt asleep ts" by blast+
qed

lemma signal_exists: "\<exists>j us. signal j ts = Some us"
proof (cases "list_all (\<lambda>t. \<not> asleep t) ts")
  case True
  then show ?thesis by (auto simp: signal_def)
next
  case False
  then obtain j where "j < length ts" "asleep (ts ! j)" by (auto simp: list_all_length)
  then show ?thesis by (auto simp: signal_def)
qed

section \<open>What a thread has still to do\<close>

text \<open>
  A bound on the steps of a thread of \<open>limit\<close> rounds, in which the one who signals pays for the two
  steps of the thread it wakes: of the 5 for a round, 3 are the thread's own.
\<close>

definition effort :: "nat \<Rightarrow> monitor_thread \<Rightarrow> nat" where
  "effort limit t = 5 * (limit - Suc (fst t)) +
     (case snd t of At_lock \<Rightarrow> 5 | Inside \<Rightarrow> 4 | Waiting \<Rightarrow> 3 | Woken \<Rightarrow> 5 | Leaving \<Rightarrow> 1 | Finished \<Rightarrow> 0)"

lemma effort_simps [simp]:
  "effort l (i, At_lock) = 5 * (l - Suc i) + 5" "effort l (i, Inside) = 5 * (l - Suc i) + 4"
  "effort l (i, Waiting) = 5 * (l - Suc i) + 3" "effort l (i, Woken) = 5 * (l - Suc i) + 5"
  "effort l (i, Leaving) = 5 * (l - Suc i) + 1"
  by (simp_all add: effort_def)

lemma effort_next_round [simp]: "i < l \<Longrightarrow> effort l (next_round l i) = 5 * (l - Suc i)"
  by (auto simp: next_round_def effort_def)

lemma effort_update:
  "k < length ts \<Longrightarrow> sum_list (map (effort l) (ts[k := t])) + effort l (ts ! k) = sum_list (map (effort l) ts) + effort l t"
  by (rule sum_map_update)

lemma effort_signal:
  assumes "signal j ts = Some us"
  shows "sum_list (map (effort l) us) \<le> sum_list (map (effort l) ts) + 2"
proof -
  consider "us = ts" | "j < length ts" "asleep (ts ! j)" "us = ts[j := (fst (ts ! j), Woken)]"
    using assms by (auto simp: signal_def split: if_splits)
  then show ?thesis
  proof cases
    case 2
    obtain i where "ts ! j = (i, Waiting)" using 2(2) by (cases "ts ! j") (auto simp: asleep_def)
    with effort_update [OF 2(1), of l "(i, Woken)"] 2(3) show ?thesis by simp
  qed simp
qed

section \<open>The buffer between producers and consumers\<close>

text \<open>
  The interface: \<open>items b\<close> are the items in the buffer, oldest first; below the capacity \<open>put\<close> adds at
  the end, and \<open>get\<close> takes the first of a buffer that is not empty.
\<close>

locale bounded_fifo =
  fixes put :: "'x \<Rightarrow> 'b \<Rightarrow> 'b" and get :: "'b \<Rightarrow> 'x \<times> 'b" and items :: "'b \<Rightarrow> 'x list"
    and ok :: "'b \<Rightarrow> bool" and cap :: nat
  assumes put_items: "ok b \<Longrightarrow> length (items b) < cap \<Longrightarrow> items (put x b) = items b @ [x]"
    and put_ok: "ok b \<Longrightarrow> length (items b) < cap \<Longrightarrow> ok (put x b)"
    and get_fst: "ok b \<Longrightarrow> items b \<noteq> [] \<Longrightarrow> fst (get b) = hd (items b)"
    and get_items: "ok b \<Longrightarrow> items b \<noteq> [] \<Longrightarrow> items (snd (get b)) = tl (items b)"
    and get_ok: "ok b \<Longrightarrow> items b \<noteq> [] \<Longrightarrow> ok (snd (get b))"
begin

text \<open>
  What both sides can rely on: the items produced so far are those consumed, in order, followed by
  those in the buffer, and both operations keep it so.
\<close>

definition history :: "'b \<Rightarrow> 'x list \<Rightarrow> 'x list \<Rightarrow> bool" where
  "history b made used \<longleftrightarrow> ok b \<and> length (items b) \<le> cap \<and> made = used @ items b"

lemma history_put:
  "history b made used \<Longrightarrow> length (items b) < cap \<Longrightarrow> history (put x b) (made @ [x]) used"
  by (simp add: history_def put_items put_ok)

lemma history_get:
  "history b made used \<Longrightarrow> items b \<noteq> [] \<Longrightarrow> history (snd (get b)) made (used @ [fst (get b)])"
  by (cases "items b") (auto simp: history_def get_fst get_items get_ok)

lemma history_prefix: "history b made used \<Longrightarrow> used = take (length used) made"
  by (simp add: history_def)

lemma history_counts: "history b made used \<Longrightarrow> length made = length used + length (items b)"
  by (simp add: history_def)

end

end
