(* ===== verification/N_Consumer.thy ===== *)
theory N_Consumer
  imports Monitor
begin

text \<open>
  \<open>S4_Thread/nConsumer.c\<close>: two producers and three consumers around a ring buffer of five places, with
  one mutex and two condition variables. A step is what one thread does between two synchronisation
  calls, all of it under the mutex; \<open>rand () % 100\<close> and the choice of \<open>pthread_cond_signal\<close> are inputs of
  the step.
\<close>

section \<open>The ring buffer\<close>

definition BUFFER_SIZE :: nat where "BUFFER_SIZE = 5"
definition NUM_PRODUCERS :: nat where "NUM_PRODUCERS = 2"
definition NUM_CONSUMERS :: nat where "NUM_CONSUMERS = 3"
definition NUM_ITEMS :: nat where "NUM_ITEMS = 10"

definition consumer_rounds :: nat where
  "consumer_rounds = (NUM_PRODUCERS * NUM_ITEMS) div NUM_CONSUMERS"

record ring =
  buffer :: "int list"
  count :: nat
  in_idx :: nat
  out_idx :: nat

definition ring_put :: "int \<Rightarrow> ring \<Rightarrow> ring" where
  "ring_put item b = b\<lparr>buffer := (buffer b)[in_idx b := item],
     in_idx := (in_idx b + 1) mod BUFFER_SIZE, count := count b + 1\<rparr>"

definition ring_get :: "ring \<Rightarrow> int \<times> ring" where
  "ring_get b = (buffer b ! out_idx b,
     b\<lparr>out_idx := (out_idx b + 1) mod BUFFER_SIZE, count := count b - 1\<rparr>)"

definition ring_items :: "ring \<Rightarrow> int list" where
  "ring_items b = map (\<lambda>k. buffer b ! ((out_idx b + k) mod BUFFER_SIZE)) [0..<count b]"

definition ring_ok :: "ring \<Rightarrow> bool" where
  "ring_ok b \<longleftrightarrow> length (buffer b) = BUFFER_SIZE \<and> out_idx b < BUFFER_SIZE \<and>
     in_idx b = (out_idx b + count b) mod BUFFER_SIZE"

definition empty_ring :: ring where
  "empty_ring = \<lparr>buffer = replicate BUFFER_SIZE 0, count = 0, in_idx = 0, out_idx = 0\<rparr>"

lemma length_ring_items [simp]: "length (ring_items b) = count b"
  by (simp add: ring_items_def)

lemma ring_items_empty [simp]: "ring_items b = [] \<longleftrightarrow> count b = 0"
  by (simp add: ring_items_def)

lemma mod_add_inj:
  assumes "i < n" "j < n" "(a + i) mod n = (a + j) mod n"
  shows "i = (j :: nat)"
proof -
  have "i = j" if "i \<le> j" "j < n" "(a + i) mod n = (a + j) mod n" for i j
  proof -
    have "n dvd (a + j) - (a + i)"
      by (rule iffD1 [OF mod_eq_dvd_iff_nat]) (use that in simp_all)
    then have "n dvd j - i" by simp
    moreover have "j - i < n" using that by simp
    ultimately have "j - i = 0" using nat_dvd_not_less [of "j - i" n] by auto
    then show ?thesis using that by simp
  qed
  from this [of i j] this [of j i] assms show ?thesis by (cases "i \<le> j") auto
qed

lemma ring_put_items:
  assumes "ring_ok b" "count b < BUFFER_SIZE"
  shows "ring_items (ring_put x b) = ring_items b @ [x]"
proof -
  have "in_idx b < length (buffer b)" using assms(1) by (simp add: ring_ok_def BUFFER_SIZE_def)
  moreover have "(buffer b)[in_idx b := x] ! ((out_idx b + k) mod BUFFER_SIZE) =
      buffer b ! ((out_idx b + k) mod BUFFER_SIZE)" if "k < count b" for k
    by (rule nth_list_update_neq)
      (use that assms mod_add_inj [of k BUFFER_SIZE "count b" "out_idx b"] in \<open>auto simp: ring_ok_def\<close>)
  moreover have "in_idx b = (out_idx b + count b) mod BUFFER_SIZE" using assms(1) by (simp add: ring_ok_def)
  ultimately show ?thesis by (simp add: ring_items_def ring_put_def)
qed

lemma ring_get_items:
  assumes "ring_ok b" "count b \<noteq> 0"
  shows "ring_items b = fst (ring_get b) # ring_items (snd (ring_get b))"
proof -
  obtain n where n: "count b = Suc n" using assms(2) by (cases "count b") auto
  have "(Suc (out_idx b) mod BUFFER_SIZE + k) mod BUFFER_SIZE = (out_idx b + Suc k) mod BUFFER_SIZE" for k
    by (simp add: mod_add_left_eq)
  moreover have "out_idx b mod BUFFER_SIZE = out_idx b" using assms(1) by (simp add: ring_ok_def)
  ultimately show ?thesis
    by (simp add: ring_items_def ring_get_def n upt_conv_Cons map_Suc_upt [symmetric] del: upt_Suc)
qed

lemma ring_put_ok: "ring_ok b \<Longrightarrow> ring_ok (ring_put x b)"
  by (auto simp: ring_ok_def ring_put_def mod_Suc_eq)

lemma ring_get_ok: "ring_ok b \<Longrightarrow> count b \<noteq> 0 \<Longrightarrow> ring_ok (snd (ring_get b))"
  by (cases "count b") (auto simp: ring_ok_def ring_get_def BUFFER_SIZE_def mod_add_left_eq)

interpretation ring_fifo: bounded_fifo ring_put ring_get ring_items ring_ok BUFFER_SIZE
proof
  fix b x
  assume ok: "ring_ok b"
  show "length (ring_items b) < BUFFER_SIZE \<Longrightarrow> ring_items (ring_put x b) = ring_items b @ [x]"
    using ok ring_put_items by simp
  show "ring_ok (ring_put x b)" by (rule ring_put_ok [OF ok])
  assume ne: "ring_items b \<noteq> []"
  show "fst (ring_get b) = hd (ring_items b)" "ring_items (snd (ring_get b)) = tl (ring_items b)"
    using ring_get_items [OF ok] ne by simp_all
  show "ring_ok (snd (ring_get b))" using ring_get_ok ok ne by simp
qed

section \<open>The threads\<close>

text \<open>\<open>made\<close> and \<open>used\<close> are the items produced and consumed so far, in order.\<close>

record workshop =
  ring :: ring
  locked :: bool
  producers :: "monitor_thread list"
  consumers :: "monitor_thread list"
  made :: "int list"
  used :: "int list"

definition workshop_start :: workshop where
  "workshop_start = \<lparr>ring = empty_ring, locked = False,
     producers = replicate NUM_PRODUCERS (0, At_lock),
     consumers = replicate NUM_CONSUMERS (0, At_lock), made = [], used = []\<rparr>"

text \<open>One step of producer \<open>k\<close>: \<open>item\<close> is what \<open>rand () % 100\<close> gives, \<open>j\<close> the consumer a signal wakes.\<close>

definition producer_step :: "nat \<Rightarrow> int \<Rightarrow> nat \<Rightarrow> workshop \<Rightarrow> workshop option" where
  "producer_step k item j w =
     (let (i, ph) = producers w ! k; set = (\<lambda>t. (producers w)[k := t]) in
      case ph of
        At_lock \<Rightarrow> if locked w then None
            else Some (w\<lparr>locked := True, producers := set (i, Inside)\<rparr>)
      | Woken \<Rightarrow> if locked w then None
            else Some (w\<lparr>locked := True, producers := set (i, Inside)\<rparr>)
      | Inside \<Rightarrow>
          if count (ring w) = BUFFER_SIZE
          then Some (w\<lparr>locked := False, producers := set (i, Waiting)\<rparr>)
          else map_option (\<lambda>cs. w\<lparr>ring := ring_put item (ring w), made := made w @ [item],
                   consumers := cs, producers := set (i, Leaving)\<rparr>) (signal j (consumers w))
      | Leaving \<Rightarrow> Some (w\<lparr>locked := False, producers := set (next_round NUM_ITEMS i)\<rparr>)
      | Waiting \<Rightarrow> None
      | Finished \<Rightarrow> None)"

definition consumer_step :: "nat \<Rightarrow> nat \<Rightarrow> workshop \<Rightarrow> workshop option" where
  "consumer_step k j w =
     (let (i, ph) = consumers w ! k; set = (\<lambda>t. (consumers w)[k := t]) in
      case ph of
        At_lock \<Rightarrow> if locked w then None
            else Some (w\<lparr>locked := True, consumers := set (i, Inside)\<rparr>)
      | Woken \<Rightarrow> if locked w then None
            else Some (w\<lparr>locked := True, consumers := set (i, Inside)\<rparr>)
      | Inside \<Rightarrow>
          if count (ring w) = 0
          then Some (w\<lparr>locked := False, consumers := set (i, Waiting)\<rparr>)
          else (let (item, b) = ring_get (ring w) in
                map_option (\<lambda>ps. w\<lparr>ring := b, used := used w @ [item],
                   producers := ps, consumers := set (i, Leaving)\<rparr>) (signal j (producers w)))
      | Leaving \<Rightarrow> Some (w\<lparr>locked := False, consumers := set (next_round consumer_rounds i)\<rparr>)
      | Waiting \<Rightarrow> None
      | Finished \<Rightarrow> None)"

text \<open>\<open>pthread_cond_wait\<close> may also return without a signal.\<close>

definition spurious :: "nat \<Rightarrow> monitor_thread list \<Rightarrow> monitor_thread list" where
  "spurious k ts = (if k < length ts \<and> asleep (ts ! k) then ts[k := (fst (ts ! k), Woken)] else ts)"

inductive workshop_step :: "workshop \<Rightarrow> workshop \<Rightarrow> bool" where
  produce: "k < length (producers w) \<Longrightarrow> producer_step k item j w = Some w' \<Longrightarrow> workshop_step w w'"
| consume: "k < length (consumers w) \<Longrightarrow> consumer_step k j w = Some w' \<Longrightarrow> workshop_step w w'"
| wake_producer: "workshop_step w (w\<lparr>producers := spurious k (producers w)\<rparr>)"
| wake_consumer: "workshop_step w (w\<lparr>consumers := spurious k (consumers w)\<rparr>)"

inductive_cases workshop_stepE: "workshop_step w w'"

text \<open>\<open>main\<close> returns when it has joined all five threads.\<close>

definition all_finished :: "workshop \<Rightarrow> bool" where
  "all_finished w \<longleftrightarrow> list_all (\<lambda>t. snd t = Finished) (producers w @ consumers w)"

end
