(* ===== verification/N_Consumer_Theorems.thy ===== *)
theory N_Consumer_Theorems
  imports N_Consumer
begin

text \<open>
  The properties of the producers and consumers: mutual exclusion, the order of the items, no deadlock,
  and what is left when all threads have finished.
\<close>

section \<open>The invariant\<close>

definition workshop_inv :: "workshop \<Rightarrow> bool" where
  "workshop_inv w \<longleftrightarrow>
     ring_fifo.history (ring w) (made w) (used w) \<and>
     length (producers w) = NUM_PRODUCERS \<and> length (consumers w) = NUM_CONSUMERS \<and>
     list_all (thread_ok NUM_ITEMS) (producers w) \<and>
     list_all (thread_ok consumer_rounds) (consumers w) \<and>
     length (made w) = sum_list (map rounds (producers w)) \<and>
     length (used w) = sum_list (map rounds (consumers w)) \<and>
     of_bool (locked w) = cnt holding (producers w) + cnt holding (consumers w) \<and>
     (0 < cnt asleep (producers w) \<longrightarrow> BUFFER_SIZE \<le> count (ring w) + cnt alert (producers w)) \<and>
     (0 < cnt asleep (consumers w) \<longrightarrow> count (ring w) \<le> cnt alert (consumers w))"

lemma ring_counts:
  "count (ring_put x b) = count b + 1" "count (snd (ring_get b)) = count b - 1"
  by (simp_all add: ring_put_def ring_get_def)

text \<open>What changes when thread \<open>k\<close> of a list becomes \<open>t\<close>.\<close>

lemma thread_update:
  assumes "k < length ts" "ts ! k = (i, ph)"
  shows "cnt holding (ts[k := t]) + of_bool (holding (i, ph)) = cnt holding ts + of_bool (holding t)"
    "cnt asleep (ts[k := t]) + of_bool (asleep (i, ph)) = cnt asleep ts + of_bool (asleep t)"
    "cnt alert (ts[k := t]) + of_bool (alert (i, ph)) = cnt alert ts + of_bool (alert t)"
    "sum_list (map rounds (ts[k := t])) + rounds (i, ph) = sum_list (map rounds ts) + rounds t"
  using cnt_update [OF assms(1), of _ t] sum_map_update [OF assms(1), of rounds t] assms(2) by simp_all

lemma thread_at:
  "list_all (thread_ok l) ts \<Longrightarrow> k < length ts \<Longrightarrow> ts ! k = (i, ph) \<Longrightarrow> thread_ok l (i, ph)"
  by (auto simp: list_all_length dest!: spec [of _ k])

lemma producer_step_inv:
  assumes inv: "workshop_inv w" and k: "k < length (producers w)"
    and step: "producer_step k item j w = Some w'"
  shows "workshop_inv w'"
proof -
  obtain i ph where t: "producers w ! k = (i, ph)" by (cases "producers w ! k")
  note u = thread_update [OF k t]
  have tok: "thread_ok NUM_ITEMS (i, ph)"
    using inv by (intro thread_at [OF _ k t]) (simp add: workshop_inv_def)
  show ?thesis
  proof (cases ph)
    case At_lock
    then show ?thesis using inv step t u [of "(i, Inside)"] tok
      by (auto simp: producer_step_def workshop_inv_def list_all_update split: if_splits)
  next
    case Woken
    then show ?thesis using inv step t u [of "(i, Inside)"] tok
      by (auto simp: producer_step_def workshop_inv_def list_all_update split: if_splits)
  next
    case Inside
    show ?thesis
    proof (cases "count (ring w) = BUFFER_SIZE")
      case True
      then show ?thesis using inv step t Inside u [of "(i, Waiting)"] tok
        by (cases "locked w") (auto simp: producer_step_def workshop_inv_def list_all_update)
    next
      case False
      then obtain cs where cs: "signal j (consumers w) = Some cs"
        "w' = w\<lparr>ring := ring_put item (ring w), made := made w @ [item], consumers := cs,
                 producers := (producers w)[k := (i, Leaving)]\<rparr>"
        using step t Inside by (auto simp: producer_step_def)
      have h: "ring_fifo.history (ring w) (made w) (used w)" using inv by (simp add: workshop_inv_def)
      then have lt: "length (ring_items (ring w)) < BUFFER_SIZE"
        using False by (auto simp: ring_fifo.history_def)
      show ?thesis using inv cs(2) u [of "(i, Leaving)"] tok Inside
          signal_effect [OF cs(1)] signal_effect(4) [OF cs(1), of consumer_rounds]
          ring_fifo.history_put [OF h lt, of item]
        by (auto simp: workshop_inv_def list_all_update ring_counts)
    qed
  next
    case Leaving
    then show ?thesis using inv step t u [of "next_round NUM_ITEMS i"] tok
      by (cases "locked w") (auto simp: producer_step_def workshop_inv_def list_all_update)
  qed (use step t in \<open>simp_all add: producer_step_def\<close>)
qed

lemma consumer_step_inv:
  assumes inv: "workshop_inv w" and k: "k < length (consumers w)"
    and step: "consumer_step k j w = Some w'"
  shows "workshop_inv w'"
proof -
  obtain i ph where t: "consumers w ! k = (i, ph)" by (cases "consumers w ! k")
  note u = thread_update [OF k t]
  have tok: "thread_ok consumer_rounds (i, ph)"
    using inv by (intro thread_at [OF _ k t]) (simp add: workshop_inv_def)
  show ?thesis
  proof (cases ph)
    case At_lock
    then show ?thesis using inv step t u [of "(i, Inside)"] tok
      by (auto simp: consumer_step_def workshop_inv_def list_all_update split: if_splits)
  next
    case Woken
    then show ?thesis using inv step t u [of "(i, Inside)"] tok
      by (auto simp: consumer_step_def workshop_inv_def list_all_update split: if_splits)
  next
    case Inside
    show ?thesis
    proof (cases "count (ring w) = 0")
      case True
      then show ?thesis using inv step t Inside u [of "(i, Waiting)"] tok
        by (cases "locked w") (auto simp: consumer_step_def workshop_inv_def list_all_update)
    next
      case False
      then obtain ps where ps: "signal j (producers w) = Some ps"
        "w' = w\<lparr>ring := snd (ring_get (ring w)), used := used w @ [fst (ring_get (ring w))],
                 producers := ps, consumers := (consumers w)[k := (i, Leaving)]\<rparr>"
        using step t Inside by (auto simp: consumer_step_def case_prod_beta)
      have h: "ring_fifo.history (ring w) (made w) (used w)" using inv by (simp add: workshop_inv_def)
      have ne: "ring_items (ring w) \<noteq> []" using False by simp
      show ?thesis using inv ps(2) u [of "(i, Leaving)"] tok Inside False
          signal_effect [OF ps(1)] signal_effect(4) [OF ps(1), of NUM_ITEMS]
          ring_fifo.history_get [OF h ne]
        by (auto simp: workshop_inv_def list_all_update ring_counts)
    qed
  next
    case Leaving
    then show ?thesis using inv step t u [of "next_round consumer_rounds i"] tok
      by (cases "locked w") (auto simp: consumer_step_def workshop_inv_def list_all_update)
  qed (use step t in \<open>simp_all add: consumer_step_def\<close>)
qed

lemma spurious_effect:
  "length (spurious k ts) = length ts" "cnt holding (spurious k ts) = cnt holding ts"
  "sum_list (map rounds (spurious k ts)) = sum_list (map rounds ts)"
  "list_all (thread_ok l) ts \<Longrightarrow> list_all (thread_ok l) (spurious k ts)"
  "cnt alert ts \<le> cnt alert (spurious k ts)" "cnt asleep (spurious k ts) \<le> cnt asleep ts"
proof -
  have "spurious k ts = ts \<or> signal k ts = Some (spurious k ts)"
    by (auto simp: spurious_def signal_def)
  then show "length (spurious k ts) = length ts" "cnt holding (spurious k ts) = cnt holding ts"
    "sum_list (map rounds (spurious k ts)) = sum_list (map rounds ts)"
    "list_all (thread_ok l) ts \<Longrightarrow> list_all (thread_ok l) (spurious k ts)"
    "cnt alert ts \<le> cnt alert (spurious k ts)" "cnt asleep (spurious k ts) \<le> cnt asleep ts"
    using signal_effect [of k ts "spurious k ts"] by auto
qed

lemma spurious_inv:
  assumes "workshop_inv w"
  shows "workshop_inv (w\<lparr>producers := spurious k (producers w)\<rparr>)"
    "workshop_inv (w\<lparr>consumers := spurious k (consumers w)\<rparr>)"
proof -
  have w: "0 < cnt asleep (spurious k ts) \<longrightarrow> n \<le> m + cnt alert (spurious k ts)"
    if "0 < cnt asleep ts \<longrightarrow> n \<le> m + cnt alert ts" for n m :: nat and ts
    using that spurious_effect(5) [where ts = ts and k = k] spurious_effect(6) [where ts = ts and k = k]
    by linarith
  have ok: "list_all (thread_ok NUM_ITEMS) (spurious k (producers w))"
    "list_all (thread_ok consumer_rounds) (spurious k (consumers w))"
    using assms by (simp_all add: workshop_inv_def spurious_effect(4))
  note i = assms [unfolded workshop_inv_def]
  have p: "0 < cnt asleep (spurious k (producers w)) \<longrightarrow>
      BUFFER_SIZE \<le> count (ring w) + cnt alert (spurious k (producers w))"
    by (rule w) (use i in blast)
  have c: "0 < cnt asleep (spurious k (consumers w)) \<longrightarrow>
      count (ring w) \<le> 0 + cnt alert (spurious k (consumers w))"
    by (rule w) (use i in simp)
  show "workshop_inv (w\<lparr>producers := spurious k (producers w)\<rparr>)"
    using i ok(1) p by (simp add: workshop_inv_def spurious_effect(1-3))
  show "workshop_inv (w\<lparr>consumers := spurious k (consumers w)\<rparr>)"
    using i ok(2) c by (simp add: workshop_inv_def spurious_effect(1-3))
qed

lemma workshop_inv_step: "workshop_inv w \<Longrightarrow> workshop_step w w' \<Longrightarrow> workshop_inv w'"
  by (erule workshop_stepE) (blast intro: spurious_inv producer_step_inv consumer_step_inv)+

lemma workshop_inv_start: "workshop_inv workshop_start"
proof -
  have pos: "0 < NUM_ITEMS" "0 < consumer_rounds"
    by (simp_all add: NUM_ITEMS_def consumer_rounds_def NUM_PRODUCERS_def NUM_CONSUMERS_def)
  have "ring_fifo.history empty_ring [] []"
    unfolding ring_fifo.history_def
    by (simp add: ring_ok_def ring_items_def empty_ring_def BUFFER_SIZE_def)
  moreover have "list_all (thread_ok l) (replicate n (0, At_lock))" if "0 < l" for n l
    using that by (auto simp: list_all_iff)
  ultimately show ?thesis using pos
    by (simp add: workshop_inv_def workshop_start_def cnt_replicate sum_list_replicate)
qed

interpretation workshop_sys: invariant_system "\<lambda>w. w = workshop_start" workshop_step workshop_inv
  by unfold_locales (auto intro: workshop_inv_start workshop_inv_step)

abbreviation workshop_reach :: "workshop \<Rightarrow> bool" where
  "workshop_reach \<equiv> reach (\<lambda>w. w = workshop_start) workshop_step"

section \<open>Properties\<close>

text \<open>
  C12: in every reachable state, spurious wake-ups included, at most one thread is between its lock and
  unlock, the buffer holds at most five items, and the items consumed so far followed by those in the
  buffer are exactly the items produced, in the order in which they were produced.
\<close>

theorem items_in_order:
  assumes "workshop_reach w"
  shows "cnt holding (producers w @ consumers w) \<le> 1 \<and> count (ring w) \<le> BUFFER_SIZE \<and>
    made w = used w @ ring_items (ring w) \<and> length (ring_items (ring w)) = count (ring w)"
  using workshop_sys.reach_inv [OF assms]
  by (cases "locked w") (simp_all add: workshop_inv_def ring_fifo.history_def)

definition first_item :: workshop where
  "first_item = the (Option.bind (producer_step 0 7 0 workshop_start) (producer_step 0 7 0))"

lemma first_item_reach: "workshop_reach first_item"
proof -
  let ?w1 = "workshop_start\<lparr>locked := True, producers := [(0, Inside), (0, At_lock)]\<rparr>"
  have 1: "producer_step 0 7 0 workshop_start = Some ?w1"
    by (simp add: producer_step_def workshop_start_def NUM_PRODUCERS_def numeral_2_eq_2)
  obtain w2 where 2: "producer_step 0 7 0 ?w1 = Some w2"
    by (simp add: producer_step_def workshop_start_def empty_ring_def BUFFER_SIZE_def signal_def
        NUM_CONSUMERS_def numeral_3_eq_3)
  have "workshop_step workshop_start ?w1"
    by (rule produce [OF _ 1]) (simp add: workshop_start_def NUM_PRODUCERS_def)
  then have "workshop_reach ?w1" by (rule reach_step [rotated]) (simp add: reach_start)
  moreover have "workshop_step ?w1 w2" by (rule produce [OF _ 2]) simp
  ultimately have "workshop_reach w2" by (rule reach_step)
  then show ?thesis using 1 2 by (simp add: first_item_def)
qed

lemma items_in_order_witness: "made first_item = used first_item @ ring_items (ring first_item)"
  using items_in_order [OF first_item_reach] by simp

lemma thread_blocked:
  assumes "list_all (thread_ok l) ts" "cnt holding ts = 0" "cnt alert ts = 0"
    "\<forall>k < length ts. snd (ts ! k) \<noteq> At_lock" "cnt asleep ts = 0"
  shows "list_all (\<lambda>t. snd t = Finished) ts" "sum_list (map rounds ts) = l * length ts"
proof -
  have fin: "t = (l, Finished)" if t: "t \<in> set ts" for t
  proof -
    obtain i ph where t': "t = (i, ph)" by (cases t)
    have "ph \<noteq> At_lock" using assms(4) t t' by (auto simp: in_set_conv_nth)
    moreover have "\<not> holding t" "\<not> alert t" "\<not> asleep t"
      using assms(2,3,5) t by (auto simp: cnt_0_iff)
    ultimately have "ph = Finished" using t' by (cases ph) auto
    then show ?thesis using assms(1) t t' by (auto simp: list_all_iff)
  qed
  then show "list_all (\<lambda>t. snd t = Finished) ts" by (auto simp: list_all_iff)
  have "map rounds ts = replicate (length ts) l"
    using fin by (intro replicate_eqI) (auto dest!: fin)
  then show "sum_list (map rounds ts) = l * length ts" by (simp add: sum_list_replicate)
qed

lemma stuck_threads:
  assumes inv: "workshop_inv w"
    and p: "\<forall>k < length (producers w). \<forall>item j. producer_step k item j w = None"
    and c: "\<forall>k < length (consumers w). \<forall>j. consumer_step k j w = None"
  shows "cnt holding (producers w) = 0" "cnt holding (consumers w) = 0"
    "cnt alert (producers w) = 0" "cnt alert (consumers w) = 0"
    "\<forall>k < length (producers w). snd (producers w ! k) \<noteq> At_lock"
    "\<forall>k < length (consumers w). snd (consumers w ! k) \<noteq> At_lock"
proof -
  have hp: "snd (producers w ! k) \<noteq> Inside \<and> snd (producers w ! k) \<noteq> Leaving"
    if k: "k < length (producers w)" for k
  proof -
    obtain i ph where t: "producers w ! k = (i, ph)" by (cases "producers w ! k")
    obtain j us where "signal j (consumers w) = Some us" using signal_exists by blast
    moreover have "producer_step k 0 j w = None" using p k by blast
    ultimately show ?thesis using t by (auto simp: producer_step_def Let_def split: if_splits)
  qed
  have hc: "snd (consumers w ! k) \<noteq> Inside \<and> snd (consumers w ! k) \<noteq> Leaving"
    if k: "k < length (consumers w)" for k
  proof -
    obtain i ph where t: "consumers w ! k = (i, ph)" by (cases "consumers w ! k")
    obtain j us where "signal j (producers w) = Some us" using signal_exists by blast
    moreover have "consumer_step k j w = None" using c k by blast
    ultimately show ?thesis using t by (auto simp: consumer_step_def Let_def case_prod_beta split: if_splits)
  qed
  show h: "cnt holding (producers w) = 0" "cnt holding (consumers w) = 0"
    using hp hc by (simp_all add: cnt_zero_nth holding_def)
  then have nl: "\<not> locked w" using inv by (auto simp: workshop_inv_def)
  have lp: "snd (producers w ! k) \<noteq> At_lock \<and> snd (producers w ! k) \<noteq> Woken"
    if k: "k < length (producers w)" for k
  proof -
    obtain i ph where t: "producers w ! k = (i, ph)" by (cases "producers w ! k")
    have "producer_step k 0 0 w = None" using p k by blast
    then show ?thesis using t nl by (auto simp: producer_step_def)
  qed
  have lc: "snd (consumers w ! k) \<noteq> At_lock \<and> snd (consumers w ! k) \<noteq> Woken"
    if k: "k < length (consumers w)" for k
  proof -
    obtain i ph where t: "consumers w ! k = (i, ph)" by (cases "consumers w ! k")
    have "consumer_step k 0 w = None" using c k by blast
    then show ?thesis using t nl by (auto simp: consumer_step_def)
  qed
  show "cnt alert (producers w) = 0" "cnt alert (consumers w) = 0"
    using hp hc lp lc by (simp_all add: cnt_zero_nth alert_def)
  show "\<forall>k < length (producers w). snd (producers w ! k) \<noteq> At_lock"
    "\<forall>k < length (consumers w). snd (consumers w ! k) \<noteq> At_lock"
    using lp lc by blast+
qed

text \<open>
  the threads never block each other for good: in every reachable state either all five threads
  have finished or one of them can go on, without the help of a spurious wake-up.
\<close>

theorem workshop_no_deadlock:
  assumes "workshop_reach w" "\<not> all_finished w"
  shows "(\<exists>k < length (producers w). \<exists>item j. producer_step k item j w \<noteq> None) \<or>
    (\<exists>k < length (consumers w). \<exists>j. consumer_step k j w \<noteq> None)"
proof (rule ccontr)
  assume stuck: "\<not> ?thesis"
  have inv: "workshop_inv w" by (rule workshop_sys.reach_inv [OF assms(1)])
  then have h: "length (made w) = length (used w) + count (ring w)"
    by (simp add: workshop_inv_def ring_fifo.history_def)
  note s = stuck_threads [OF inv]
  have no: "cnt holding (producers w) = 0" "cnt holding (consumers w) = 0"
    "cnt alert (producers w) = 0" "cnt alert (consumers w) = 0"
    "\<forall>k < length (producers w). snd (producers w ! k) \<noteq> At_lock"
    "\<forall>k < length (consumers w). snd (consumers w ! k) \<noteq> At_lock"
    using s stuck by blast+
  have ok: "list_all (thread_ok NUM_ITEMS) (producers w)" "list_all (thread_ok consumer_rounds) (consumers w)"
    using inv by (simp_all add: workshop_inv_def)
  have max: "sum_list (map rounds ts) \<le> l * length ts" if "list_all (thread_ok l) ts" "cnt holding ts = 0" for l ts
    using that by (induction ts) (auto simp: thread_ok_def rounds_def holding_def split: if_splits)
  have made: "length (made w) \<le> 20" "cnt asleep (producers w) = 0 \<Longrightarrow> length (made w) = 20"
    using inv max [OF ok(1) no(1)] thread_blocked(2) [OF ok(1) no(1,3,5)]
    by (simp_all add: workshop_inv_def NUM_ITEMS_def NUM_PRODUCERS_def)
  have used: "length (used w) \<le> 18" "cnt asleep (consumers w) = 0 \<Longrightarrow> length (used w) = 18"
    using inv max [OF ok(2) no(2)] thread_blocked(2) [OF ok(2) no(2,4,6)]
    by (simp_all add: workshop_inv_def consumer_rounds_def NUM_ITEMS_def NUM_PRODUCERS_def NUM_CONSUMERS_def)
  have full: "0 < cnt asleep (producers w) \<Longrightarrow> BUFFER_SIZE \<le> count (ring w)"
    and none: "0 < cnt asleep (consumers w) \<Longrightarrow> count (ring w) = 0"
    using inv no by (auto simp: workshop_inv_def)
  have "cnt asleep (producers w) = 0"
  proof (rule ccontr)
    assume "cnt asleep (producers w) \<noteq> 0"
    then have c: "5 \<le> count (ring w)" using full by (simp add: BUFFER_SIZE_def)
    then have "cnt asleep (consumers w) = 0" using none by fastforce
    then show False using h made(1) used(2) c by simp
  qed
  moreover have "cnt asleep (consumers w) = 0"
  proof (rule ccontr)
    assume "cnt asleep (consumers w) \<noteq> 0"
    then show False using h none made(2) used(1) calculation by simp
  qed
  ultimately show False
    using thread_blocked(1) [OF ok(1) no(1,3,5)] thread_blocked(1) [OF ok(2) no(2,4,6)] assms(2)
    by (simp add: all_finished_def)
qed

lemma workshop_no_deadlock_witness:
  "(\<exists>k < length (producers first_item). \<exists>item j. producer_step k item j first_item \<noteq> None) \<or>
    (\<exists>k < length (consumers first_item). \<exists>j. consumer_step k j first_item \<noteq> None)"
proof -
  have "\<not> all_finished first_item" by code_simp
  then show ?thesis by (rule workshop_no_deadlock [OF first_item_reach])
qed

text \<open>A run as a list of turns, in which a signal wakes thread 0.\<close>

datatype turn = P nat int | C nat

fun take_turns :: "turn list \<Rightarrow> workshop \<Rightarrow> workshop option" where
  "take_turns [] w = Some w"
| "take_turns (P k x # ts) w = (if k < length (producers w)
     then Option.bind (producer_step k x 0 w) (take_turns ts) else None)"
| "take_turns (C k # ts) w = (if k < length (consumers w)
     then Option.bind (consumer_step k 0 w) (take_turns ts) else None)"

lemma take_turns_reach: "workshop_reach w \<Longrightarrow> take_turns ts w = Some w' \<Longrightarrow> workshop_reach w'"
proof (induction ts w rule: take_turns.induct)
  case (2 k x ts w)
  then obtain w1 where 1: "producer_step k x 0 w = Some w1" "k < length (producers w)"
    "take_turns ts w1 = Some w'" by (auto simp: bind_eq_Some_conv split: if_splits)
  from reach_step [OF "2.prems"(1) produce [OF 1(2,1)]] 1 "2.IH" show ?case by blast
next
  case (3 k ts w)
  then obtain w1 where 1: "consumer_step k 0 w = Some w1" "k < length (consumers w)"
    "take_turns ts w1 = Some w'" by (auto simp: bind_eq_Some_conv split: if_splits)
  from reach_step [OF "3.prems"(1) consume [OF 1(2,1)]] 1 "3.IH" show ?case by blast
qed simp

text \<open>
  When all five threads have finished, 20 items have been produced and the first 18 of them
  consumed, in order: three consumers of \<open>20 / 3 = 6\<close> rounds leave two items in the buffer.
\<close>

theorem finished_leaves_two:
  assumes "workshop_reach w" "all_finished w"
  shows "length (made w) = 20 \<and> used w = take 18 (made w) \<and> ring_items (ring w) = drop 18 (made w) \<and>
    count (ring w) = 2"
proof -
  have inv: "workshop_inv w" by (rule workshop_sys.reach_inv [OF assms(1)])
  have r: "sum_list (map rounds ts) = l * length ts"
    if "list_all (thread_ok l) ts" "list_all (\<lambda>t. snd t = Finished) ts" for l ts
    using that by (induction ts) (auto simp: thread_ok_def rounds_def)
  have "length (made w) = 20"
    using inv assms(2) r [of NUM_ITEMS "producers w"]
    by (simp add: workshop_inv_def all_finished_def NUM_ITEMS_def NUM_PRODUCERS_def)
  moreover have "length (used w) = 18"
    using inv assms(2) r [of consumer_rounds "consumers w"]
    by (simp add: workshop_inv_def all_finished_def consumer_rounds_def NUM_ITEMS_def
        NUM_PRODUCERS_def NUM_CONSUMERS_def)
  moreover have "made w = used w @ ring_items (ring w)"
    using inv by (simp add: workshop_inv_def ring_fifo.history_def)
  moreover have "length (made w) = length (used w) + count (ring w)"
    using calculation(3) by simp
  ultimately show ?thesis by simp
qed

definition all_turns :: "turn list" where
  "all_turns = concat (map (\<lambda>n. replicate 3 (P (n mod 2) (int n)) @
     (if n < 18 then replicate 3 (C (n mod 3)) else [])) [0..<20])"

lemma all_turns_finish: "case take_turns all_turns workshop_start of None \<Rightarrow> False | Some w \<Rightarrow> all_finished w"
  by code_simp

lemma finished_leaves_two_witness:
  "\<exists>w. take_turns all_turns workshop_start = Some w \<and> count (ring w) = 2"
proof -
  obtain w where w: "take_turns all_turns workshop_start = Some w" "all_finished w"
    using all_turns_finish by (auto split: option.splits)
  have "workshop_reach w" by (rule take_turns_reach [OF reach_start w(1)]) simp
  from finished_leaves_two [OF this w(2)] w(1) show ?thesis by blast
qed

end
