(* ===== verification/N_Consumer_Runs.thy ===== *)
theory N_Consumer_Runs
  imports N_Consumer_Theorems
begin

text \<open>
  Every run of \<open>nConsumer.c\<close> ends: a bound on the steps of the five threads, with which the absence of
  deadlocks makes the program finish under every schedule.
\<close>

section \<open>Turns and wake-ups\<close>

text \<open>The steps of the threads on the one hand, the returns of \<open>pthread_cond_wait\<close> without a signal on the other.\<close>

inductive workshop_turn :: "workshop \<Rightarrow> workshop \<Rightarrow> bool" where
  producer_moves: "k < length (producers w) \<Longrightarrow> producer_step k item j w = Some w' \<Longrightarrow> workshop_turn w w'"
| consumer_moves: "k < length (consumers w) \<Longrightarrow> consumer_step k j w = Some w' \<Longrightarrow> workshop_turn w w'"

inductive workshop_wake :: "workshop \<Rightarrow> workshop \<Rightarrow> bool" where
  producer_wakes: "workshop_wake w (w\<lparr>producers := spurious k (producers w)\<rparr>)"
| consumer_wakes: "workshop_wake w (w\<lparr>consumers := spurious k (consumers w)\<rparr>)"

inductive_cases workshop_turnE: "workshop_turn w w'"
inductive_cases workshop_wakeE: "workshop_wake w w'"

lemma workshop_steps: "workshop_step w w' \<longleftrightarrow> workshop_turn w w' \<or> workshop_wake w w'"
  by (auto elim!: workshop_stepE workshop_turnE workshop_wakeE
      intro: workshop_step.intros workshop_turn.intros workshop_wake.intros)

abbreviation workshop_run :: "nat \<Rightarrow> nat \<Rightarrow> workshop \<Rightarrow> bool" where
  "workshop_run \<equiv> runs_to (\<lambda>w. w = workshop_start) workshop_turn workshop_wake"

section \<open>The potential\<close>

definition workshop_effort :: "workshop \<Rightarrow> nat" where
  "workshop_effort w = sum_list (map (effort NUM_ITEMS) (producers w)) +
     sum_list (map (effort consumer_rounds) (consumers w))"

lemma producer_lowers:
  assumes inv: "workshop_inv w" and k: "k < length (producers w)"
    and step: "producer_step k item j w = Some w'"
  shows "workshop_effort w' < workshop_effort w"
proof -
  obtain i ph where t: "producers w ! k = (i, ph)" by (cases "producers w ! k")
  have ok: "thread_ok NUM_ITEMS (i, ph)"
    using inv by (intro thread_at [OF _ k t]) (simp add: workshop_inv_def)
  note u = effort_update [OF k, of NUM_ITEMS, unfolded t]
  show ?thesis
  proof (cases "ph = Inside \<and> count (ring w) \<noteq> BUFFER_SIZE")
    case True
    then obtain cs where cs: "signal j (consumers w) = Some cs"
      "producers w' = (producers w)[k := (i, Leaving)]" "consumers w' = cs"
      using step t by (auto simp: producer_step_def)
    with u [of "(i, Leaving)"] effort_signal [OF cs(1), of consumer_rounds] True
    show ?thesis by (simp add: workshop_effort_def)
  next
    case False
    with step t ok u [of "(i, Inside)"] u [of "(i, Waiting)"] u [of "next_round NUM_ITEMS i"]
    show ?thesis by (cases ph) (auto simp: producer_step_def workshop_effort_def split: if_splits)
  qed
qed

lemma consumer_lowers:
  assumes inv: "workshop_inv w" and k: "k < length (consumers w)"
    and step: "consumer_step k j w = Some w'"
  shows "workshop_effort w' < workshop_effort w"
proof -
  obtain i ph where t: "consumers w ! k = (i, ph)" by (cases "consumers w ! k")
  have ok: "thread_ok consumer_rounds (i, ph)"
    using inv by (intro thread_at [OF _ k t]) (simp add: workshop_inv_def)
  note u = effort_update [OF k, of consumer_rounds, unfolded t]
  show ?thesis
  proof (cases "ph = Inside \<and> count (ring w) \<noteq> 0")
    case True
    then obtain ps where ps: "signal j (producers w) = Some ps"
      "consumers w' = (consumers w)[k := (i, Leaving)]" "producers w' = ps"
      using step t by (auto simp: consumer_step_def case_prod_beta)
    with u [of "(i, Leaving)"] effort_signal [OF ps(1), of NUM_ITEMS] True
    show ?thesis by (simp add: workshop_effort_def)
  next
    case False
    with step t ok u [of "(i, Inside)"] u [of "(i, Waiting)"] u [of "next_round consumer_rounds i"]
    show ?thesis by (cases ph) (auto simp: consumer_step_def workshop_effort_def split: if_splits)
  qed
qed

lemma effort_spurious: "sum_list (map (effort l) (spurious k ts)) \<le> sum_list (map (effort l) ts) + 2"
proof -
  have "spurious k ts = ts \<or> signal k ts = Some (spurious k ts)" by (auto simp: spurious_def signal_def)
  then show ?thesis using effort_signal [of k ts "spurious k ts" l] by auto
qed

interpretation workshop_runs: bounded_system "\<lambda>w. w = workshop_start" workshop_step workshop_inv
    workshop_turn workshop_wake workshop_effort 190 2
proof unfold_locales
  show "workshop_turn w w' \<or> workshop_wake w w' \<Longrightarrow> workshop_step w w'" for w w'
    by (simp add: workshop_steps)
  show "w = workshop_start \<Longrightarrow> workshop_effort w \<le> 190" for w
    by (simp add: workshop_effort_def workshop_start_def sum_list_replicate NUM_ITEMS_def consumer_rounds_def
        NUM_PRODUCERS_def NUM_CONSUMERS_def)
  show "workshop_inv w \<Longrightarrow> workshop_turn w w' \<Longrightarrow> workshop_effort w' < workshop_effort w" for w w'
    by (erule workshop_turnE) (blast intro: producer_lowers consumer_lowers)+
  show "workshop_inv w \<Longrightarrow> workshop_wake w w' \<Longrightarrow> workshop_effort w' \<le> workshop_effort w + 2" for w w'
    using effort_spurious [of NUM_ITEMS] effort_spurious [of consumer_rounds]
    by (auto elim!: workshop_wakeE simp: workshop_effort_def)
qed

text \<open>
  C13: the program finishes under every schedule. However the five threads take turns, they take at
  most 190 steps, plus 2 for each wake-up without a signal; as long as not all of them have finished,
  one of them can take its next step; and when all have, 20 items have been produced and the first 18
  of them consumed, in order: three consumers of 20 / 3 = 6 rounds leave two in the buffer.
\<close>

theorem workshop_finishes:
  assumes "workshop_run n k w"
  shows "n \<le> 190 + 2 * k \<and> (all_finished w \<or> (\<exists>w'. workshop_turn w w')) \<and>
    (all_finished w \<longrightarrow> length (made w) = 20 \<and> used w = take 18 (made w) \<and> ring_items (ring w) = drop 18 (made w))"
proof -
  have r: "workshop_reach w" by (rule counted_reach [OF assms]) (simp add: workshop_steps)
  have "n \<le> 190 + 2 * k" using workshop_runs.turns_bounded [OF assms] by simp
  moreover have "\<exists>w'. workshop_turn w w'" if "\<not> all_finished w"
    using workshop_no_deadlock [OF r that] by (blast intro: workshop_turn.intros)
  ultimately show ?thesis using finished_leaves_two [OF r] by blast
qed

lemma take_turns_run: "workshop_run n k w \<Longrightarrow> take_turns ts w = Some w' \<Longrightarrow> workshop_run (n + length ts) k w'"
proof (induction ts w arbitrary: n rule: take_turns.induct)
  case (2 i x ts w)
  then obtain w1 where 1: "i < length (producers w)" "producer_step i x 0 w = Some w1" "take_turns ts w1 = Some w'"
    by (auto simp: bind_eq_Some_conv split: if_splits)
  from "2.IH" [OF 1(1,2) counted_turn [OF "2.prems"(1) producer_moves [OF 1(1,2)]] 1(3)] show ?case by simp
next
  case (3 i ts w)
  then obtain w1 where 1: "i < length (consumers w)" "consumer_step i 0 w = Some w1" "take_turns ts w1 = Some w'"
    by (auto simp: bind_eq_Some_conv split: if_splits)
  from "3.IH" [OF 1(1,2) counted_turn [OF "3.prems"(1) consumer_moves [OF 1(1,2)]] 1(3)] show ?case by simp
qed simp

lemma workshop_finishes_witness:
  "\<exists>w. take_turns all_turns workshop_start = Some w \<and> length all_turns \<le> 190 \<and> used w = take 18 (made w)"
proof -
  obtain w where w: "take_turns all_turns workshop_start = Some w" "all_finished w"
    using all_turns_finish by (auto split: option.splits)
  have "workshop_run 0 0 workshop_start" by (rule counted_start) simp
  from workshop_finishes [OF take_turns_run [OF this w(1)]] w show ?thesis by simp
qed

end
