(* ===== verification/Cond_Var.thy ===== *)
theory Cond_Var
  imports Monitor
begin

text \<open>
  \<open>S4_Thread/ex3_condition_variable.c\<close>: one producer and one consumer hand over ten values through the
  variable \<open>g_data\<close> and the flag \<open>g_data_ready\<close>, with one mutex and one condition variable on which
  both sides wait. The steps are those of \<open>Monitor\<close>; the variable and its flag are a bounded buffer of
  one place.
\<close>

section \<open>The variable and its flag\<close>

definition NUMBER_DATAS :: nat where "NUMBER_DATAS = 10"

record slot =
  g_data :: int
  g_data_ready :: bool

definition empty_slot :: slot where
  "empty_slot = \<lparr>g_data = 0, g_data_ready = False\<rparr>"

definition slot_put :: "int \<Rightarrow> slot \<Rightarrow> slot" where
  "slot_put x b = b\<lparr>g_data := x, g_data_ready := True\<rparr>"

definition slot_get :: "slot \<Rightarrow> int \<times> slot" where
  "slot_get b = (g_data b, b\<lparr>g_data_ready := False\<rparr>)"

definition slot_items :: "slot \<Rightarrow> int list" where
  "slot_items b = (if g_data_ready b then [g_data b] else [])"

lemmas slot_defs = slot_put_def slot_get_def slot_items_def

interpretation slot_fifo: bounded_fifo slot_put slot_get slot_items "\<lambda>_. True" 1
  by unfold_locales (auto simp: slot_defs split: if_splits)

section \<open>The two threads\<close>

text \<open>\<open>sent\<close> and \<open>received\<close> are the values stored and printed so far.\<close>

record handover =
  box :: slot
  g_locked :: bool
  prod :: monitor_thread
  cons :: monitor_thread
  sent :: "int list"
  received :: "int list"

definition handover_start :: handover where
  "handover_start = \<lparr>box = empty_slot, g_locked = False, prod = (0, At_lock), cons = (0, At_lock),
     sent = [], received = []\<rparr>"

text \<open>
  One step of the producer: \<open>x\<close> is what \<open>rand ()\<close> gives, \<open>j\<close> the waiting thread the signal wakes, 0 the
  producer and 1 the consumer: both wait on the same condition variable.
\<close>

definition producer_turn :: "int \<Rightarrow> nat \<Rightarrow> handover \<Rightarrow> handover option" where
  "producer_turn x j h =
     (let (i, ph) = prod h in
      case ph of
        At_lock \<Rightarrow> if g_locked h then None else Some (h\<lparr>g_locked := True, prod := (i, Inside)\<rparr>)
      | Woken \<Rightarrow> if g_locked h then None else Some (h\<lparr>g_locked := True, prod := (i, Inside)\<rparr>)
      | Inside \<Rightarrow>
          if g_data_ready (box h) then Some (h\<lparr>g_locked := False, prod := (i, Waiting)\<rparr>)
          else map_option (\<lambda>ts. h\<lparr>box := slot_put x (box h), sent := sent h @ [x],
                   prod := (i, Leaving), cons := ts ! 1\<rparr>) (signal j [prod h, cons h])
      | Leaving \<Rightarrow> Some (h\<lparr>g_locked := False, prod := next_round NUMBER_DATAS i\<rparr>)
      | Waiting \<Rightarrow> None
      | Finished \<Rightarrow> None)"

definition consumer_turn :: "nat \<Rightarrow> handover \<Rightarrow> handover option" where
  "consumer_turn j h =
     (let (i, ph) = cons h in
      case ph of
        At_lock \<Rightarrow> if g_locked h then None else Some (h\<lparr>g_locked := True, cons := (i, Inside)\<rparr>)
      | Woken \<Rightarrow> if g_locked h then None else Some (h\<lparr>g_locked := True, cons := (i, Inside)\<rparr>)
      | Inside \<Rightarrow>
          if \<not> g_data_ready (box h) then Some (h\<lparr>g_locked := False, cons := (i, Waiting)\<rparr>)
          else (let (x, b) = slot_get (box h) in
                map_option (\<lambda>ts. h\<lparr>box := b, received := received h @ [x],
                   cons := (i, Leaving), prod := ts ! 0\<rparr>) (signal j [prod h, cons h]))
      | Leaving \<Rightarrow> Some (h\<lparr>g_locked := False, cons := next_round NUMBER_DATAS i\<rparr>)
      | Waiting \<Rightarrow> None
      | Finished \<Rightarrow> None)"

inductive handover_step :: "handover \<Rightarrow> handover \<Rightarrow> bool" where
  produce: "producer_turn x j h = Some h' \<Longrightarrow> handover_step h h'"
| consume: "consumer_turn j h = Some h' \<Longrightarrow> handover_step h h'"
| wake_prod: "prod h = (i, Waiting) \<Longrightarrow> handover_step h (h\<lparr>prod := (i, Woken)\<rparr>)"
| wake_cons: "cons h = (i, Waiting) \<Longrightarrow> handover_step h (h\<lparr>cons := (i, Woken)\<rparr>)"

inductive_cases handover_stepE: "handover_step h h'"

text \<open>\<open>main\<close> returns when it has joined both threads.\<close>

definition handover_done :: "handover \<Rightarrow> bool" where
  "handover_done h \<longleftrightarrow> snd (prod h) = Finished \<and> snd (cons h) = Finished"

section \<open>The invariant\<close>

definition handover_inv :: "handover \<Rightarrow> bool" where
  "handover_inv h \<longleftrightarrow>
     slot_fifo.history (box h) (sent h) (received h) \<and>
     of_bool (g_locked h) = (of_bool (holding (prod h)) + of_bool (holding (cons h)) :: nat) \<and>
     thread_ok NUMBER_DATAS (prod h) \<and> thread_ok NUMBER_DATAS (cons h) \<and>
     length (sent h) = rounds (prod h) \<and> length (received h) = rounds (cons h) \<and>
     (asleep (prod h) \<longrightarrow> g_data_ready (box h)) \<and> (asleep (cons h) \<longrightarrow> \<not> g_data_ready (box h))"

text \<open>With one of the two threads awake, a signal wakes the other if it waits.\<close>

lemma signal_pair:
  "signal j [t, u] = Some ts \<Longrightarrow> \<not> asleep t \<Longrightarrow> ts = [t, if asleep u then (fst u, Woken) else u]"
  "signal j [t, u] = Some ts \<Longrightarrow> \<not> asleep u \<Longrightarrow> ts = [if asleep t then (fst t, Woken) else t, u]"
  by (auto simp: signal_def less_Suc_eq split: if_splits)

lemma woken_thread [simp]:
  "asleep t \<Longrightarrow> holding t = False" "asleep t \<Longrightarrow> rounds t = fst t"
  "asleep t \<Longrightarrow> thread_ok l t = (fst t < l)"
  by (cases t; auto simp: asleep_def)+

lemma slot_items_simps [simp]:
  "slot_items (slot_put x b) = [x]" "slot_items (snd (slot_get b)) = []"
  "g_data_ready (slot_put x b)" "\<not> g_data_ready (snd (slot_get b))"
  by (simp_all add: slot_defs)

lemma producer_turn_inv:
  assumes inv: "handover_inv h" and step: "producer_turn x j h = Some h'"
  shows "handover_inv h'"
proof -
  obtain i ph where t: "prod h = (i, ph)" by (cases "prod h")
  show ?thesis
  proof (cases "ph = Inside \<and> \<not> g_data_ready (box h)")
    case True
    then obtain ts where ts: "signal j [prod h, cons h] = Some ts"
      "h' = h\<lparr>box := slot_put x (box h), sent := sent h @ [x], prod := (i, Leaving), cons := ts ! 1\<rparr>"
      using step t by (auto simp: producer_turn_def)
    have h: "slot_fifo.history (box h) (sent h) (received h)" using inv by (simp add: handover_inv_def)
    have "ts ! 1 = (if asleep (cons h) then (fst (cons h), Woken) else cons h)"
      using signal_pair(1) [OF ts(1)] t True by simp
    moreover have "slot_fifo.history (slot_put x (box h)) (sent h @ [x]) (received h)"
      by (rule slot_fifo.history_put [OF h]) (use True in \<open>simp add: slot_items_def\<close>)
    ultimately show ?thesis using inv ts(2) t True
      by (cases "g_locked h") (auto simp: handover_inv_def)
  next
    case False
    then show ?thesis using inv step t
      by (cases ph; cases "g_locked h")
        (auto simp: producer_turn_def handover_inv_def split: if_splits)
  qed
qed

lemma consumer_turn_inv:
  assumes inv: "handover_inv h" and step: "consumer_turn j h = Some h'"
  shows "handover_inv h'"
proof -
  obtain i ph where t: "cons h = (i, ph)" by (cases "cons h")
  show ?thesis
  proof (cases "ph = Inside \<and> g_data_ready (box h)")
    case True
    then obtain ts where ts: "signal j [prod h, cons h] = Some ts"
      "h' = h\<lparr>box := snd (slot_get (box h)), received := received h @ [fst (slot_get (box h))],
              cons := (i, Leaving), prod := ts ! 0\<rparr>"
      using step t by (auto simp: consumer_turn_def case_prod_beta)
    have h: "slot_fifo.history (box h) (sent h) (received h)" using inv by (simp add: handover_inv_def)
    have "ts ! 0 = (if asleep (prod h) then (fst (prod h), Woken) else prod h)"
      using signal_pair(2) [OF ts(1)] t True by simp
    moreover have "slot_fifo.history (snd (slot_get (box h))) (sent h)
        (received h @ [fst (slot_get (box h))])"
      by (rule slot_fifo.history_get [OF h]) (use True in \<open>simp add: slot_items_def\<close>)
    ultimately show ?thesis using inv ts(2) t True
      by (cases "g_locked h") (auto simp: handover_inv_def)
  next
    case False
    then show ?thesis using inv step t
      by (cases ph; cases "g_locked h")
        (auto simp: consumer_turn_def handover_inv_def split: if_splits)
  qed
qed

lemma handover_inv_step: "handover_inv h \<Longrightarrow> handover_step h h' \<Longrightarrow> handover_inv h'"
  by (erule handover_stepE) (auto intro: producer_turn_inv consumer_turn_inv, auto simp: handover_inv_def)

lemma handover_inv_start: "handover_inv handover_start"
  unfolding handover_inv_def slot_fifo.history_def
  by (simp add: handover_start_def empty_slot_def slot_items_def NUMBER_DATAS_def)

interpretation handover_sys: invariant_system "\<lambda>h. h = handover_start" handover_step handover_inv
  by unfold_locales (auto intro: handover_inv_start handover_inv_step)

abbreviation handover_reach :: "handover \<Rightarrow> bool" where
  "handover_reach \<equiv> reach (\<lambda>h. h = handover_start) handover_step"

end
