(* ===== verification/Cond_Var_Theorems.thy ===== *)
theory Cond_Var_Theorems
  imports Cond_Var
begin

text \<open>
  The properties of the hand-over of \<open>ex3_condition_variable.c\<close>: every value arrives once and in order,
  and one condition variable for both sides does not lose a wake-up.
\<close>

lemma handover_history: "handover_inv h \<Longrightarrow> sent h = received h @ slot_items (box h)"
  unfolding handover_inv_def slot_fifo.history_def by blast

lemma handover_exclusive: "handover_inv h \<Longrightarrow> \<not> (holding (prod h) \<and> holding (cons h))"
proof -
  assume "handover_inv h"
  then have "of_bool (g_locked h) = (of_bool (holding (prod h)) + of_bool (holding (cons h)) :: nat)"
    unfolding handover_inv_def by blast
  then show ?thesis by (cases "g_locked h"; cases "holding (prod h)"; cases "holding (cons h)") simp_all
qed

text \<open>A run as a list of turns, \<open>Some x\<close> the producer's and \<open>None\<close> the consumer's; a signal wakes the other thread.\<close>

fun handover_run :: "int option list \<Rightarrow> handover \<Rightarrow> handover option" where
  "handover_run [] h = Some h"
| "handover_run (Some x # ts) h = Option.bind (producer_turn x 1 h) (handover_run ts)"
| "handover_run (None # ts) h = Option.bind (consumer_turn 0 h) (handover_run ts)"

lemma handover_run_reach: "handover_reach h \<Longrightarrow> handover_run ts h = Some h' \<Longrightarrow> handover_reach h'"
proof (induction ts h rule: handover_run.induct)
  case (2 x ts h)
  then obtain h1 where 1: "producer_turn x 1 h = Some h1" "handover_run ts h1 = Some h'"
    by (auto simp: bind_eq_Some_conv)
  show ?case by (rule "2.IH" [OF 1(1) reach_step [OF "2.prems"(1) produce [OF 1(1)]] 1(2)])
next
  case (3 ts h)
  then obtain h1 where 1: "consumer_turn 0 h = Some h1" "handover_run ts h1 = Some h'"
    by (auto simp: bind_eq_Some_conv)
  show ?case by (rule "3.IH" [OF 1(1) reach_step [OF "3.prems"(1) consume [OF 1(1)]] 1(2)])
qed simp

text \<open>The consumer goes first and has to wait; then ten values are handed over.\<close>

definition full_run :: "int option list" where
  "full_run = [None, None] @ concat (map (\<lambda>x. replicate 3 (Some x) @ replicate 3 None) [1..10])"

lemma full_run_done:
  "\<exists>h. handover_run full_run handover_start = Some h \<and> handover_reach h \<and> handover_done h"
proof -
  have "case handover_run full_run handover_start of None \<Rightarrow> False | Some h \<Rightarrow> handover_done h"
    by code_simp
  then obtain h where h: "handover_run full_run handover_start = Some h" "handover_done h"
    by (auto split: option.splits)
  have "handover_reach h" by (rule handover_run_reach [OF reach_start h(1)]) simp
  with h show ?thesis by blast
qed

lemma handover_complete:
  assumes "handover_reach h" "handover_done h"
  shows "received h = sent h \<and> length (received h) = 10"
proof -
  have inv: "handover_inv h" by (rule handover_sys.reach_inv [OF assms(1)])
  have "length (sent h) = 10" "length (received h) = 10"
    using inv assms(2) by (auto simp: handover_inv_def handover_done_def thread_ok_def rounds_def NUMBER_DATAS_def)
  then show ?thesis using handover_history [OF inv] by simp
qed

text \<open>
  C15: in every reachable state, spurious wake-ups included, the threads are not both between lock and
  unlock, the values printed by the consumer followed by the one still in \<open>g_data\<close>, if \<open>g_data_ready\<close> is
  set, are exactly the values produced, in order; and when both threads have finished, the consumer
  has printed all ten.
\<close>

theorem handover_exact:
  assumes "handover_reach h"
  shows "\<not> (holding (prod h) \<and> holding (cons h)) \<and>
    sent h = received h @ (if g_data_ready (box h) then [g_data (box h)] else []) \<and>
    (handover_done h \<longrightarrow> received h = sent h \<and> length (received h) = 10)"
proof -
  have inv: "handover_inv h" by (rule handover_sys.reach_inv [OF assms])
  then have s: "sent h = received h @ slot_items (box h)" by (rule handover_history)
  have "received h = sent h \<and> length (received h) = 10" if "handover_done h"
    using handover_complete [OF assms that] .
  moreover have "\<not> (holding (prod h) \<and> holding (cons h))"
    by (rule handover_exclusive [OF inv])
  moreover have "sent h = received h @ (if g_data_ready (box h) then [g_data (box h)] else [])"
    using s unfolding slot_items_def .
  ultimately show ?thesis by blast
qed

lemma handover_exact_witness:
  "\<exists>h. handover_run full_run handover_start = Some h \<and> received h = sent h \<and> length (received h) = 10"
proof -
  obtain h where h: "handover_run full_run handover_start = Some h" "handover_reach h" "handover_done h"
    using full_run_done by blast
  from handover_exact [OF h(2)] h(1,3) show ?thesis by blast
qed

lemma stuck_thread:
  "\<forall>x j. producer_turn x j h = None \<Longrightarrow> snd (prod h) \<noteq> Finished \<Longrightarrow>
     snd (prod h) = Waiting \<or> g_locked h \<and> \<not> holding (prod h)"
  "\<forall>j. consumer_turn j h = None \<Longrightarrow> snd (cons h) \<noteq> Finished \<Longrightarrow>
     snd (cons h) = Waiting \<or> g_locked h \<and> \<not> holding (cons h)"
proof -
  obtain j us where j: "signal j [prod h, cons h] = Some us" using signal_exists by blast
  show "snd (prod h) = Waiting \<or> g_locked h \<and> \<not> holding (prod h)"
    if p: "\<forall>x j. producer_turn x j h = None" "snd (prod h) \<noteq> Finished"
  proof -
    obtain i ph where t: "prod h = (i, ph)" by (cases "prod h")
    have "producer_turn 0 j h = None" using p by blast
    then show ?thesis using t p(2) j by (cases ph) (auto simp: producer_turn_def split: if_splits)
  qed
  show "snd (cons h) = Waiting \<or> g_locked h \<and> \<not> holding (cons h)"
    if c: "\<forall>j. consumer_turn j h = None" "snd (cons h) \<noteq> Finished"
  proof -
    obtain i ph where t: "cons h = (i, ph)" by (cases "cons h")
    have "consumer_turn j h = None" using c by blast
    then show ?thesis using t c(2) j
      by (cases ph) (auto simp: consumer_turn_def case_prod_beta split: if_splits)
  qed
qed

text \<open>
  although both sides wait on one condition variable and wake it with \<open>pthread_cond_signal\<close>, no
  wake-up is lost: in every reachable state either both threads have finished or one of them can go
  on, without the help of a spurious wake-up.
\<close>

theorem handover_no_deadlock:
  assumes "handover_reach h" "\<not> handover_done h"
  shows "(\<exists>x j. producer_turn x j h \<noteq> None) \<or> (\<exists>j. consumer_turn j h \<noteq> None)"
proof (rule ccontr)
  assume stuck: "\<not> ?thesis"
  have inv: "handover_inv h" by (rule handover_sys.reach_inv [OF assms(1)])
  have p: "snd (prod h) = Finished \<or> snd (prod h) = Waiting \<or> g_locked h \<and> \<not> holding (prod h)"
    and c: "snd (cons h) = Finished \<or> snd (cons h) = Waiting \<or> g_locked h \<and> \<not> holding (cons h)"
    using stuck_thread [of h] stuck by blast+
  have "\<not> g_locked h" using p c inv by (auto simp: handover_inv_def holding_def)
  with p c have p: "snd (prod h) = Finished \<or> asleep (prod h)" and c: "snd (cons h) = Finished \<or> asleep (cons h)"
    by (auto simp: asleep_def)
  have len: "length (sent h) = length (received h) + length (slot_items (box h))"
    using handover_history [OF inv] by simp
  show False
  proof (cases "asleep (prod h)")
    case True
    then have "length (sent h) < 10" "\<not> asleep (cons h)"
      using inv by (auto simp: handover_inv_def NUMBER_DATAS_def)
    moreover have "length (received h) = 10"
      using c calculation(2) inv by (auto simp: handover_inv_def thread_ok_def rounds_def NUMBER_DATAS_def)
    ultimately show False using len by simp
  next
    case False
    then have "asleep (cons h)" using p c assms(2) by (auto simp: handover_done_def)
    then have "length (received h) < 10" "slot_items (box h) = []"
      using inv by (auto simp: handover_inv_def NUMBER_DATAS_def slot_items_def)
    moreover have "length (sent h) = 10"
      using p False inv by (auto simp: handover_inv_def thread_ok_def rounds_def NUMBER_DATAS_def)
    ultimately show False using len by simp
  qed
qed

lemma handover_no_deadlock_witness:
  "\<exists>h. handover_run [None, None] handover_start = Some h \<and> asleep (cons h) \<and>
     ((\<exists>x j. producer_turn x j h \<noteq> None) \<or> (\<exists>j. consumer_turn j h \<noteq> None))"
proof -
  have "case handover_run [None, None] handover_start of None \<Rightarrow> False
    | Some h \<Rightarrow> asleep (cons h) \<and> \<not> handover_done h" by code_simp
  then obtain h where h: "handover_run [None, None] handover_start = Some h" "asleep (cons h)" "\<not> handover_done h"
    by (auto split: option.splits)
  have "handover_reach h" by (rule handover_run_reach [OF reach_start h(1)]) simp
  from handover_no_deadlock [OF this h(3)] h show ?thesis by blast
qed

end
