(* ===== verification/Cond_Var_Runs.thy ===== *)
theory Cond_Var_Runs
  imports Cond_Var_Theorems
begin

text \<open>
  Every run of \<open>ex3_condition_variable.c\<close> ends: a bound on the steps of the two threads, with which
  the absence of deadlocks makes the program finish under every schedule.
\<close>

inductive handover_turn :: "handover \<Rightarrow> handover \<Rightarrow> bool" where
  prod_moves: "producer_turn x j h = Some h' \<Longrightarrow> handover_turn h h'"
| cons_moves: "consumer_turn j h = Some h' \<Longrightarrow> handover_turn h h'"

inductive handover_wake :: "handover \<Rightarrow> handover \<Rightarrow> bool" where
  prod_wakes: "prod h = (i, Waiting) \<Longrightarrow> handover_wake h (h\<lparr>prod := (i, Woken)\<rparr>)"
| cons_wakes: "cons h = (i, Waiting) \<Longrightarrow> handover_wake h (h\<lparr>cons := (i, Woken)\<rparr>)"

inductive_cases handover_turnE: "handover_turn h h'"
inductive_cases handover_wakeE: "handover_wake h h'"

lemma handover_steps: "handover_step h h' \<longleftrightarrow> handover_turn h h' \<or> handover_wake h h'"
  by (auto elim!: handover_stepE handover_turnE handover_wakeE
      intro: handover_step.intros handover_turn.intros handover_wake.intros)

abbreviation handover_runs_to :: "nat \<Rightarrow> nat \<Rightarrow> handover \<Rightarrow> bool" where
  "handover_runs_to \<equiv> runs_to (\<lambda>h. h = handover_start) handover_turn handover_wake"

definition handover_effort :: "handover \<Rightarrow> nat" where
  "handover_effort h = effort NUMBER_DATAS (prod h) + effort NUMBER_DATAS (cons h)"

lemma effort_woken: "asleep t \<Longrightarrow> effort l (fst t, Woken) = effort l t + 2"
  by (cases t) (auto simp: asleep_def)

lemma producer_turn_lowers:
  assumes inv: "handover_inv h" and step: "producer_turn x j h = Some h'"
  shows "handover_effort h' < handover_effort h"
proof -
  obtain i ph where t: "prod h = (i, ph)" by (cases "prod h")
  have ok: "thread_ok NUMBER_DATAS (i, ph)" using inv t by (simp add: handover_inv_def)
  show ?thesis
  proof (cases "ph = Inside \<and> \<not> g_data_ready (box h)")
    case True
    then obtain ts where ts: "signal j [prod h, cons h] = Some ts" "prod h' = (i, Leaving)" "cons h' = ts ! 1"
      using step t by (auto simp: producer_turn_def)
    have "ts ! 1 = (if asleep (cons h) then (fst (cons h), Woken) else cons h)"
      using signal_pair(1) [OF ts(1)] t True by simp
    then show ?thesis using ts(2,3) t True effort_woken [of "cons h" NUMBER_DATAS] by (auto simp: handover_effort_def)
  next
    case False
    then show ?thesis using step t ok
      by (cases ph) (auto simp: producer_turn_def handover_effort_def split: if_splits)
  qed
qed

lemma consumer_turn_lowers:
  assumes inv: "handover_inv h" and step: "consumer_turn j h = Some h'"
  shows "handover_effort h' < handover_effort h"
proof -
  obtain i ph where t: "cons h = (i, ph)" by (cases "cons h")
  have ok: "thread_ok NUMBER_DATAS (i, ph)" using inv t by (simp add: handover_inv_def)
  show ?thesis
  proof (cases "ph = Inside \<and> g_data_ready (box h)")
    case True
    then obtain ts where ts: "signal j [prod h, cons h] = Some ts" "cons h' = (i, Leaving)" "prod h' = ts ! 0"
      using step t by (auto simp: consumer_turn_def case_prod_beta)
    have "ts ! 0 = (if asleep (prod h) then (fst (prod h), Woken) else prod h)"
      using signal_pair(2) [OF ts(1)] t True by simp
    then show ?thesis using ts(2,3) t True effort_woken [of "prod h" NUMBER_DATAS] by (auto simp: handover_effort_def)
  next
    case False
    then show ?thesis using step t ok
      by (cases ph) (auto simp: consumer_turn_def handover_effort_def split: if_splits)
  qed
qed

interpretation handover_runs: bounded_system "\<lambda>h. h = handover_start" handover_step handover_inv
    handover_turn handover_wake handover_effort 100 2
proof unfold_locales
  show "handover_turn h h' \<or> handover_wake h h' \<Longrightarrow> handover_step h h'" for h h'
    by (simp add: handover_steps)
  show "h = handover_start \<Longrightarrow> handover_effort h \<le> 100" for h
    by (simp add: handover_effort_def handover_start_def NUMBER_DATAS_def)
  show "handover_inv h \<Longrightarrow> handover_turn h h' \<Longrightarrow> handover_effort h' < handover_effort h" for h h'
    by (erule handover_turnE) (blast intro: producer_turn_lowers consumer_turn_lowers)+
  show "handover_inv h \<Longrightarrow> handover_wake h h' \<Longrightarrow> handover_effort h' \<le> handover_effort h + 2" for h h'
    by (auto elim!: handover_wakeE simp: handover_effort_def)
qed

text \<open>
  C16: the hand-over finishes under every schedule, although both sides wait on one condition variable
  and wake it with \<open>pthread_cond_signal\<close>: the two threads take at most 100 steps, plus 2 for each
  wake-up without a signal, and as long as not both have finished, one of them can take its next step.
  When both have, the consumer has printed the ten values of the producer, in order.
\<close>

theorem handover_finishes:
  assumes "handover_runs_to n k h"
  shows "n \<le> 100 + 2 * k \<and> (handover_done h \<or> (\<exists>h'. handover_turn h h')) \<and>
    (handover_done h \<longrightarrow> received h = sent h \<and> length (received h) = 10)"
proof -
  have r: "handover_reach h" by (rule counted_reach [OF assms]) (simp add: handover_steps)
  have "n \<le> 100 + 2 * k" using handover_runs.turns_bounded [OF assms] by simp
  moreover have "\<exists>h'. handover_turn h h'" if "\<not> handover_done h"
    using handover_no_deadlock [OF r that] by (blast intro: handover_turn.intros)
  moreover have "received h = sent h \<and> length (received h) = 10" if "handover_done h"
    using handover_complete [OF r that] .
  ultimately show ?thesis by blast
qed

lemma handover_run_counted:
  "handover_runs_to n k h \<Longrightarrow> handover_run ts h = Some h' \<Longrightarrow> handover_runs_to (n + length ts) k h'"
proof (induction ts h arbitrary: n rule: handover_run.induct)
  case (2 x ts h)
  then obtain h1 where 1: "producer_turn x 1 h = Some h1" "handover_run ts h1 = Some h'"
    by (auto simp: bind_eq_Some_conv)
  from "2.IH" [OF 1(1) counted_turn [OF "2.prems"(1) prod_moves [OF 1(1)]] 1(2)] show ?case by simp
next
  case (3 ts h)
  then obtain h1 where 1: "consumer_turn 0 h = Some h1" "handover_run ts h1 = Some h'"
    by (auto simp: bind_eq_Some_conv)
  from "3.IH" [OF 1(1) counted_turn [OF "3.prems"(1) cons_moves [OF 1(1)]] 1(2)] show ?case by simp
qed simp

lemma handover_finishes_witness:
  "\<exists>h. handover_run full_run handover_start = Some h \<and> length full_run \<le> 100 \<and> length (received h) = 10"
proof -
  obtain h where h: "handover_run full_run handover_start = Some h" "handover_done h" using full_run_done by blast
  have "handover_runs_to 0 0 handover_start" by (rule counted_start) simp
  from handover_finishes [OF handover_run_counted [OF this h(1)]] h show ?thesis by auto
qed

end
