(* ===== verification/Race_Counter.thy ===== *)
theory Race_Counter
  imports Prelude
begin

text \<open>
  \<open>S4_Thread/ex2_race_condition_mutx.c\<close>: three threads increment \<open>g_counter\<close> a million times each, with
  the calls that take and release the mutex commented out. As the comment at the end of the file says,
  an increment is a load, an addition and a store; the load and the store are the steps of the model.
  The counter is a \<open>long long\<close>; the properties show that it stays between 0 and 3000000, so that it is
  an integer here.
\<close>

section \<open>The program\<close>

definition NUM_THREADS :: nat where "NUM_THREADS = 3"
definition INCREMENTS :: nat where "INCREMENTS = 1000000"

text \<open>A thread: its loop variable \<open>i\<close>, and the value it has loaded and not yet stored.\<close>

record race =
  g_counter :: int
  workers :: "(nat \<times> int option) list"

definition race_start :: race where
  "race_start = \<lparr>g_counter = 0, workers = replicate NUM_THREADS (0, None)\<rparr>"

definition increment_counter :: "nat \<Rightarrow> race \<Rightarrow> race option" where
  "increment_counter k r =
     (case workers r ! k of
        (i, None) \<Rightarrow> if i < INCREMENTS
          then Some (r\<lparr>workers := (workers r)[k := (i, Some (g_counter r))]\<rparr>) else None
      | (i, Some temp) \<Rightarrow>
          Some (r\<lparr>g_counter := temp + 1, workers := (workers r)[k := (Suc i, None)]\<rparr>))"

inductive race_step :: "race \<Rightarrow> race \<Rightarrow> bool" where
  turn: "k < length (workers r) \<Longrightarrow> increment_counter k r = Some r' \<Longrightarrow> race_step r r'"

inductive_simps race_step_iff: "race_step r r'"

text \<open>\<open>main\<close> prints the counter when it has joined all threads.\<close>

definition race_done :: "race \<Rightarrow> bool" where
  "race_done r \<longleftrightarrow> list_all (\<lambda>t. t = (INCREMENTS, None)) (workers r)"

section \<open>The invariant\<close>

definition stores :: "race \<Rightarrow> nat" where
  "stores r = sum_list (map fst (workers r))"

text \<open>
  Once some thread has stored, the counter is at least 1; what a thread loads after its own first store
  is at least 1, so that its last store is at least 2.
\<close>

definition worker_ok :: "race \<Rightarrow> nat \<times> int option \<Rightarrow> bool" where
  "worker_ok r t \<longleftrightarrow> fst t \<le> INCREMENTS \<and> (0 < fst t \<longrightarrow> 1 \<le> g_counter r) \<and>
     (case snd t of None \<Rightarrow> True
      | Some v \<Rightarrow> fst t < INCREMENTS \<and> 0 \<le> v \<and> v \<le> int (stores r) \<and> (0 < fst t \<longrightarrow> 1 \<le> v))"

definition race_inv :: "race \<Rightarrow> bool" where
  "race_inv r \<longleftrightarrow> length (workers r) = NUM_THREADS \<and>
     0 \<le> g_counter r \<and> g_counter r \<le> int (stores r) \<and>
     list_all (worker_ok r) (workers r) \<and> (race_done r \<longrightarrow> 2 \<le> g_counter r)"

lemma increments_large: "2 \<le> INCREMENTS" by (simp add: INCREMENTS_def)

lemma load_inv:
  assumes inv: "race_inv r" and k: "k < length (workers r)" and t: "workers r ! k = (i, None)"
    and i: "i < INCREMENTS"
  shows "race_inv (r\<lparr>workers := (workers r)[k := (i, Some (g_counter r))]\<rparr>)" (is "race_inv ?r")
proof -
  have st: "stores ?r = stores r"
    using sum_map_update [OF k, of fst "(i, Some (g_counter r))"] t by (simp add: stores_def)
  have old: "worker_ok r (i, None)" using inv k t by (metis list_all_length race_inv_def)
  have "worker_ok ?r = worker_ok r" using st by (simp add: worker_ok_def fun_eq_iff split: option.split)
  then have "list_all (worker_ok ?r) (workers r)" using inv by (simp add: race_inv_def)
  moreover have "worker_ok ?r (i, Some (g_counter r))"
    using old inv st i by (auto simp: worker_ok_def race_inv_def)
  ultimately have "list_all (worker_ok ?r) (workers ?r)" using list_all_update by simp
  moreover have "\<not> race_done ?r"
    using k by (auto simp: race_done_def list_all_length intro!: exI [of _ k])
  ultimately show ?thesis using inv st by (simp add: race_inv_def)
qed

lemma store_inv:
  assumes inv: "race_inv r" and k: "k < length (workers r)" and t: "workers r ! k = (i, Some v)"
  shows "race_inv (r\<lparr>g_counter := v + 1, workers := (workers r)[k := (Suc i, None)]\<rparr>)" (is "race_inv ?r")
proof -
  have st: "stores ?r = Suc (stores r)"
    using sum_map_update [OF k, of fst "(Suc i, None)"] t by (simp add: stores_def)
  have old: "worker_ok r (i, Some v)" using inv k t by (metis list_all_length race_inv_def)
  then have v: "0 \<le> v" "v \<le> int (stores r)" "i < INCREMENTS" "0 < i \<Longrightarrow> 1 \<le> v"
    by (auto simp: worker_ok_def)
  have "worker_ok ?r u" if "worker_ok r u" for u
    using that v(1) st by (cases "snd u") (auto simp: worker_ok_def)
  then have "list_all (worker_ok ?r) (workers r)"
    using inv by (simp add: race_inv_def list_all_iff)
  moreover have "worker_ok ?r (Suc i, None)" using v by (simp add: worker_ok_def)
  ultimately have "list_all (worker_ok ?r) (workers ?r)" using list_all_update by simp
  moreover have "2 \<le> v + 1" if "race_done ?r"
  proof -
    have "(workers r)[k := (Suc i, None)] ! k = (INCREMENTS, None)"
      using that k unfolding race_done_def list_all_length by fastforce
    then have "Suc i = INCREMENTS" using k by simp
    then have "0 < i" using increments_large by simp
    then show ?thesis using v(4) by simp
  qed
  ultimately show ?thesis using inv st v by (simp add: race_inv_def)
qed

lemma race_inv_step: "race_inv r \<Longrightarrow> race_step r r' \<Longrightarrow> race_inv r'"
proof -
  assume inv: "race_inv r" and "race_step r r'"
  then obtain k where k: "k < length (workers r)" "increment_counter k r = Some r'"
    by (auto simp: race_step_iff)
  obtain i l where t: "workers r ! k = (i, l)" by (cases "workers r ! k")
  show ?thesis using k(2) t load_inv [OF inv k(1), of i] store_inv [OF inv k(1), of i]
    by (cases l) (auto simp: increment_counter_def split: if_splits)
qed

lemma race_inv_start: "race_inv race_start"
  by (auto simp: race_inv_def race_start_def race_done_def worker_ok_def NUM_THREADS_def
      INCREMENTS_def numeral_3_eq_3 stores_def)

interpretation race_sys: invariant_system "\<lambda>r. r = race_start" race_step race_inv
  by unfold_locales (auto intro: race_inv_start race_inv_step)

abbreviation race_reach :: "race \<Rightarrow> bool" where
  "race_reach \<equiv> reach (\<lambda>r. r = race_start) race_step"

section \<open>Runs\<close>

abbreviation three :: "int \<Rightarrow> nat \<times> int option \<Rightarrow> nat \<times> int option \<Rightarrow> nat \<times> int option \<Rightarrow> race" where
  "three g a b c \<equiv> \<lparr>g_counter = g, workers = [a, b, c]\<rparr>"

lemma race_turn:
  "race_reach r \<Longrightarrow> k < length (workers r) \<Longrightarrow> increment_counter k r = Some r' \<Longrightarrow> race_reach r'"
  by (blast intro: reach_step turn)

lemma load_turn:
  "race_reach (three g (i, None) b c) \<Longrightarrow> i < INCREMENTS \<Longrightarrow> race_reach (three g (i, Some g) b c)"
  "race_reach (three g a (i, None) c) \<Longrightarrow> i < INCREMENTS \<Longrightarrow> race_reach (three g a (i, Some g) c)"
  by (erule race_turn [where k = 0]; simp add: increment_counter_def)
    (erule race_turn [where k = 1]; simp add: increment_counter_def)

lemma store_turn:
  "race_reach (three g (i, Some v) b c) \<Longrightarrow> race_reach (three (v + 1) (Suc i, None) b c)"
  "race_reach (three g a (i, Some v) c) \<Longrightarrow> race_reach (three (v + 1) a (Suc i, None) c)"
  by (erule race_turn [where k = 0]; simp add: increment_counter_def)
    (erule race_turn [where k = 1]; simp add: increment_counter_def)

text \<open>A thread that runs alone for \<open>n\<close> rounds adds \<open>n\<close>.\<close>

lemma solo:
  "race_reach r \<Longrightarrow> k < length (workers r) \<Longrightarrow> workers r ! k = (i, None) \<Longrightarrow> i + n \<le> INCREMENTS \<Longrightarrow>
     race_reach (r\<lparr>g_counter := g_counter r + int n, workers := (workers r)[k := (i + n, None)]\<rparr>)"
proof (induction n)
  case 0
  have "r\<lparr>g_counter := g_counter r + int 0, workers := (workers r)[k := (i + 0, None)]\<rparr> = r"
    using 0(3) list_update_id [of "workers r" k] by simp
  with 0(1) show ?case by simp
next
  case (Suc n)
  let ?r = "r\<lparr>g_counter := g_counter r + int n, workers := (workers r)[k := (i + n, None)]\<rparr>"
  let ?s = "?r\<lparr>workers := (workers r)[k := (i + n, Some (g_counter r + int n))]\<rparr>"
  have "race_reach ?r" by (rule Suc.IH) (use Suc.prems in simp_all)
  then have "race_reach ?s"
    by (rule race_turn [where k = k]) (use Suc.prems in \<open>simp_all add: increment_counter_def\<close>)
  then show ?case
    by (rule race_turn [where k = k]) (use Suc.prems in \<open>simp_all add: increment_counter_def\<close>)
qed

lemma solo_three:
  "race_reach (three g (i, None) b c) \<Longrightarrow> i + n \<le> INCREMENTS \<Longrightarrow> race_reach (three (g + int n) (i + n, None) b c)"
  "race_reach (three g a (i, None) c) \<Longrightarrow> i + n \<le> INCREMENTS \<Longrightarrow> race_reach (three (g + int n) a (i + n, None) c)"
  "race_reach (three g a b (i, None)) \<Longrightarrow> i + n \<le> INCREMENTS \<Longrightarrow> race_reach (three (g + int n) a b (i + n, None))"
  using solo [where r = "three g (i, None) b c" and k = 0 and i = i and n = n]
    solo [where r = "three g a (i, None) c" and k = 1 and i = i and n = n]
    solo [where r = "three g a b (i, None)" and k = 2 and i = i and n = n] by simp_all

lemma start_three: "race_reach (three 0 (0, None) (0, None) (0, None))"
  by (rule reach_start) (simp add: race_start_def NUM_THREADS_def numeral_3_eq_3)

section \<open>The result\<close>

lemma done_three: "race_done (three g (INCREMENTS, None) (INCREMENTS, None) (INCREMENTS, None))"
  by (simp add: race_done_def)

text \<open>
  Thread 0 loads 0; meanwhile the others do all but \<open>j\<close> and \<open>n\<close> of their rounds, and one of them loads the
  1 that thread 0 then stores: all the rounds of thread 0 and those before are lost.
\<close>

lemma few_survive:
  assumes "j < INCREMENTS" "n \<le> INCREMENTS"
  shows "\<exists>r. race_reach r \<and> race_done r \<and> g_counter r = 2 + int j + int n"
proof -
  obtain m where m: "INCREMENTS = Suc m" using increments_large by (cases INCREMENTS) auto
  have "race_reach (three 0 (0, Some 0) (0, None) (0, None))"
    by (rule load_turn(1) [OF start_three]) (use increments_large in simp)
  from solo_three(2) [OF this, of "m - j"] have "race_reach (three (int (m - j)) (0, Some 0) (m - j, None) (0, None))"
    using m by simp
  from solo_three(3) [OF this, of "INCREMENTS - n"]
  have "race_reach (three (int (m - j) + int (INCREMENTS - n)) (0, Some 0) (m - j, None) (INCREMENTS - n, None))"
    by simp
  from load_turn(2) [OF store_turn(1) [OF this]]
  have "race_reach (three 1 (1, None) (m - j, Some 1) (INCREMENTS - n, None))" using m by simp
  from store_turn(2) [OF solo_three(1) [OF this, of m]]
  have "race_reach (three 2 (INCREMENTS, None) (Suc (m - j), None) (INCREMENTS - n, None))" using m by simp
  from solo_three(2) [OF this, of j]
  have "race_reach (three (2 + int j) (INCREMENTS, None) (INCREMENTS, None) (INCREMENTS - n, None))"
    using m assms by (simp add: Suc_diff_le)
  from solo_three(3) [OF this, of n]
  have "race_reach (three (2 + int j + int n) (INCREMENTS, None) (INCREMENTS, None) (INCREMENTS, None))"
    using assms by simp
  then show ?thesis using done_three by (intro exI conjI) (assumption | simp)+
qed

text \<open>Thread 1 does \<open>n\<close> rounds between thread 0's first load and its store: only these are lost.\<close>

lemma some_lost:
  assumes "n \<le> INCREMENTS"
  shows "\<exists>r. race_reach r \<and> race_done r \<and> g_counter r = 3 * int INCREMENTS - int n"
proof -
  obtain m where m: "INCREMENTS = Suc m" using increments_large by (cases INCREMENTS) auto
  have "race_reach (three 0 (0, Some 0) (0, None) (0, None))"
    by (rule load_turn(1) [OF start_three]) (use increments_large in simp)
  from store_turn(1) [OF solo_three(2) [OF this, of n]]
  have "race_reach (three 1 (1, None) (n, None) (0, None))" using assms by simp
  then have "race_reach (three (1 + int m) (1 + m, None) (n, None) (0, None))"
    by (rule solo_three(1)) (use m in simp)
  moreover have "1 + int m = int INCREMENTS" "1 + m = INCREMENTS" using m by simp_all
  ultimately have "race_reach (three (int INCREMENTS) (INCREMENTS, None) (n, None) (0, None))"
    by (simp only:)
  from solo_three(2) [OF this, of "INCREMENTS - n"]
  have "race_reach (three (2 * int INCREMENTS - int n) (INCREMENTS, None) (INCREMENTS, None) (0, None))"
    using assms by (simp add: of_nat_diff algebra_simps)
  from solo_three(3) [OF this, of INCREMENTS]
  have "race_reach (three (3 * int INCREMENTS - int n) (INCREMENTS, None) (INCREMENTS, None) (INCREMENTS, None))"
    by (simp add: algebra_simps)
  then show ?thesis using done_three by (intro exI conjI) (assumption | simp)+
qed

text \<open>
  without the mutex the printed value can be anything from 2 to 3000000, and nothing else: however
  the three threads interleave, the final value is at least 2 and at most 3000000, and every value in
  between is the result of some schedule. Before that, too, the counter never leaves the range from 0
  to 3000000.
\<close>

theorem counter_range:
  "g_counter ` {r. race_reach r \<and> race_done r} = {2..3000000} \<and>
   g_counter ` {r. race_reach r} \<subseteq> {0..3000000}"
proof -
  have le: "stores r \<le> 3000000" if "race_inv r" for r
  proof -
    have "sum_list (map fst ts) \<le> INCREMENTS * length ts" if "\<forall>t \<in> set ts. fst t \<le> INCREMENTS" for ts :: "(nat \<times> int option) list"
      using that by (induction ts) auto
    moreover have "\<forall>t \<in> set (workers r). fst t \<le> INCREMENTS"
      using that by (auto simp: race_inv_def worker_ok_def list_all_iff)
    ultimately show ?thesis
      using that by (fastforce simp: race_inv_def stores_def INCREMENTS_def NUM_THREADS_def)
  qed
  have all: "0 \<le> g_counter r \<and> g_counter r \<le> 3000000 \<and> (race_done r \<longrightarrow> 2 \<le> g_counter r)" if "race_reach r" for r
    using race_sys.reach_inv [OF that] le [OF race_sys.reach_inv [OF that]]
    by (auto simp: race_inv_def)
  have "\<exists>r. race_reach r \<and> race_done r \<and> g_counter r = v" if "2 \<le> v" "v \<le> 3000000" for v
  proof (cases "v \<le> 2000000")
    case True
    define j where "j = nat (min (v - 2) 999999)"
    have "\<exists>r. race_reach r \<and> race_done r \<and> g_counter r = 2 + int j + int (nat (v - 2) - j)"
      by (rule few_survive) (use True in \<open>auto simp: j_def INCREMENTS_def\<close>)
    moreover have "2 + int j + int (nat (v - 2) - j) = v" using that by (simp add: j_def)
    ultimately show ?thesis by simp
  next
    case False
    have "\<exists>r. race_reach r \<and> race_done r \<and> g_counter r = 3 * int INCREMENTS - int (nat (3000000 - v))"
      by (rule some_lost) (use False in \<open>simp add: INCREMENTS_def\<close>)
    then show ?thesis using that by (simp add: INCREMENTS_def)
  qed
  with all show ?thesis by (fastforce simp: image_iff)
qed

end
