(* ===== verification/Race_Main.thy ===== *)
theory Race_Main
  imports Race_Counter
begin

text \<open>
  \<open>S4_Thread/ex2_race_condition_mutx.c\<close>, the whole program: \<open>main\<close> initialises the mutex, creates the
  threads one after the other, joins them and prints the counter. A thread runs from the moment it is
  created, perhaps before the next one is, and stops when \<open>main\<close> exits. \<open>pthread_mutex_init\<close> and each
  \<open>pthread_create\<close> may fail. The lines are those of \<open>perror\<close> and \<open>printf\<close>, in order.
\<close>

section \<open>The program\<close>

datatype race_line = Mutex_init_fail | Thread_creation_fail | Final_value int

text \<open>Where \<open>main\<close> is; the numbers are the variables \<open>i\<close> of its two loops, or the exit status.\<close>

datatype race_pc = At_init | At_create nat | At_join nat | At_report | At_exit int

record race_prog =
  pc :: race_pc
  shared :: race
  printed_lines :: "race_line list"

definition race_prog_start :: race_prog where
  "race_prog_start = \<lparr>pc = At_init, shared = \<lparr>g_counter = 0, workers = []\<rparr>, printed_lines = []\<rparr>"

definition exit_failure :: "race_line \<Rightarrow> race_prog \<Rightarrow> race_prog" where
  "exit_failure l p = p\<lparr>pc := At_exit 1, printed_lines := printed_lines p @ [l]\<rparr>"

text \<open>One step of \<open>main\<close>; \<open>ok\<close>: the call succeeds. A join blocks until its thread has ended.\<close>

definition race_main :: "bool \<Rightarrow> race_prog \<Rightarrow> race_prog option" where
  "race_main ok p = (case pc p of
       At_init \<Rightarrow> Some (if ok then p\<lparr>pc := At_create 0\<rparr> else exit_failure Mutex_init_fail p)
     | At_create i \<Rightarrow>
         if i < NUM_THREADS
         then Some (if ok
           then p\<lparr>pc := At_create (Suc i), shared := shared p\<lparr>workers := workers (shared p) @ [(0, None)]\<rparr>\<rparr>
           else exit_failure Thread_creation_fail p)
         else Some (p\<lparr>pc := At_join 0\<rparr>)
     | At_join i \<Rightarrow>
         if i < NUM_THREADS
         then if workers (shared p) ! i = (INCREMENTS, None) then Some (p\<lparr>pc := At_join (Suc i)\<rparr>) else None
         else Some (p\<lparr>pc := At_report\<rparr>)
     | At_report \<Rightarrow>
         Some (p\<lparr>pc := At_exit 0, printed_lines := printed_lines p @ [Final_value (g_counter (shared p))]\<rparr>)
     | At_exit c \<Rightarrow> None)"

inductive race_prog_step :: "race_prog \<Rightarrow> race_prog \<Rightarrow> bool" where
  main_moves: "race_main ok p = Some p' \<Longrightarrow> race_prog_step p p'"
| thread_moves: "\<forall>c. pc p \<noteq> At_exit c \<Longrightarrow> race_step (shared p) r \<Longrightarrow> race_prog_step p (p\<lparr>shared := r\<rparr>)"

inductive_cases race_stepE: "race_step r r'"
inductive_cases race_prog_stepE: "race_prog_step p p'"

abbreviation prog_reach :: "race_prog \<Rightarrow> bool" where
  "prog_reach \<equiv> reach (\<lambda>p. p = race_prog_start) race_prog_step"

section \<open>The program runs the three threads\<close>

text \<open>A thread that is not yet created is one that has not yet taken a step.\<close>

definition padded :: "race \<Rightarrow> race" where
  "padded r = r\<lparr>workers := workers r @ replicate (NUM_THREADS - length (workers r)) (0, None)\<rparr>"

lemma padded_step: "race_step r r' \<Longrightarrow> race_step (padded r) (padded r')"
proof -
  assume "race_step r r'"
  then obtain k where k: "k < length (workers r)" "increment_counter k r = Some r'"
    by (auto simp: race_step_iff)
  then have "increment_counter k (padded r) = Some (padded r')"
    by (auto simp: increment_counter_def padded_def nth_append list_update_append
        split: prod.splits option.splits if_splits)
  then show ?thesis using k(1) by (intro turn [of k]) (simp_all add: padded_def)
qed

lemma padded_create:
  "length (workers r) < NUM_THREADS \<Longrightarrow> padded (r\<lparr>workers := workers r @ [(0, None)]\<rparr>) = padded r"
  by (simp add: padded_def Suc_diff_Suc flip: replicate_Suc)

lemma padded_all: "length (workers r) = NUM_THREADS \<Longrightarrow> padded r = r"
  by (simp add: padded_def)

definition ended_to :: "nat \<Rightarrow> race \<Rightarrow> bool" where
  "ended_to i r \<longleftrightarrow> length (workers r) = NUM_THREADS \<and> i \<le> NUM_THREADS \<and> (\<forall>k < i. workers r ! k = (INCREMENTS, None))"

definition prog_inv :: "race_prog \<Rightarrow> bool" where
  "prog_inv p \<longleftrightarrow> race_reach (padded (shared p)) \<and> (case pc p of
       At_init \<Rightarrow> workers (shared p) = [] \<and> printed_lines p = []
     | At_create i \<Rightarrow> length (workers (shared p)) = i \<and> i \<le> NUM_THREADS \<and> printed_lines p = []
     | At_join i \<Rightarrow> ended_to i (shared p) \<and> printed_lines p = []
     | At_report \<Rightarrow> ended_to NUM_THREADS (shared p) \<and> printed_lines p = []
     | At_exit c \<Rightarrow> c = 1 \<and> printed_lines p \<in> {[Mutex_init_fail], [Thread_creation_fail]} \<or>
         c = 0 \<and> ended_to NUM_THREADS (shared p) \<and> printed_lines p = [Final_value (g_counter (shared p))])"

lemma ended_step: "ended_to i r \<Longrightarrow> race_step r r' \<Longrightarrow> ended_to i r'"
  by (auto elim!: race_stepE simp: ended_to_def increment_counter_def nth_list_update
      split: prod.splits option.splits if_splits)

lemma workers_step: "race_step r r' \<Longrightarrow> length (workers r') = length (workers r)"
  by (auto elim!: race_stepE simp: increment_counter_def split: prod.splits option.splits if_splits)

lemma ended_all: "ended_to NUM_THREADS r \<Longrightarrow> race_done r"
  by (simp add: ended_to_def race_done_def list_all_length)

lemma prog_inv_main: "prog_inv p \<Longrightarrow> race_main ok p = Some p' \<Longrightarrow> prog_inv p'"
  by (auto simp: prog_inv_def race_main_def exit_failure_def padded_create ended_to_def less_Suc_eq
      split: race_pc.splits if_splits)

lemma prog_inv_thread:
  "prog_inv p \<Longrightarrow> \<forall>c. pc p \<noteq> At_exit c \<Longrightarrow> race_step (shared p) r \<Longrightarrow> prog_inv (p\<lparr>shared := r\<rparr>)"
  using workers_step [of "shared p" r] ended_step [of _ "shared p" r]
    reach_step [of _ race_step "padded (shared p)" "padded r"] padded_step [of "shared p" r]
  by (auto simp: prog_inv_def split: race_pc.splits)

lemma prog_inv_start: "prog_inv race_prog_start"
  by (simp add: prog_inv_def race_prog_start_def padded_def race_start_def [symmetric] reach_start)

interpretation race_prog_sys: invariant_system "\<lambda>p. p = race_prog_start" race_prog_step prog_inv
  by unfold_locales (auto elim!: race_prog_stepE intro: prog_inv_start prog_inv_main prog_inv_thread)

section \<open>Every schedule of the threads is one of the program\<close>

lemma prog_reach_step: "prog_reach p \<Longrightarrow> race_main ok p = Some p' \<Longrightarrow> prog_reach p'"
  by (blast intro: reach_step main_moves)

lemma all_created: "prog_reach \<lparr>pc = At_join 0, shared = race_start, printed_lines = []\<rparr>"
proof -
  let ?at = "\<lambda>c n. \<lparr>pc = c, shared = \<lparr>g_counter = 0, workers = replicate n (0, None)\<rparr>, printed_lines = []\<rparr>"
  have "prog_reach (?at (At_create n) n)" if "n \<le> NUM_THREADS" for n using that
  proof (induction n)
    case 0
    show ?case by (rule prog_reach_step [where ok = True and p = race_prog_start, OF reach_start])
        (simp_all add: race_main_def race_prog_start_def)
  next
    case (Suc n)
    then show ?case
      by (intro prog_reach_step [OF Suc.IH, where ok = True]) (simp_all add: race_main_def replicate_append_same)
  qed
  from this [of NUM_THREADS] have "prog_reach (?at (At_join 0) NUM_THREADS)"
    by (rule prog_reach_step) (simp_all add: race_main_def)
  then show ?thesis by (simp add: race_start_def)
qed

lemma schedule_runs: "race_reach r \<Longrightarrow> prog_reach \<lparr>pc = At_join 0, shared = r, printed_lines = []\<rparr>"
proof (induction rule: reach.induct)
  case (reach_start r)
  then show ?case using all_created by simp
next
  case (reach_step r r')
  have "race_prog_step \<lparr>pc = At_join 0, shared = r, printed_lines = []\<rparr>
      (\<lparr>pc = At_join 0, shared = r, printed_lines = []\<rparr>\<lparr>shared := r'\<rparr>)"
    by (rule thread_moves) (use reach_step.hyps(2) in simp_all)
  with reach.reach_step [OF reach_step.IH] show ?case by fastforce
qed

lemma schedule_joined:
  assumes "race_reach r" "race_done r"
  shows "prog_reach \<lparr>pc = At_exit 0, shared = r, printed_lines = [Final_value (g_counter r)]\<rparr>"
proof -
  have l: "length (workers r) = NUM_THREADS" using race_sys.reach_inv [OF assms(1)] by (simp add: race_inv_def)
  have "prog_reach \<lparr>pc = At_join n, shared = r, printed_lines = []\<rparr>" if "n \<le> NUM_THREADS" for n using that
  proof (induction n)
    case 0
    show ?case using schedule_runs [OF assms(1)] by simp
  next
    case (Suc n)
    then show ?case using assms(2) l
      by (intro prog_reach_step [OF Suc.IH]) (simp_all add: race_main_def race_done_def list_all_length)
  qed
  from this [of NUM_THREADS] have "prog_reach \<lparr>pc = At_report, shared = r, printed_lines = []\<rparr>"
    by (rule prog_reach_step) (simp_all add: race_main_def)
  then show ?thesis by (rule prog_reach_step) (simp add: race_main_def)
qed

lemma failed_exits:
  assumes "l \<in> {Mutex_init_fail, Thread_creation_fail}"
  shows "\<exists>p. prog_reach p \<and> pc p = At_exit 1 \<and> printed_lines p = [l]"
proof -
  have s: "prog_reach race_prog_start" by (rule reach_start) simp
  have "prog_reach (exit_failure Mutex_init_fail race_prog_start)"
    by (rule prog_reach_step [OF s, where ok = False]) (simp add: race_main_def race_prog_start_def)
  moreover have "prog_reach (race_prog_start\<lparr>pc := At_create 0\<rparr>)"
    by (rule prog_reach_step [OF s, where ok = True]) (simp add: race_main_def race_prog_start_def)
  then have "prog_reach (exit_failure Thread_creation_fail (race_prog_start\<lparr>pc := At_create 0\<rparr>))"
    by (rule prog_reach_step [where ok = False]) (simp add: race_main_def NUM_THREADS_def)
  ultimately show ?thesis using assms by (fastforce simp: exit_failure_def race_prog_start_def)
qed

section \<open>What the program prints\<close>

text \<open>
  C14: without the mutex the program can print anything from 2 to 3000000, and nothing else: the runs
  in which it exits with status 0 print one line, a value of this range, and every value of the range
  is printed in some run. The other runs end with status 1 after one line on standard error, for the
  mutex or for a thread, and both happen; then the counter is not printed.
\<close>

theorem race_outcomes:
  "{(c, printed_lines p) | c p. prog_reach p \<and> pc p = At_exit c} =
     {(1, [Mutex_init_fail]), (1, [Thread_creation_fail])} \<union> {(0, [Final_value v]) | v. v \<in> {2..3000000}}"
    (is "?runs = ?failed \<union> ?ended")
proof
  have "(c, printed_lines p) \<in> ?failed \<union> ?ended" if r: "prog_reach p" "pc p = At_exit c" for c p
  proof -
    have inv: "prog_inv p" using race_prog_sys.reach_inv r(1) .
    have "g_counter (shared p) \<in> {2..3000000}" if "ended_to NUM_THREADS (shared p)"
    proof -
      have "race_reach (shared p)" using inv that by (simp add: prog_inv_def ended_to_def padded_all)
      then have "g_counter (shared p) \<in> g_counter ` {r. race_reach r \<and> race_done r}" using ended_all [OF that] by blast
      then show ?thesis using counter_range by simp
    qed
    then show ?thesis using inv r(2) by (auto simp: prog_inv_def)
  qed
  then show "?runs \<subseteq> ?failed \<union> ?ended" by blast
  have "(1, [l]) \<in> ?runs" if l: "l \<in> {Mutex_init_fail, Thread_creation_fail}" for l
  proof -
    obtain p where "prog_reach p" "pc p = At_exit 1" "printed_lines p = [l]" using failed_exits [OF l] by blast
    then show ?thesis by force
  qed
  then have "?failed \<subseteq> ?runs" by simp
  moreover have "(0, [Final_value v]) \<in> ?runs" if "v \<in> {2..3000000}" for v
  proof -
    from that have "v \<in> g_counter ` {r. race_reach r \<and> race_done r}" using counter_range by simp
    then obtain r where "race_reach r" "race_done r" "g_counter r = v" by blast
    with schedule_joined [OF this(1,2)] show ?thesis by force
  qed
  ultimately show "?failed \<union> ?ended \<subseteq> ?runs" by blast
qed

end
