(* ===== verification/Rw_Lock.thy ===== *)
theory Rw_Lock
  imports Prelude
begin

text \<open>
  \<open>S4_Thread/ex4_rw_lock.c\<close>: five readers and two writers share \<open>g_shared_data\<close> under a
  \<open>pthread_rwlock_t\<close>. The increment of the writers is a load and a store, so that only the lock keeps it
  from losing updates.
\<close>

section \<open>The lock\<close>

text \<open>The readers that hold it, and whether a writer does. \<open>None\<close>: the call blocks.\<close>

record rwlock =
  rd :: nat
  wr :: bool

definition rdlock :: "rwlock \<Rightarrow> rwlock option" where
  "rdlock l = (if wr l then None else Some (l\<lparr>rd := rd l + 1\<rparr>))"

definition wrlock :: "rwlock \<Rightarrow> rwlock option" where
  "wrlock l = (if wr l \<or> 0 < rd l then None else Some (l\<lparr>wr := True\<rparr>))"

definition rw_unlock :: "rwlock \<Rightarrow> rwlock" where
  "rw_unlock l = (if wr l then l\<lparr>wr := False\<rparr> else l\<lparr>rd := rd l - 1\<rparr>)"

section \<open>The threads\<close>

definition NUM_THREAD_READ :: nat where "NUM_THREAD_READ = 5"
definition NUM_THREAD_WRITE :: nat where "NUM_THREAD_WRITE = 2"
definition NUM_ITERATIONS :: nat where "NUM_ITERATIONS = 5"

text \<open>
  \<open>Outside\<close>: before the lock is taken; \<open>Holding\<close>: just after; \<open>Loaded v\<close>: a writer has loaded \<open>v\<close>;
  \<open>Stored\<close>: it has stored \<open>v + 1\<close>; \<open>Printed\<close>: before the unlock; \<open>Ended\<close>: the loop is over. The number is the
  loop variable.
\<close>

datatype rw_phase = Outside | Holding | Loaded int | Stored | Printed | Ended

type_synonym rw_thread = "nat \<times> rw_phase"

record rw =
  g_shared_data :: int
  g_rwlock :: rwlock
  rd_threads :: "rw_thread list"
  wr_threads :: "rw_thread list"
  read_out :: "int list"
  write_out :: "int list"

definition rw_start :: rw where
  "rw_start = \<lparr>g_shared_data = 5, g_rwlock = \<lparr>rd = 0, wr = False\<rparr>,
     rd_threads = replicate NUM_THREAD_READ (0, Outside),
     wr_threads = replicate NUM_THREAD_WRITE (0, Outside), read_out = [], write_out = []\<rparr>"

definition next_iteration :: "nat \<Rightarrow> rw_thread" where
  "next_iteration i = (Suc i, if Suc i < NUM_ITERATIONS then Outside else Ended)"

definition read_function :: "nat \<Rightarrow> rw \<Rightarrow> rw option" where
  "read_function k s =
     (let (i, ph) = rd_threads s ! k; set = (\<lambda>t. (rd_threads s)[k := t]) in
      case ph of
        Outside \<Rightarrow> map_option (\<lambda>l. s\<lparr>g_rwlock := l, rd_threads := set (i, Holding)\<rparr>) (rdlock (g_rwlock s))
      | Holding \<Rightarrow> Some (s\<lparr>read_out := read_out s @ [g_shared_data s], rd_threads := set (i, Printed)\<rparr>)
      | Printed \<Rightarrow> Some (s\<lparr>g_rwlock := rw_unlock (g_rwlock s), rd_threads := set (next_iteration i)\<rparr>)
      | _ \<Rightarrow> None)"

definition write_function :: "nat \<Rightarrow> rw \<Rightarrow> rw option" where
  "write_function k s =
     (let (i, ph) = wr_threads s ! k; set = (\<lambda>t. (wr_threads s)[k := t]) in
      case ph of
        Outside \<Rightarrow> map_option (\<lambda>l. s\<lparr>g_rwlock := l, wr_threads := set (i, Holding)\<rparr>) (wrlock (g_rwlock s))
      | Holding \<Rightarrow> Some (s\<lparr>wr_threads := set (i, Loaded (g_shared_data s))\<rparr>)
      | Loaded v \<Rightarrow> Some (s\<lparr>g_shared_data := v + 1, wr_threads := set (i, Stored)\<rparr>)
      | Stored \<Rightarrow> Some (s\<lparr>write_out := write_out s @ [g_shared_data s], wr_threads := set (i, Printed)\<rparr>)
      | Printed \<Rightarrow> Some (s\<lparr>g_rwlock := rw_unlock (g_rwlock s), wr_threads := set (next_iteration i)\<rparr>)
      | Ended \<Rightarrow> None)"

inductive rw_step :: "rw \<Rightarrow> rw \<Rightarrow> bool" where
  reader: "k < length (rd_threads s) \<Longrightarrow> read_function k s = Some s' \<Longrightarrow> rw_step s s'"
| writer: "k < length (wr_threads s) \<Longrightarrow> write_function k s = Some s' \<Longrightarrow> rw_step s s'"

inductive_cases rw_stepE: "rw_step s s'"

definition rw_done :: "rw \<Rightarrow> bool" where
  "rw_done s \<longleftrightarrow> list_all (\<lambda>t. snd t = Ended) (rd_threads s @ wr_threads s)"

section \<open>The invariant\<close>

definition in_lock :: "rw_thread \<Rightarrow> bool" where
  "in_lock t \<longleftrightarrow> snd t \<noteq> Outside \<and> snd t \<noteq> Ended"

definition unprinted :: "rw_thread \<Rightarrow> bool" where
  "unprinted t \<longleftrightarrow> snd t = Stored"

text \<open>The increments and the lines a thread is through with.\<close>

definition written :: "rw_thread \<Rightarrow> nat" where
  "written t = fst t + of_bool (snd t = Stored \<or> snd t = Printed)"

definition rw_thread_ok :: "rw \<Rightarrow> rw_thread \<Rightarrow> bool" where
  "rw_thread_ok s t \<longleftrightarrow> (if snd t = Ended then fst t = NUM_ITERATIONS else fst t < NUM_ITERATIONS) \<and>
     (\<forall>v. snd t = Loaded v \<longrightarrow> v = g_shared_data s)"

definition reader_ok :: "rw_thread \<Rightarrow> bool" where
  "reader_ok t \<longleftrightarrow> (if snd t = Ended then fst t = NUM_ITERATIONS else fst t < NUM_ITERATIONS) \<and>
     snd t \<in> {Outside, Holding, Printed, Ended}"

definition rw_inv :: "rw \<Rightarrow> bool" where
  "rw_inv s \<longleftrightarrow>
     length (rd_threads s) = NUM_THREAD_READ \<and> length (wr_threads s) = NUM_THREAD_WRITE \<and>
     rd (g_rwlock s) = cnt in_lock (rd_threads s) \<and>
     of_bool (wr (g_rwlock s)) = cnt in_lock (wr_threads s) \<and>
     (wr (g_rwlock s) \<longrightarrow> rd (g_rwlock s) = 0) \<and>
     list_all reader_ok (rd_threads s) \<and> list_all (rw_thread_ok s) (wr_threads s) \<and>
     g_shared_data s = 5 + int (sum_list (map written (wr_threads s))) \<and>
     length (read_out s) = sum_list (map written (rd_threads s)) \<and>
     write_out s @ replicate (cnt unprinted (wr_threads s)) (g_shared_data s) = [6..g_shared_data s] \<and>
     sorted (read_out s) \<and> (\<forall>v \<in> set (read_out s). 5 \<le> v \<and> v \<le> g_shared_data s)"

lemma rw_phase_simps [simp]:
  "in_lock (i, Outside) = False" "in_lock (i, Holding) = True" "in_lock (i, Loaded v) = True"
  "in_lock (i, Stored) = True" "in_lock (i, Printed) = True" "in_lock (i, Ended) = False"
  "unprinted (i, Outside) = False" "unprinted (i, Holding) = False" "unprinted (i, Loaded v) = False"
  "unprinted (i, Stored) = True" "unprinted (i, Printed) = False" "unprinted (i, Ended) = False"
  "written (i, Outside) = i" "written (i, Holding) = i" "written (i, Loaded v) = i"
  "written (i, Stored) = Suc i" "written (i, Printed) = Suc i" "written (i, Ended) = i"
  by (simp_all add: in_lock_def unprinted_def written_def)

lemma next_iteration_simps [simp]:
  "in_lock (next_iteration i) = False" "unprinted (next_iteration i) = False"
  "written (next_iteration i) = Suc i"
  "i < NUM_ITERATIONS \<Longrightarrow> reader_ok (next_iteration i)"
  "i < NUM_ITERATIONS \<Longrightarrow> rw_thread_ok s (next_iteration i)"
  by (auto simp: next_iteration_def reader_ok_def rw_thread_ok_def)

text \<open>What changes when thread \<open>k\<close> of a list becomes \<open>t\<close>.\<close>

lemma rw_update:
  assumes "k < length ts" "ts ! k = (i, ph)"
  shows "cnt in_lock (ts[k := t]) + of_bool (in_lock (i, ph)) = cnt in_lock ts + of_bool (in_lock t)"
    "cnt unprinted (ts[k := t]) + of_bool (unprinted (i, ph)) = cnt unprinted ts + of_bool (unprinted t)"
    "sum_list (map written (ts[k := t])) + written (i, ph) = sum_list (map written ts) + written t"
  using cnt_update [OF assms(1), of _ t] sum_map_update [OF assms(1), of written t] assms(2) by simp_all

lemma rw_at: "list_all P ts \<Longrightarrow> k < length ts \<Longrightarrow> ts ! k = t \<Longrightarrow> P t"
  by (auto simp: list_all_length)

text \<open>A reader keeps the invariant.\<close>

lemma read_function_inv:
  assumes inv: "rw_inv s" and k: "k < length (rd_threads s)" and step: "read_function k s = Some s'"
  shows "rw_inv s'"
proof -
  obtain i ph where t: "rd_threads s ! k = (i, ph)" by (cases "rd_threads s ! k")
  note u = rw_update [OF k t]
  have ok: "reader_ok (i, ph)" by (rule rw_at [OF _ k t]) (use inv in \<open>simp add: rw_inv_def\<close>)
  have same: "rw_thread_ok s' = rw_thread_ok s" if "g_shared_data s' = g_shared_data s" for s'
    using that by (simp add: rw_thread_ok_def fun_eq_iff)
  have ok': "reader_ok (i, ph')" if "ph \<in> {Outside, Holding}" "ph' \<in> {Holding, Printed}" for ph'
    using ok that by (auto simp: reader_ok_def)
  have i: "i < NUM_ITERATIONS" if "ph = Printed" using ok that by (simp add: reader_ok_def)
  consider "ph = Outside" | "ph = Holding" | "ph = Printed"
    using step t by (cases ph) (auto simp: read_function_def)
  then show ?thesis
  proof cases
    case 1
    then show ?thesis using inv step t u [of "(i, Holding)"] same [of s'] ok' [of Holding]
      by (auto simp: read_function_def rw_inv_def rdlock_def list_all_update split: if_splits)
  next
    case 2
    then show ?thesis using inv step t u [of "(i, Printed)"] same [of s'] ok' [of Printed]
      by (auto simp: read_function_def rw_inv_def list_all_update sorted_append)
  next
    case 3
    have nw: "\<not> wr (g_rwlock s)"
      using inv cnt_pos [where P = in_lock, OF k] t 3 by (auto simp: rw_inv_def)
    then show ?thesis using inv step t u [of "next_iteration i"] same [of s'] i [OF 3] 3
      by (auto simp: read_function_def rw_inv_def rw_unlock_def list_all_update)
  qed
qed

text \<open>While writer \<open>k\<close> is between its lock and unlock, no other writer is.\<close>

lemma writer_alone:
  assumes inv: "rw_inv s" and k: "k < length (wr_threads s)" and t: "wr_threads s ! k = (i, ph)"
    and "in_lock (i, ph)"
  shows "wr (g_rwlock s)" "cnt in_lock (wr_threads s) = 1"
    "\<And>j. j < length (wr_threads s) \<Longrightarrow> j \<noteq> k \<Longrightarrow> \<not> in_lock (wr_threads s ! j)"
    "cnt unprinted (wr_threads s) = of_bool (unprinted (i, ph))"
proof -
  have "0 < cnt in_lock (wr_threads s)" using cnt_pos [where P = in_lock, OF k] t assms(4) by simp
  moreover have b: "of_bool (wr (g_rwlock s)) = cnt in_lock (wr_threads s)" using inv by (simp add: rw_inv_def)
  ultimately show w: "wr (g_rwlock s)" by (cases "wr (g_rwlock s)") simp_all
  with b show c: "cnt in_lock (wr_threads s) = 1" by simp
  show "\<not> in_lock (wr_threads s ! j)" if "j < length (wr_threads s)" "j \<noteq> k" for j
    using cnt_two [where P = in_lock, OF that(1) k that(2)] t assms(4) c by auto
  note u = rw_update [OF k t, of "(i, Outside)"]
  have "cnt in_lock ((wr_threads s)[k := (i, Outside)]) = 0" using u(1) c assms(4) by simp
  moreover have "cnt unprinted xs \<le> cnt in_lock xs" for xs
    by (rule cnt_mono) (auto simp: unprinted_def in_lock_def)
  ultimately have "cnt unprinted ((wr_threads s)[k := (i, Outside)]) = 0" by (metis le_zero_eq)
  then show "cnt unprinted (wr_threads s) = of_bool (unprinted (i, ph))" using u(2) by simp
qed

text \<open>A writer keeps the invariant.\<close>

lemma write_function_inv:
  assumes inv: "rw_inv s" and k: "k < length (wr_threads s)" and step: "write_function k s = Some s'"
  shows "rw_inv s'"
proof -
  obtain i ph where t: "wr_threads s ! k = (i, ph)" by (cases "wr_threads s ! k")
  note u = rw_update [OF k t]
  note alone = writer_alone [OF inv k t]
  have ok: "rw_thread_ok s (i, ph)" by (rule rw_at [OF _ k t]) (use inv in \<open>simp add: rw_inv_def\<close>)
  have same: "rw_thread_ok s' = rw_thread_ok s" if "g_shared_data s' = g_shared_data s" for s'
    using that by (simp add: rw_thread_ok_def fun_eq_iff)
  have i: "i < NUM_ITERATIONS" if "ph \<noteq> Ended" using ok that by (simp add: rw_thread_ok_def)
  have ge: "5 \<le> g_shared_data s" using inv by (simp add: rw_inv_def)
  show ?thesis
  proof (cases ph)
    case Outside
    then show ?thesis using inv step t u [of "(i, Holding)"] same [of s'] i
      by (auto simp: write_function_def rw_inv_def wrlock_def list_all_update rw_thread_ok_def [of s "(i, Holding)"]
          split: if_splits)
  next
    case Holding
    then show ?thesis using inv step t u [of "(i, Loaded (g_shared_data s))"] same [of s'] i
      by (auto simp: write_function_def rw_inv_def list_all_update rw_thread_ok_def [of s "(i, Loaded v)" for v])
  next
    case (Loaded v)
    then have v: "v = g_shared_data s" using ok by (simp add: rw_thread_ok_def)
    have s': "s' = s\<lparr>g_shared_data := v + 1, wr_threads := (wr_threads s)[k := (i, Stored)]\<rparr>"
      using step t Loaded by (simp add: write_function_def)
    have "rw_thread_ok s' (wr_threads s' ! j)" if "j < length (wr_threads s)" for j
    proof (cases "j = k")
      case True
      then show ?thesis using that s' i Loaded by (simp add: rw_thread_ok_def)
    next
      case False
      then have "\<not> in_lock (wr_threads s ! j)" using alone(3) that Loaded by simp
      moreover have "rw_thread_ok s (wr_threads s ! j)" using inv that by (simp add: rw_inv_def list_all_length)
      ultimately show ?thesis using False s' by (auto simp: rw_thread_ok_def in_lock_def)
    qed
    then have "list_all (rw_thread_ok s') (wr_threads s')" using s' by (simp add: list_all_length)
    moreover have "[6..v + 1] = [6..v] @ [v + 1]" using ge v by (simp add: upto_rec2)
    ultimately show ?thesis using inv s' u [of "(i, Stored)"] alone(4) Loaded v
      by (fastforce simp: rw_inv_def)
  next
    case Stored
    have s': "s' = s\<lparr>write_out := write_out s @ [g_shared_data s], wr_threads := (wr_threads s)[k := (i, Printed)]\<rparr>"
      using step t Stored by (simp add: write_function_def)
    show ?thesis using inv s' u [of "(i, Printed)"] alone(4) Stored i same [of s']
      by (auto simp: rw_inv_def list_all_update rw_thread_ok_def [of s "(i, Printed)"])
  next
    case Printed
    then show ?thesis using inv step t u [of "next_iteration i"] alone(1,2) same [of s'] i
      by (auto simp: write_function_def rw_inv_def rw_unlock_def list_all_update)
  qed (use step t in \<open>simp add: write_function_def\<close>)
qed

lemma rw_inv_step: "rw_inv s \<Longrightarrow> rw_step s s' \<Longrightarrow> rw_inv s'"
  by (erule rw_stepE) (blast intro: read_function_inv write_function_inv)+

lemma rw_inv_start: "rw_inv rw_start"
proof -
  have "list_all P (replicate n x)" if "P x" for P n and x :: rw_thread using that by (auto simp: list_all_iff)
  moreover have "reader_ok (0, Outside)" "rw_thread_ok rw_start (0, Outside)"
    by (simp_all add: reader_ok_def rw_thread_ok_def NUM_ITERATIONS_def)
  ultimately show ?thesis
    by (simp add: rw_inv_def rw_start_def cnt_replicate sum_list_replicate)
qed

interpretation rw_sys: invariant_system "\<lambda>s. s = rw_start" rw_step rw_inv
  by unfold_locales (auto intro: rw_inv_start rw_inv_step)

abbreviation rw_reach :: "rw \<Rightarrow> bool" where
  "rw_reach \<equiv> reach (\<lambda>s. s = rw_start) rw_step"

section \<open>Properties\<close>

text \<open>A run as a list of turns of writers (\<open>Inl k\<close>) and readers (\<open>Inr k\<close>).\<close>

fun rw_run :: "(nat + nat) list \<Rightarrow> rw \<Rightarrow> rw option" where
  "rw_run [] s = Some s"
| "rw_run (Inl k # ts) s = (if k < length (wr_threads s) then Option.bind (write_function k s) (rw_run ts) else None)"
| "rw_run (Inr k # ts) s = (if k < length (rd_threads s) then Option.bind (read_function k s) (rw_run ts) else None)"

lemma rw_run_reach: "rw_reach s \<Longrightarrow> rw_run ts s = Some s' \<Longrightarrow> rw_reach s'"
proof (induction ts s rule: rw_run.induct)
  case (2 k ts s)
  then obtain s1 where 1: "k < length (wr_threads s)" "write_function k s = Some s1" "rw_run ts s1 = Some s'"
    by (auto simp: bind_eq_Some_conv split: if_splits)
  show ?case by (rule "2.IH" [OF 1(1,2) reach_step [OF "2.prems"(1) writer [OF 1(1,2)]] 1(3)])
next
  case (3 k ts s)
  then obtain s1 where 1: "k < length (rd_threads s)" "read_function k s = Some s1" "rw_run ts s1 = Some s'"
    by (auto simp: bind_eq_Some_conv split: if_splits)
  show ?case by (rule "3.IH" [OF 1(1,2) reach_step [OF "3.prems"(1) reader [OF 1(1,2)]] 1(3)])
qed simp

text \<open>
  C17: under the read-write lock no increment is lost and no reader sees one half done: in every
  reachable state at most one writer is between its lock and unlock, and then no reader is; the values
  the writers have printed are 6, 7, ... in this order, up to \<open>g_shared_data\<close> or the value before it; the
  values the readers have printed never decrease; and when all threads have finished, the variable is
  15 and 25 values have been read.
\<close>

theorem rw_lock_exact:
  assumes "rw_reach s"
  shows "cnt in_lock (wr_threads s) \<le> 1 \<and>
    (0 < cnt in_lock (wr_threads s) \<longrightarrow> cnt in_lock (rd_threads s) = 0) \<and>
    (write_out s = [6..g_shared_data s] \<or> write_out s = [6..g_shared_data s - 1]) \<and>
    sorted (read_out s) \<and> set (read_out s) \<subseteq> {5..g_shared_data s} \<and>
    (rw_done s \<longrightarrow> g_shared_data s = 15 \<and> write_out s = [6..15] \<and> length (read_out s) = 25)"
proof -
  have inv: "rw_inv s" by (rule rw_sys.reach_inv [OF assms])
  have w: "cnt in_lock (wr_threads s) \<le> 1"
    "0 < cnt in_lock (wr_threads s) \<Longrightarrow> cnt in_lock (rd_threads s) = 0"
    using inv by (cases "wr (g_rwlock s)"; simp add: rw_inv_def)+
  have out: "write_out s @ replicate (cnt unprinted (wr_threads s)) (g_shared_data s) = [6..g_shared_data s]"
    using inv unfolding rw_inv_def by blast
  have ge: "5 \<le> g_shared_data s" using inv by (simp add: rw_inv_def)
  have "cnt unprinted (wr_threads s) \<le> cnt in_lock (wr_threads s)"
    by (rule cnt_mono) (auto simp: unprinted_def in_lock_def)
  then consider "cnt unprinted (wr_threads s) = 0" | "cnt unprinted (wr_threads s) = 1" using w by linarith
  then have o: "write_out s = [6..g_shared_data s] \<or> write_out s = [6..g_shared_data s - 1]"
  proof cases
    case 2
    then have "write_out s @ [g_shared_data s] = [6..g_shared_data s]" using out by simp
    then show ?thesis using ge by (cases "g_shared_data s = 5") (simp_all add: upto_rec2)
  qed (use out in simp)
  have "g_shared_data s = 15 \<and> write_out s = [6..15] \<and> length (read_out s) = 25" if d: "rw_done s"
  proof -
    have r: "sum_list (map written ts) = NUM_ITERATIONS * length ts"
      if "list_all (\<lambda>t. snd t = Ended \<and> fst t = NUM_ITERATIONS) ts" for ts
      using that by (induction ts) (auto simp: written_def)
    have "list_all (\<lambda>t. snd t = Ended \<and> fst t = NUM_ITERATIONS) (rd_threads s)"
      "list_all (\<lambda>t. snd t = Ended \<and> fst t = NUM_ITERATIONS) (wr_threads s)"
      using inv d by (auto simp: rw_inv_def rw_done_def reader_ok_def rw_thread_ok_def list_all_iff)
    from r [OF this(1)] r [OF this(2)] have g: "g_shared_data s = 15" "length (read_out s) = 25"
      using inv by (simp_all add: rw_inv_def NUM_ITERATIONS_def NUM_THREAD_READ_def NUM_THREAD_WRITE_def)
    have "cnt unprinted (wr_threads s) = 0"
      using d by (auto simp: cnt_0_iff rw_done_def unprinted_def list_all_iff)
    then show ?thesis using g out by simp
  qed
  moreover have "sorted (read_out s)" "set (read_out s) \<subseteq> {5..g_shared_data s}"
    using inv unfolding rw_inv_def by auto
  ultimately show ?thesis using w o by blast
qed

definition rw_turns :: "(nat + nat) list" where
  "rw_turns = concat (replicate 5 (concat (map (\<lambda>k. replicate 5 (Inl k)) [0, 1]) @
     concat (replicate 3 (map Inr [0..<5]))))"

lemma rw_lock_exact_witness: "\<exists>s. rw_run rw_turns rw_start = Some s \<and> g_shared_data s = 15"
proof -
  have "case rw_run rw_turns rw_start of None \<Rightarrow> False | Some s \<Rightarrow> rw_done s" by code_simp
  then obtain s where s: "rw_run rw_turns rw_start = Some s" "rw_done s" by (auto split: option.splits)
  have "rw_reach s" by (rule rw_run_reach [OF reach_start s(1)]) simp
  from rw_lock_exact [OF this] s show ?thesis by blast
qed

end
