(* ===== verification/Rw_Lock_Runs.thy ===== *)
theory Rw_Lock_Runs
  imports Rw_Lock
begin

text \<open>
  Every run of \<open>ex4_rw_lock.c\<close> ends with all seven threads finished: a bound on their steps, and no
  deadlock at the lock.
\<close>

section \<open>The potential\<close>

definition reader_effort :: "rw_thread \<Rightarrow> nat" where
  "reader_effort t = 3 * (NUM_ITERATIONS - Suc (fst t)) +
     (case snd t of Outside \<Rightarrow> 3 | Holding \<Rightarrow> 2 | Printed \<Rightarrow> 1 | _ \<Rightarrow> 0)"

definition writer_effort :: "rw_thread \<Rightarrow> nat" where
  "writer_effort t = 5 * (NUM_ITERATIONS - Suc (fst t)) +
     (case snd t of Outside \<Rightarrow> 5 | Holding \<Rightarrow> 4 | Loaded _ \<Rightarrow> 3 | Stored \<Rightarrow> 2 | Printed \<Rightarrow> 1 | Ended \<Rightarrow> 0)"

definition rw_effort :: "rw \<Rightarrow> nat" where
  "rw_effort s = sum_list (map reader_effort (rd_threads s)) + sum_list (map writer_effort (wr_threads s))"

lemma next_iteration_effort:
  "i < NUM_ITERATIONS \<Longrightarrow> reader_effort (next_iteration i) = 3 * (NUM_ITERATIONS - Suc i)"
  "i < NUM_ITERATIONS \<Longrightarrow> writer_effort (next_iteration i) = 5 * (NUM_ITERATIONS - Suc i)"
  by (auto simp: next_iteration_def reader_effort_def writer_effort_def)

lemma reader_lowers:
  assumes inv: "rw_inv s" and k: "k < length (rd_threads s)" and step: "read_function k s = Some s'"
  shows "rw_effort s' < rw_effort s"
proof -
  obtain i ph where t: "rd_threads s ! k = (i, ph)" by (cases "rd_threads s ! k")
  have ok: "reader_ok (i, ph)" by (rule rw_at [OF _ k t]) (use inv in \<open>simp add: rw_inv_def\<close>)
  note u = sum_map_update [OF k, of reader_effort, unfolded t]
  show ?thesis
    using step t ok u [of "(i, Holding)"] u [of "(i, Printed)"] u [of "next_iteration i"] next_iteration_effort(1) [of i]
    by (cases ph) (auto simp: read_function_def rw_effort_def reader_ok_def reader_effort_def)
qed

lemma writer_lowers:
  assumes inv: "rw_inv s" and k: "k < length (wr_threads s)" and step: "write_function k s = Some s'"
  shows "rw_effort s' < rw_effort s"
proof -
  obtain i ph where t: "wr_threads s ! k = (i, ph)" by (cases "wr_threads s ! k")
  have ok: "rw_thread_ok s (i, ph)" by (rule rw_at [OF _ k t]) (use inv in \<open>simp add: rw_inv_def\<close>)
  note u = sum_map_update [OF k, of writer_effort, unfolded t]
  show ?thesis
    using step t ok u [of "(i, Holding)"] u [of "(i, Loaded (g_shared_data s))"] u [of "(i, Stored)"] u [of "(i, Printed)"]
      u [of "next_iteration i"] next_iteration_effort(2) [of i]
    by (cases ph) (auto simp: write_function_def rw_effort_def rw_thread_ok_def writer_effort_def)
qed

interpretation rw_runs: bounded_system "\<lambda>s. s = rw_start" rw_step rw_inv rw_step "\<lambda>_ _. False" rw_effort 125 0
proof unfold_locales
  show "s = rw_start \<Longrightarrow> rw_effort s \<le> 125" for s
    by (simp add: rw_effort_def rw_start_def sum_list_replicate reader_effort_def writer_effort_def
        NUM_ITERATIONS_def NUM_THREAD_READ_def NUM_THREAD_WRITE_def)
  show "rw_inv s \<Longrightarrow> rw_step s s' \<Longrightarrow> rw_effort s' < rw_effort s" for s s'
    by (erule rw_stepE) (blast intro: reader_lowers writer_lowers)+
qed simp_all

section \<open>No deadlock\<close>

text \<open>Who holds the lock can always go on, and when nobody does, everybody can take it.\<close>

lemma rw_stuck_done:
  assumes inv: "rw_inv s" and stuck: "\<nexists>s'. rw_step s s'"
  shows "rw_done s"
proof -
  have none: "read_function k s = None" if "k < length (rd_threads s)" for k
    using stuck reader [OF that] by (cases "read_function k s") auto
  have nonew: "write_function k s = None" if "k < length (wr_threads s)" for k
    using stuck writer [OF that] by (cases "write_function k s") auto
  have r: "\<not> in_lock (rd_threads s ! k)" if k: "k < length (rd_threads s)" for k
  proof -
    obtain i ph where t: "rd_threads s ! k = (i, ph)" by (cases "rd_threads s ! k")
    have "reader_ok (i, ph)" by (rule rw_at [OF _ k t]) (use inv in \<open>simp add: rw_inv_def\<close>)
    then show ?thesis using none [OF k] t by (auto simp: read_function_def reader_ok_def)
  qed
  have w: "\<not> in_lock (wr_threads s ! k)" if k: "k < length (wr_threads s)" for k
  proof -
    obtain i ph where t: "wr_threads s ! k = (i, ph)" by (cases "wr_threads s ! k")
    then show ?thesis using nonew [OF k] by (cases ph) (auto simp: write_function_def)
  qed
  have free: "\<not> wr (g_rwlock s)" "rd (g_rwlock s) = 0"
    using inv r w cnt_zero_nth [of in_lock "rd_threads s"] cnt_zero_nth [of in_lock "wr_threads s"]
    by (auto simp: rw_inv_def)
  have "snd (rd_threads s ! k) = Ended" if k: "k < length (rd_threads s)" for k
    using none [OF k] r [OF k] free
    by (cases "rd_threads s ! k") (auto simp: read_function_def rdlock_def in_lock_def)
  moreover have "snd (wr_threads s ! k) = Ended" if k: "k < length (wr_threads s)" for k
    using nonew [OF k] w [OF k] free
    by (cases "wr_threads s ! k") (auto simp: write_function_def wrlock_def in_lock_def)
  ultimately show ?thesis by (simp add: rw_done_def list_all_length nth_append)
qed

text \<open>
  C18: the program finishes under every schedule: the five readers and two writers take at most 125
  steps, and as long as not all of them have finished, one of them can take its next step: nobody
  waits for good for the read-write lock.
\<close>

theorem rw_lock_finishes:
  assumes "(rw_step ^^ n) rw_start s"
  shows "n \<le> 125 \<and> (rw_done s \<or> (\<exists>s'. rw_step s s'))"
proof -
  have "runs_to (\<lambda>s. s = rw_start) rw_step (\<lambda>_ _. False) n 0 s" using assms
    by (induction n arbitrary: s) (auto intro: counted_start counted_turn)
  from rw_runs.turns_bounded [OF this] rw_stuck_done [OF rw_runs.counted_inv [OF this]] show ?thesis by auto
qed

lemma rw_run_steps: "rw_run ts s = Some s' \<Longrightarrow> (rw_step ^^ length ts) s s'"
proof (induction ts s rule: rw_run.induct)
  case (2 k ts s)
  then obtain s1 where 1: "k < length (wr_threads s)" "write_function k s = Some s1" "rw_run ts s1 = Some s'"
    by (auto simp: bind_eq_Some_conv split: if_splits)
  show ?case using relpowp_Suc_I2 [OF writer [OF 1(1,2)] "2.IH" [OF 1]] by simp
next
  case (3 k ts s)
  then obtain s1 where 1: "k < length (rd_threads s)" "read_function k s = Some s1" "rw_run ts s1 = Some s'"
    by (auto simp: bind_eq_Some_conv split: if_splits)
  show ?case using relpowp_Suc_I2 [OF reader [OF 1(1,2)] "3.IH" [OF 1]] by simp
qed simp

text \<open>The bound is reached: this run takes 125 steps.\<close>

lemma rw_lock_finishes_witness:
  "\<exists>s. (rw_step ^^ 125) rw_start s \<and> rw_done s \<and> (125 :: nat) \<le> 125"
proof -
  have l: "length rw_turns = 125" by code_simp
  have "case rw_run rw_turns rw_start of None \<Rightarrow> False | Some s \<Rightarrow> rw_done s" by code_simp
  then obtain s where s: "rw_run rw_turns rw_start = Some s" "rw_done s" by (auto split: option.splits)
  have r: "(rw_step ^^ 125) rw_start s" using rw_run_steps [OF s(1)] l by simp
  from rw_lock_finishes [OF r] r s(2) show ?thesis by blast
qed

end
