(* ===== verification/Threads.thy ===== *)
theory Threads
  imports C_Lib "HOL-Library.Sublist" "HOL-Library.Multiset"
begin

text \<open>
  \<open>ex1_creat_thread.c\<close> and \<open>fun_thread_join.c\<close> of \<open>S4_Thread\<close>: threads that are created, end with a value, by
  \<open>return\<close> or by \<open>pthread_exit\<close>, and are joined. \<open>main\<close> and each thread are the lists of what they still have
  to do; the step relation interleaves them. \<open>pthread_create\<close> and \<open>malloc\<close> may fail. Using a \<open>pthread_t\<close> that
  was never set, a null pointer or freed memory, writing beyond a block of memory and reading what was never
  stored are undefined behaviour, a status of its own.
\<close>

section \<open>Threads and memory\<close>

type_synonym block = nat

text \<open>
  The bytes of a block; \<open>None\<close> is a byte that nothing has been stored in yet. \<open>put_string\<close> is what \<open>snprintf\<close>
  writes, with its terminating NUL, and \<open>None\<close> if that goes beyond the block; \<open>get_string\<close> is what
  \<open>printf (\"%s\")\<close> reads, and \<open>None\<close> if it comes to a byte that was not stored or to the end of the block.
\<close>

type_synonym bytes = "char option list"

definition put_string :: "nat \<Rightarrow> string \<Rightarrow> bytes \<Rightarrow> bytes option" where
  "put_string n text b =
     (let s = (if n = 0 then [] else snprintf n text @ [CHR 0x00]) in
      if length b < length s then None else Some (map Some s @ drop (length s) b))"

fun get_string :: "bytes \<Rightarrow> string option" where
  "get_string [] = None"
| "get_string (None # b) = None"
| "get_string (Some c # b) = (if c = CHR 0x00 then Some [] else map_option (Cons c) (get_string b))"

lemma get_put_string: "CHR 0x00 \<notin> set s \<Longrightarrow> get_string (map Some s @ Some CHR 0x00 # b) = Some s"
  by (induction s) auto

record Data =
  num :: int
  message :: string

text \<open>What a thread does, in the order of the source.\<close>

datatype thread_op = Print_work | Malloc nat | Snprintf nat | Return_result | Exit_result | Print_id | Exit_null

definition func_return :: "thread_op list" where
  "func_return = [Print_work, Malloc 100, Snprintf 100, Return_result]"

definition func_exit :: "thread_op list" where
  "func_exit = [Print_work, Malloc 100, Snprintf 100, Exit_result]"

definition thread_funtion :: "thread_op list" where
  "thread_funtion = [Print_id, Exit_null]"

text \<open>
  What \<open>main\<close> does; a thread is named by the variable that holds its \<open>pthread_t\<close>. \<open>checked\<close> says whether the
  code tests what \<open>pthread_create\<close> returns.
\<close>

datatype main_op = Create nat "thread_op list" "Data option" bool | Join nat | Print_ret nat | Free nat | Print_end | Return_0

definition ex1_main :: "main_op list" where
  "ex1_main = [Create 1 thread_funtion None True, Create 2 thread_funtion None True, Join 1, Join 2, Print_end, Return_0]"

definition join_main :: "main_op list" where
  "join_main = [Create 1 func_return (Some \<lparr>num = 1, message = ''Message from thread 1''\<rparr>) False,
     Create 2 func_exit (Some \<lparr>num = 2, message = ''Message from thread 2''\<rparr>) False,
     Join 1, Join 2, Print_ret 1, Print_ret 2, Free 1, Free 2, Return_0]"

datatype thread_line = Work int string | Id nat | Text string | All_done | Create_failed

text \<open>\<open>val\<close> is what the thread has ended with: a pointer, or \<open>Some None\<close> for \<open>NULL\<close>.\<close>

record pthread =
  code :: "thread_op list"
  arg :: "Data option"
  res :: "block option"
  val :: "block option option"

datatype status = Running | Ended int | Undefined

record process =
  main :: "main_op list"
  threads :: "nat \<rightharpoonup> pthread"
  rets :: "nat \<rightharpoonup> block option"
  heap :: "block \<rightharpoonup> bytes"
  out :: "thread_line list"
  status :: status

definition process_start :: "main_op list \<Rightarrow> process" where
  "process_start cs = \<lparr>main = cs, threads = Map.empty, rets = Map.empty, heap = Map.empty, out = [], status = Running\<rparr>"

text \<open>The bytes of the text that a worker stores.\<close>

definition success_text :: "int \<Rightarrow> string" where
  "success_text n = ''Return: Thread '' @ (if n < 0 then ''-'' else []) @ dec (nat \<bar>n\<bar>) @ '' k'' @
     [CHR 0xE1, CHR 0xBA, CHR 0xBF] @ ''t th'' @ [CHR 0xC3, CHR 0xBA] @ ''c th'' @ [CHR 0xC3, CHR 0xA0] @
     ''nh c'' @ [CHR 0xC3, CHR 0xB4] @ ''ng.'' @ [newline]"

section \<open>Steps\<close>

text \<open>The next action of thread \<open>i\<close>; \<open>mem\<close> is what \<open>malloc\<close> returns if it is called, an unused address or \<open>NULL\<close>.\<close>

definition thread_step :: "block option \<Rightarrow> nat \<Rightarrow> process \<Rightarrow> process option" where
  "thread_step mem i p =
     (case threads p i of
        None \<Rightarrow> None
      | Some t \<Rightarrow> (if status p \<noteq> Running then None else case code t of
            [] \<Rightarrow> None
          | a # as \<Rightarrow>
              (let p1 = p\<lparr>threads := (threads p)(i \<mapsto> t\<lparr>code := as\<rparr>)\<rparr> in
               case a of
                 Print_work \<Rightarrow> (case arg t of
                     None \<Rightarrow> Some (p\<lparr>status := Undefined\<rparr>)
                   | Some d \<Rightarrow> Some (p1\<lparr>out := out p @ [Work (num d) (message d)]\<rparr>))
               | Malloc n \<Rightarrow> (case mem of
                     None \<Rightarrow> Some (p\<lparr>threads := (threads p)(i \<mapsto> t\<lparr>code := as, res := None\<rparr>)\<rparr>)
                   | Some x \<Rightarrow> if heap p x \<noteq> None then None
                       else Some (p\<lparr>threads := (threads p)(i \<mapsto> t\<lparr>code := as, res := Some x\<rparr>),
                              heap := (heap p)(x \<mapsto> replicate n None)\<rparr>))
               | Snprintf n \<Rightarrow> (case (res t, arg t) of
                     (Some x, Some d) \<Rightarrow> (case Option.bind (heap p x) (put_string n (success_text (num d))) of
                         None \<Rightarrow> Some (p\<lparr>status := Undefined\<rparr>)
                       | Some b \<Rightarrow> Some (p1\<lparr>heap := (heap p)(x \<mapsto> b)\<rparr>))
                   | _ \<Rightarrow> Some (p\<lparr>status := Undefined\<rparr>))
               | Return_result \<Rightarrow> Some (p\<lparr>threads := (threads p)(i \<mapsto> t\<lparr>code := [], val := Some (res t)\<rparr>)\<rparr>)
               | Exit_result \<Rightarrow> Some (p\<lparr>threads := (threads p)(i \<mapsto> t\<lparr>code := [], val := Some (res t)\<rparr>)\<rparr>)
               | Print_id \<Rightarrow> Some (p1\<lparr>out := out p @ [Id i]\<rparr>)
               | Exit_null \<Rightarrow> Some (p\<lparr>threads := (threads p)(i \<mapsto> t\<lparr>code := [], val := Some None\<rparr>)\<rparr>))))"

definition undefined_state :: "process \<Rightarrow> process" where
  "undefined_state p = p\<lparr>status := Undefined\<rparr>"

text \<open>The next call of \<open>main\<close>; \<open>ok\<close> says whether a \<open>pthread_create\<close> succeeds. Joining blocks until the thread has ended.\<close>

definition main_step :: "bool \<Rightarrow> process \<Rightarrow> process option" where
  "main_step ok p =
     (if status p \<noteq> Running then None else case main p of
        [] \<Rightarrow> None
      | c # cs \<Rightarrow>
          (let p1 = p\<lparr>main := cs\<rparr> in
           case c of
             Create i f d checked \<Rightarrow>
               if ok then Some (p1\<lparr>threads := (threads p)(i \<mapsto> \<lparr>code = f, arg = d, res = None, val = None\<rparr>)\<rparr>)
               else if checked then Some (p1\<lparr>main := [], out := out p @ [Create_failed], status := Ended 1\<rparr>)
               else Some p1
           | Join i \<Rightarrow> (case threads p i of
               None \<Rightarrow> Some (undefined_state p)
             | Some t \<Rightarrow> map_option (\<lambda>v. p1\<lparr>threads := (threads p)(i := None), rets := (rets p)(i \<mapsto> v)\<rparr>) (val t))
           | Print_ret i \<Rightarrow> (case rets p i of
               Some (Some x) \<Rightarrow> (case Option.bind (heap p x) get_string of
                   None \<Rightarrow> Some (undefined_state p)
                 | Some s \<Rightarrow> Some (p1\<lparr>out := out p @ [Text s]\<rparr>))
             | _ \<Rightarrow> Some (undefined_state p))
           | Free i \<Rightarrow> (case rets p i of
               None \<Rightarrow> Some (undefined_state p)
             | Some None \<Rightarrow> Some p1
             | Some (Some x) \<Rightarrow> if heap p x = None then Some (undefined_state p)
                 else Some (p1\<lparr>heap := (heap p)(x := None)\<rparr>))
           | Print_end \<Rightarrow> Some (p1\<lparr>out := out p @ [All_done]\<rparr>)
           | Return_0 \<Rightarrow> Some (p1\<lparr>status := Ended 0\<rparr>)))"

text \<open>The steps of a run: of \<open>main\<close>, whose \<open>pthread_create\<close> succeeds or fails, or of a thread.\<close>

datatype choice = Main bool | Thread nat "block option"

definition process_step :: "choice \<Rightarrow> process \<Rightarrow> process option" where
  "process_step c p = (case c of Main ok \<Rightarrow> main_step ok p | Thread i mem \<Rightarrow> thread_step mem i p)"

fun process_run :: "choice list \<Rightarrow> process \<Rightarrow> process option" where
  "process_run [] p = Some p"
| "process_run (c # cs) p = Option.bind (process_step c p) (process_run cs)"

end
