(* ===== verification/Threads_Join.thy ===== *)
theory Threads_Join
  imports Threads
begin

text \<open>
  \<open>fun_thread_join.c\<close>: which worker owns which buffer, and what \<open>main\<close> prints and frees, under every schedule.
\<close>

section \<open>The invariant of \<open>fun_thread_join.c\<close>\<close>

text \<open>The runs in which every \<open>pthread_create\<close> and every \<open>malloc\<close> succeeds.\<close>

inductive good_step :: "process \<Rightarrow> process \<Rightarrow> bool" where
  of_thread: "thread_step (Some x) i p = Some p' \<Longrightarrow> good_step p p'"
| of_main: "main_step True p = Some p' \<Longrightarrow> good_step p p'"

inductive_cases good_stepE: "good_step p p'"

definition func_of :: "nat \<Rightarrow> thread_op list" where
  "func_of i = (if i = 1 then func_return else func_exit)"

definition data_of :: "nat \<Rightarrow> Data" where
  "data_of i = \<lparr>num = int i, message = ''Message from thread '' @ dec i\<rparr>"

definition create :: "nat \<Rightarrow> main_op" where
  "create i = Create i (func_of i) (Some (data_of i)) False"

lemma dec_one_two [simp]: "dec (Suc 0) = ''1''" "dec 2 = ''2''"
  by code_simp+

lemma join_main_calls:
  "join_main = [create 1, create 2, Join 1, Join 2, Print_ret 1, Print_ret 2, Free 1, Free 2, Return_0]"
  by (simp add: join_main_def create_def func_of_def data_of_def)

lemma func_of_actions:
  "func_of i = [Print_work, Malloc 100, Snprintf 100, if i = 1 then Return_result else Exit_result]"
  by (simp add: func_of_def func_return_def func_exit_def)

lemma create_eq [simp]:
  "create i = create j \<longleftrightarrow> i = j" "create i \<noteq> Join j" "create i \<noteq> Print_ret j" "create i \<noteq> Free j" "create i \<noteq> Return_0"
  "Join j \<noteq> create i" "Print_ret j \<noteq> create i" "Free j \<noteq> create i" "Return_0 \<noteq> create i"
  by (auto simp: create_def)

text \<open>The 100 bytes of a buffer after \<open>snprintf\<close>.\<close>

definition filled :: "nat \<Rightarrow> bytes" where
  "filled i = map Some (success_text (int i)) @ Some CHR 0x00 # replicate (99 - length (success_text (int i))) None"

text \<open>A worker at one of its four actions or at its end, with the buffer it owns.\<close>

definition join_worker_ok :: "nat \<Rightarrow> (block \<rightharpoonup> bytes) \<Rightarrow> pthread \<Rightarrow> bool" where
  "join_worker_ok i h t \<longleftrightarrow> arg t = Some (data_of i) \<and>
     (val t = None \<and> res t = None \<and> (code t = func_of i \<or> code t = drop 1 (func_of i)) \<or>
      val t = None \<and> (\<exists>x. res t = Some x \<and> h x = Some (replicate 100 None)) \<and> code t = drop 2 (func_of i) \<or>
      (\<exists>x. res t = Some x \<and> h x = Some (filled i) \<and>
        (val t = None \<and> code t = drop 3 (func_of i) \<or> val t = Some (Some x) \<and> code t = [])))"

definition slot_ok :: "nat \<Rightarrow> process \<Rightarrow> bool" where
  "slot_ok i p \<longleftrightarrow>
     (if create i \<in> set (main p) then threads p i = None
      else if Join i \<in> set (main p) then (\<exists>t. threads p i = Some t \<and> join_worker_ok i (heap p) t)
      else threads p i = None \<and>
        (Free i \<in> set (main p) \<longrightarrow> (\<exists>x. rets p i = Some (Some x) \<and> heap p x = Some (filled i))))"

text \<open>The buffer that belongs to slot \<open>i\<close>, what it has printed, and what \<open>main\<close> has printed.\<close>

definition buffer :: "nat \<Rightarrow> process \<Rightarrow> block option" where
  "buffer i p = (if Join i \<in> set (main p) then Option.bind (threads p i) res
     else if Free i \<in> set (main p) then Option.bind (rets p i) id else None)"

definition worked :: "nat \<Rightarrow> process \<Rightarrow> thread_line list" where
  "worked i p = (if create i \<in> set (main p) \<or> (\<exists>t. threads p i = Some t \<and> code t = func_of i) then []
     else [Work (int i) (message (data_of i))])"

definition returned :: "nat \<Rightarrow> process \<Rightarrow> thread_line list" where
  "returned i p = (if Print_ret i \<in> set (main p) then [] else [Text (success_text (int i))])"

definition join_inv :: "process \<Rightarrow> bool" where
  "join_inv p \<longleftrightarrow> suffix (main p) join_main \<and> status p = (if main p = [] then Ended 0 else Running) \<and>
     slot_ok 1 p \<and> slot_ok 2 p \<and> (\<forall>i. i \<noteq> 1 \<and> i \<noteq> 2 \<longrightarrow> threads p i = None) \<and>
     (\<forall>x. heap p x \<noteq> None \<longleftrightarrow> buffer 1 p = Some x \<or> buffer 2 p = Some x) \<and>
     (\<forall>x. \<not> (buffer 1 p = Some x \<and> buffer 2 p = Some x)) \<and>
     (\<exists>ws. out p = ws @ returned 1 p @ returned 2 p \<and> mset ws = mset (worked 1 p @ worked 2 p))"

lemma success_no_nul: "i = 1 \<or> i = 2 \<Longrightarrow> CHR 0x00 \<notin> set (success_text (int i))"
  by (auto simp: success_text_def newline_def)

lemma success_stored: "i = 1 \<or> i = 2 \<Longrightarrow> put_string 100 (success_text (int i)) (replicate 100 None) = Some (filled i)"
  by (auto simp: put_string_def filled_def snprintf_def success_text_def)

lemma filled_text: "i = 1 \<or> i = 2 \<Longrightarrow> get_string (filled i) = Some (success_text (int i))"
  by (simp add: filled_def get_put_string success_no_nul)

lemma join_suffixes:
  "suffix cs join_main \<longleftrightarrow> cs \<in> set [join_main, drop 1 join_main, drop 2 join_main, drop 3 join_main, drop 4 join_main,
     drop 5 join_main, drop 6 join_main, drop 7 join_main, drop 8 join_main, []]"
  by (auto simp: join_main_def suffix_Cons)

lemma join_inv_start: "join_inv (process_start join_main)"
  by (simp add: join_inv_def process_start_def slot_ok_def buffer_def worked_def returned_def)
    (simp add: join_main_calls)

text \<open>Where the workers are while they run: both waits and everything after them are still to come.\<close>

lemma while_running:
  assumes "join_inv p" "threads p i = Some t"
  shows "i = 1 \<or> i = 2" "join_worker_ok i (heap p) t" "create i \<notin> set (main p)" "Join i \<in> set (main p)"
    "Free i \<in> set (main p)" "Print_ret i \<in> set (main p)" "main p \<noteq> []" "returned 1 p = []" "returned 2 p = []" 
proof -
  show i: "i = 1 \<or> i = 2" using assms by (auto simp: join_inv_def)
  then have s: "slot_ok i p" using assms by (auto simp: join_inv_def)
  show m: "join_worker_ok i (heap p) t" "create i \<notin> set (main p)" "Join i \<in> set (main p)"
    using s assms(2) by (auto simp: slot_ok_def split: if_splits)
  have "suffix (main p) join_main" using assms by (simp add: join_inv_def)
  with m(3) i show "Free i \<in> set (main p)" "Print_ret i \<in> set (main p)" "main p \<noteq> []" "returned 1 p = []" "returned 2 p = []"
    unfolding join_suffixes by (auto simp: join_main_calls returned_def)
qed

text \<open>A worker goes on: it keeps its buffer or gets a fresh one, and changes no other memory.\<close>

definition grows :: "(block \<rightharpoonup> bytes) \<Rightarrow> block option \<Rightarrow> (block \<rightharpoonup> bytes) \<Rightarrow> block option \<Rightarrow> bool" where
  "grows h r h' r' \<longleftrightarrow> (\<forall>y. r' \<noteq> Some y \<longrightarrow> h' y = h y) \<and> (\<forall>y. r' = Some y \<longrightarrow> h' y \<noteq> None) \<and>
     (r = r' \<or> r = None \<and> (\<forall>y. r' = Some y \<longrightarrow> h y = None))"

lemma other_slot:
  assumes inv: "join_inv p" and t: "threads p i = Some t" and j: "j \<in> {1, 2}" "j \<noteq> i"
    and g: "grows (heap p) (res t) h' (res t')"
  shows "slot_ok j (p\<lparr>threads := (threads p)(i \<mapsto> t'), heap := h', out := out'\<rparr>)"
proof -
  have s: "slot_ok j p" using inv j(1) by (auto simp: join_inv_def)
  have b: "buffer i p = res t" using while_running(4) [OF inv t] t by (simp add: buffer_def)
  have "\<exists>x. buffer j p = Some x \<and> h' x \<noteq> heap p x \<Longrightarrow> False"
  proof (elim exE conjE)
    fix x assume x: "buffer j p = Some x" "h' x \<noteq> heap p x"
    then have "res t' = Some x" using g by (auto simp: grows_def)
    moreover have "heap p x \<noteq> None" "buffer i p \<noteq> Some x"
      using inv x(1) j while_running(1) [OF inv t] by (auto simp: join_inv_def)
    ultimately show False using g b by (auto simp: grows_def)
  qed
  then have same: "h' x = heap p x" if "buffer j p = Some x" for x using that by blast
  have f: "Join j \<notin> set (main p) \<Longrightarrow> Free j \<in> set (main p) \<Longrightarrow> rets p j = Some (Some x) \<Longrightarrow> h' x = heap p x" for x
    using same [of x] by (simp add: buffer_def)
  have w: "Join j \<in> set (main p) \<Longrightarrow> threads p j = Some u \<Longrightarrow> join_worker_ok j (heap p) u \<Longrightarrow> join_worker_ok j h' u" for u
    using same by (auto simp: buffer_def join_worker_ok_def)
  show ?thesis using s j(2) f w by (auto simp: slot_ok_def split: if_splits)
qed

lemma same_out [simp]: "p\<lparr>threads := a, heap := h, out := out p\<rparr> = p\<lparr>threads := a, heap := h\<rparr>"
  "p\<lparr>threads := a, heap := heap p\<rparr> = p\<lparr>threads := a\<rparr>"
  by (cases p; simp)+

lemma worker_moves:
  assumes inv: "join_inv p" and t: "threads p i = Some t" and w: "join_worker_ok i h' t'" "code t' \<noteq> func_of i"
    and g: "grows (heap p) (res t) h' (res t')"
    and o: "out' = out p @ (if code t = func_of i then [Work (int i) (message (data_of i))] else [])"
  shows "join_inv (p\<lparr>threads := (threads p)(i \<mapsto> t'), heap := h', out := out'\<rparr>)" (is "join_inv ?p")
proof -
  note r = while_running [OF inv t]
  have i: "slot_ok i ?p" using r w by (simp add: slot_ok_def)
  have slots: "slot_ok 1 ?p" "slot_ok 2 ?p"
    using i other_slot [OF inv t _ _ g] r(1) by (auto simp del: fun_upd_apply)
  have b: "buffer i p = res t" "buffer i ?p = res t'" "j \<noteq> i \<Longrightarrow> buffer j ?p = buffer j p" for j
    using r t by (auto simp: buffer_def)
  define j where "j = 3 - i"
  then have j: "i = 1 \<and> j = 2 \<or> i = 2 \<and> j = 1" using r(1) by auto
  then have sym: "P 1 \<or> P 2 \<longleftrightarrow> P i \<or> P j" "P 1 \<and> P 2 \<longleftrightarrow> P i \<and> P j" for P :: "nat \<Rightarrow> bool"
    by auto
  have old: "heap p x \<noteq> None \<longleftrightarrow> buffer i p = Some x \<or> buffer j p = Some x" "\<not> (buffer i p = Some x \<and> buffer j p = Some x)" for x
    using inv sym [of "\<lambda>k. buffer k p = Some x"] unfolding join_inv_def by blast+
  have "h' x \<noteq> None \<longleftrightarrow> buffer i ?p = Some x \<or> buffer j ?p = Some x" "\<not> (buffer i ?p = Some x \<and> buffer j ?p = Some x)" for x
    using old [of x] b(1,2) b(3) [of j] j g by (cases "res t' = Some x"; auto simp: grows_def)+
  then have heap: "\<forall>x. h' x \<noteq> None \<longleftrightarrow> buffer 1 ?p = Some x \<or> buffer 2 ?p = Some x"
    and disj: "\<forall>x. \<not> (buffer 1 ?p = Some x \<and> buffer 2 ?p = Some x)"
    using sym [of "\<lambda>k. buffer k ?p = Some _"] by blast+
  have wk: "worked i ?p = [Work (int i) (message (data_of i))]"
    "worked i p = (if code t = func_of i then [] else [Work (int i) (message (data_of i))])"
    "j \<noteq> i \<Longrightarrow> worked j ?p = worked j p" for j
    using r t w(2) by (auto simp: worked_def)
  obtain ws where ws: "out p = ws" "mset ws = mset (worked 1 p @ worked 2 p)"
    using inv r(8,9) by (auto simp: join_inv_def)
  have "returned 1 ?p = []" "returned 2 ?p = []" using r(8,9) by (simp_all add: returned_def)
  moreover have "mset out' = mset (worked 1 ?p @ worked 2 ?p)"
    using r(1) wk ws o by (auto simp del: fun_upd_apply)
  ultimately have "\<exists>ws. out' = ws @ returned 1 ?p @ returned 2 ?p \<and> mset ws = mset (worked 1 ?p @ worked 2 ?p)" by simp
  with inv slots heap disj r(1,7) show ?thesis by (auto simp: join_inv_def)
qed

lemma thread_join_inv:
  assumes inv: "join_inv p" and step: "thread_step (Some x) i p = Some p'"
  shows "join_inv p'"
proof -
  obtain t where t: "threads p i = Some t" using step by (auto simp: thread_step_def split: option.splits)
  note r = while_running [OF inv t]
  have run: "status p = Running" using inv r(7) by (simp add: join_inv_def)
  have a: "arg t = Some (data_of i)" using r(2) by (simp add: join_worker_ok_def)
  consider (print) "code t = func_of i" "res t = None" "val t = None"
    | (malloc) "code t = drop 1 (func_of i)" "res t = None" "val t = None"
    | (fill) y where "code t = drop 2 (func_of i)" "res t = Some y" "val t = None" "heap p y = Some (replicate 100 None)"
    | (last) y where "code t = drop 3 (func_of i)" "res t = Some y" "val t = None" "heap p y = Some (filled i)"
    | (ended) "code t = []"
    using r(2) unfolding join_worker_ok_def by auto
  then show ?thesis
  proof cases
    case print
    then have "p' = p\<lparr>threads := (threads p)(i \<mapsto> t\<lparr>code := drop 1 (func_of i)\<rparr>), heap := heap p,
        out := out p @ [Work (int i) (message (data_of i))]\<rparr>"
      using step t run a by (simp add: thread_step_def func_of_actions data_of_def)
    then show ?thesis
      using worker_moves [OF inv t, of "heap p" "t\<lparr>code := drop 1 (func_of i)\<rparr>"] print a
      by (simp add: join_worker_ok_def func_of_actions grows_def)
  next
    case malloc
    then have p': "p' = p\<lparr>threads := (threads p)(i \<mapsto> t\<lparr>code := drop 2 (func_of i), res := Some x\<rparr>),
        heap := (heap p)(x \<mapsto> replicate 100 None), out := out p\<rparr>" "heap p x = None"
      using step t run a by (auto simp: thread_step_def func_of_actions split: if_splits)
    then show ?thesis
      using worker_moves [OF inv t, of "(heap p)(x \<mapsto> replicate 100 None)" "t\<lparr>code := drop 2 (func_of i), res := Some x\<rparr>"] malloc a
      by (simp add: join_worker_ok_def func_of_actions grows_def)
  next
    case fill
    have p': "p' = p\<lparr>threads := (threads p)(i \<mapsto> t\<lparr>code := drop 3 (func_of i)\<rparr>),
        heap := (heap p)(y \<mapsto> filled i)\<rparr>"
      using fill step t run a success_stored [OF r(1)] by (simp add: thread_step_def func_of_actions data_of_def)
    then show ?thesis
      using worker_moves [OF inv t, of "(heap p)(y \<mapsto> filled i)" "t\<lparr>code := drop 3 (func_of i)\<rparr>"] fill a
      by (simp add: join_worker_ok_def func_of_actions grows_def)
  next
    case last
    have p': "p' = p\<lparr>threads := (threads p)(i \<mapsto> t\<lparr>code := [], val := Some (Some y)\<rparr>),
        heap := heap p\<rparr>"
      using last step t run a by (simp add: thread_step_def func_of_actions split: if_splits)
    then show ?thesis
      using worker_moves [OF inv t, of "heap p" "t\<lparr>code := [], val := Some (Some y)\<rparr>"] last a
      by (auto simp: join_worker_ok_def func_of_actions grows_def)
  next
    case ended
    then show ?thesis using step t run by (simp add: thread_step_def)
  qed
qed

lemmas slot_defs = slot_ok_def buffer_def worked_def returned_def

lemma main_suffix:
  assumes "join_inv p" "main p = c # cs"
  shows "(c, cs) \<in> set [(create 1, drop 1 join_main), (create 2, drop 2 join_main), (Join 1, drop 3 join_main),
      (Join 2, drop 4 join_main), (Print_ret 1, drop 5 join_main), (Print_ret 2, drop 6 join_main),
      (Free 1, drop 7 join_main), (Free 2, drop 8 join_main), (Return_0, [])]"
    "suffix cs join_main" "status p = Running"
proof -
  have s: "suffix (c # cs) join_main" using assms by (simp add: join_inv_def)
  then show "(c, cs) \<in> set [(create 1, drop 1 join_main), (create 2, drop 2 join_main), (Join 1, drop 3 join_main),
      (Join 2, drop 4 join_main), (Print_ret 1, drop 5 join_main), (Print_ret 2, drop 6 join_main),
      (Free 1, drop 7 join_main), (Free 2, drop 8 join_main), (Return_0, [])]"
    unfolding join_suffixes by (simp add: join_main_calls)
  show "suffix cs join_main" by (rule suffix_order.trans [OF _ s]) (simp add: suffix_ConsI)
  show "status p = Running" using assms by (simp add: join_inv_def)
qed

text \<open>What a call of \<open>main\<close> does to a slot it does not concern.\<close>

lemma slot_frame:
  assumes "\<forall>c \<in> {create i, Join i, Print_ret i, Free i}. c \<in> set (main p') \<longleftrightarrow> c \<in> set (main p)"
    and "threads p' i = threads p i" "rets p' i = rets p i"
  shows "buffer i p' = buffer i p" "worked i p' = worked i p" "returned i p' = returned i p"
    "slot_ok i p \<Longrightarrow> (\<And>x. buffer i p = Some x \<Longrightarrow> heap p' x = heap p x) \<Longrightarrow> slot_ok i p'"
proof -
  show "buffer i p' = buffer i p" "worked i p' = worked i p" "returned i p' = returned i p"
    using assms by (simp_all add: slot_defs)
  assume s: "slot_ok i p" and h: "\<And>x. buffer i p = Some x \<Longrightarrow> heap p' x = heap p x"
  have w: "Join i \<in> set (main p) \<Longrightarrow> threads p i = Some u \<Longrightarrow> join_worker_ok i (heap p) u \<Longrightarrow> join_worker_ok i (heap p') u" for u
    using h by (auto simp: buffer_def join_worker_ok_def)
  have f: "Join i \<notin> set (main p) \<Longrightarrow> Free i \<in> set (main p) \<Longrightarrow> rets p i = Some (Some x) \<Longrightarrow> heap p' x = heap p x" for x
    using h [of x] by (simp add: buffer_def)
  show "slot_ok i p'" using s assms w f by (auto simp: slot_ok_def)
qed

text \<open>The invariant when slot \<open>i\<close> has been treated and slot \<open>j\<close> is as before.\<close>

lemma join_inv_slots:
  assumes inv: "join_inv p" and ij: "i = 1 \<and> j = 2 \<or> i = 2 \<and> j = 1"
    and main: "suffix (main p') join_main" "status p' = (if main p' = [] then Ended 0 else Running)"
    and j: "\<forall>c \<in> {create j, Join j, Print_ret j, Free j}. c \<in> set (main p') \<longleftrightarrow> c \<in> set (main p)"
      "\<forall>k. k \<noteq> i \<longrightarrow> threads p' k = threads p k" "rets p' j = rets p j"
    and i: "slot_ok i p'" "worked i p' = worked i p"
    and heap: "\<forall>x. heap p' x \<noteq> None \<longleftrightarrow> heap p x \<noteq> None \<and> (buffer i p = Some x \<longrightarrow> buffer i p' = Some x)"
      "buffer i p' = buffer i p \<or> buffer i p' = None" "\<forall>x. buffer i p \<noteq> Some x \<longrightarrow> heap p' x = heap p x"
    and out: "out p' = out p \<and> returned i p' = returned i p \<or>
      out p' = out p @ returned i p' \<and> returned i p = [] \<and> (i = 1 \<longrightarrow> returned 2 p = [])"
  shows "join_inv p'"
proof -
  have old: "slot_ok j p" "heap p x \<noteq> None \<longleftrightarrow> buffer i p = Some x \<or> buffer j p = Some x"
    "\<not> (buffer i p = Some x \<and> buffer j p = Some x)" for x
    using inv ij unfolding join_inv_def by blast+
  have f: "buffer j p' = buffer j p" "worked j p' = worked j p" "returned j p' = returned j p"
    by (rule slot_frame; use j ij in auto)+
  have "threads p' j = threads p j" using j(2) ij by auto
  then have sj: "slot_ok j p'" using slot_frame(4) [OF j(1) _ j(3) old(1)] old(3) heap(3) by blast
  have "heap p' x \<noteq> None \<longleftrightarrow> buffer i p' = Some x \<or> buffer j p' = Some x" for x
    using old(2,3) [of x] heap f by (metis option.distinct(1))
  moreover have "\<not> (buffer i p' = Some x \<and> buffer j p' = Some x)" for x
    using old(3) [of x] heap(2) f by auto
  moreover obtain ws where ws: "out p = ws @ returned 1 p @ returned 2 p" "mset ws = mset (worked 1 p @ worked 2 p)"
    using inv unfolding join_inv_def by blast
  then have "out p' = ws @ returned 1 p' @ returned 2 p'" "mset ws = mset (worked 1 p' @ worked 2 p')"
    using ij out f i(2) by auto
  moreover have "\<forall>k. k \<noteq> 1 \<and> k \<noteq> 2 \<longrightarrow> threads p' k = None" using inv j(2) ij by (auto simp: join_inv_def)
  ultimately show ?thesis using main i(1) sj ij unfolding join_inv_def by blast
qed

text \<open>The calls of \<open>main\<close> for the worker \<open>i\<close>.\<close>

lemma main_create:
  assumes inv: "join_inv p" and step: "main_step True p = Some p'" and m: "main p = create i # cs" "status p = Running"
    and ij: "i = 1 \<and> j = 2 \<or> i = 2 \<and> j = (1 :: nat)"
  shows "join_inv p' \<and> status p' \<noteq> Undefined"
proof -
  note s = main_suffix [OF inv m(1)]
  have sl: "slot_ok i p" using inv ij unfolding join_inv_def by blast
  have mem: "set (main p) = insert (create i) (set cs)" using m by simp
  have cs: "create i \<notin> set cs" "{Join i, Print_ret i, Free i} \<subseteq> set cs" using s(1) ij by (auto simp: join_main_calls)
  have p': "p' = p\<lparr>main := cs, threads := (threads p)(i \<mapsto> \<lparr>code = func_of i, arg = Some (data_of i), res = None, val = None\<rparr>)\<rparr>"
    using step m by (simp add: main_step_def create_def)
  have "join_inv p'"
    by (rule join_inv_slots [OF inv ij])
      (use p' s cs sl ij mem in \<open>auto simp: slot_defs join_worker_ok_def split: if_splits\<close>)
  then show ?thesis using p' m by simp
qed

lemma main_join:
  assumes inv: "join_inv p" and step: "main_step True p = Some p'" and m: "main p = Join i # cs" "status p = Running"
    and ij: "i = 1 \<and> j = 2 \<or> i = 2 \<and> j = (1 :: nat)"
  shows "join_inv p' \<and> status p' \<noteq> Undefined"
proof -
  note s = main_suffix [OF inv m(1)]
  have sl: "slot_ok i p" using inv ij unfolding join_inv_def by blast
  have mem: "set (main p) = insert (Join i) (set cs)" using m by simp
  have cs: "create i \<notin> set cs" "Join i \<notin> set cs" "{Print_ret i, Free i} \<subseteq> set cs"
    using s(1) ij by (auto simp: join_main_calls)
  then obtain t where t: "threads p i = Some t" "join_worker_ok i (heap p) t"
    using sl mem by (auto simp: slot_ok_def)
  with step m obtain v where v: "val t = Some v"
    "p' = p\<lparr>main := cs, threads := (threads p)(i := None), rets := (rets p)(i \<mapsto> v)\<rparr>"
    by (auto simp: main_step_def)
  with t obtain x where x: "v = Some x" "res t = Some x" "heap p x = Some (filled i)" "code t = []"
    by (auto simp: join_worker_ok_def)
  have "join_inv p'"
    by (rule join_inv_slots [OF inv ij])
      (use v x t s cs ij mem in \<open>auto simp: slot_defs func_of_actions split: if_splits\<close>)
  then show ?thesis using v m by simp
qed

lemma main_print:
  assumes inv: "join_inv p" and step: "main_step True p = Some p'" and m: "main p = Print_ret i # cs" "status p = Running"
    and ij: "i = 1 \<and> j = 2 \<or> i = 2 \<and> j = (1 :: nat)"
  shows "join_inv p' \<and> status p' \<noteq> Undefined"
proof -
  note s = main_suffix [OF inv m(1)]
  have sl: "slot_ok i p" using inv ij unfolding join_inv_def by blast
  have mem: "set (main p) = insert (Print_ret i) (set cs)" using m by simp
  have cs: "create i \<notin> set cs" "Join i \<notin> set cs" "Print_ret i \<notin> set cs" "Free i \<in> set cs"
    "i = 1 \<longrightarrow> Print_ret 2 \<in> set cs" using s(1) ij by (auto simp: join_main_calls)
  then obtain x where x: "rets p i = Some (Some x)" "heap p x = Some (filled i)"
    using sl mem by (auto simp: slot_ok_def)
  have p': "p' = p\<lparr>main := cs, out := out p @ [Text (success_text (int i))]\<rparr>"
    using step m x filled_text ij by (auto simp: main_step_def)
  have f: "slot_ok i p'" "worked i p' = worked i p" "buffer i p' = buffer i p" "returned i p = []"
    "returned i p' = [Text (success_text (int i))]" "i = 1 \<longrightarrow> returned 2 p = []"
    using p' cs mem sl by (simp_all add: slot_defs)
  have "cs \<noteq> []" using cs by auto
  then have "join_inv p'"
    by (intro join_inv_slots [OF inv ij]) (use p' f s(2,3) ij mem in auto)
  then show ?thesis using p' m by simp
qed

lemma main_free:
  assumes inv: "join_inv p" and step: "main_step True p = Some p'" and m: "main p = Free i # cs" "status p = Running"
    and ij: "i = 1 \<and> j = 2 \<or> i = 2 \<and> j = (1 :: nat)"
  shows "join_inv p' \<and> status p' \<noteq> Undefined"
proof -
  note s = main_suffix [OF inv m(1)]
  have sl: "slot_ok i p" using inv ij unfolding join_inv_def by blast
  have mem: "set (main p) = insert (Free i) (set cs)" using m by simp
  have cs: "create i \<notin> set cs" "Join i \<notin> set cs" "Print_ret i \<notin> set cs" "Free i \<notin> set cs" "cs \<noteq> []"
    using s(1) ij by (auto simp: join_main_calls)
  then obtain x where x: "rets p i = Some (Some x)" "heap p x = Some (filled i)"
    using sl mem by (auto simp: slot_ok_def)
  have p': "p' = p\<lparr>main := cs, heap := (heap p)(x := None)\<rparr>"
    using step m x by (simp add: main_step_def)
  have f: "slot_ok i p'" "worked i p' = worked i p" "buffer i p' = None" "buffer i p = Some x"
    "returned i p' = returned i p"
    using p' x cs mem sl by (simp_all add: slot_defs)
  have "join_inv p'"
    by (intro join_inv_slots [OF inv ij]) (use p' f s(2,3) ij mem cs(5) in auto)
  then show ?thesis using p' m by simp
qed

lemma main_join_inv:
  assumes inv: "join_inv p" and step: "main_step True p = Some p'"
  shows "join_inv p' \<and> status p' \<noteq> Undefined"
proof -
  obtain c cs where m: "main p = c # cs" "status p = Running"
    using step by (auto simp: main_step_def split: if_splits list.splits)
  from main_suffix(1) [OF inv m(1)] consider (other) "c = Return_0" "cs = []"
    | (slot) i j :: nat where "i = 1 \<and> j = 2 \<or> i = 2 \<and> j = 1" "c \<in> {create i, Join i, Print_ret i, Free i}"
    by auto
  then show ?thesis
  proof cases
    case other
    then have "p' = p\<lparr>main := [], status := Ended 0\<rparr>" using step m by (simp add: main_step_def)
    then show ?thesis using inv m other by (auto simp: join_inv_def slot_defs)
  next
    case (slot i j)
    then show ?thesis
      using m main_create [OF inv step _ m(2)] main_join [OF inv step _ m(2)] main_print [OF inv step _ m(2)]
        main_free [OF inv step _ m(2)] by blast
  qed
qed

lemma join_inv_step: "join_inv p \<Longrightarrow> good_step p p' \<Longrightarrow> join_inv p'"
  by (erule good_stepE) (auto intro: thread_join_inv dest: main_join_inv)

interpretation join_sys: invariant_system "\<lambda>p. p = process_start join_main" good_step join_inv
  by unfold_locales (simp add: join_inv_start, erule (1) join_inv_step)

lemma join_progress:
  assumes inv: "join_inv p" and run: "main p \<noteq> []"
  shows "\<exists>p'. good_step p p'"
proof (rule ccontr)
  assume stuck: "\<nexists>p'. good_step p p'"
  obtain c cs where m: "main p = c # cs" using run by (cases "main p") auto
  note s = main_suffix [OF inv m]
  have none: "main_step True p = None" "thread_step (Some x) i p = None" for i x
    using stuck by (metis good_step.intros not_Some_eq)+
  have "\<exists>i. c = Join i \<and> (\<forall>t. threads p i = Some t \<longrightarrow> val t = None)"
    using none(1) s(3) m by (cases c) (auto simp: main_step_def Let_def split: option.splits if_splits)
  then obtain i where c: "c = Join i" "\<forall>t. threads p i = Some t \<longrightarrow> val t = None" by blast
  then have i: "i = 1 \<or> i = 2" "create i \<notin> set (main p)" using s(1) m by (auto simp: join_main_calls)
  then have "slot_ok i p" using inv by (auto simp: join_inv_def)
  then obtain t where t: "threads p i = Some t" "join_worker_ok i (heap p) t" using i(2) c m by (auto simp: slot_ok_def)
  have "infinite {x. heap p x = None}"
  proof -
    have "finite {x. heap p x \<noteq> None}"
      by (rule finite_subset [of _ "set_option (buffer 1 p) \<union> set_option (buffer 2 p)"])
        (use inv in \<open>auto simp: join_inv_def\<close>)
    moreover have "{x. heap p x = None} = UNIV - {x. heap p x \<noteq> None}" by auto
    ultimately show ?thesis by (metis infinite_UNIV_nat finite_Diff2)
  qed
  then obtain x where x: "heap p x = None" using infinite_imp_nonempty by blast
  have "code t \<noteq> []" using t c by (auto simp: join_worker_ok_def func_of_actions)
  then have "thread_step (Some x) i p \<noteq> None"
    using t x s(3) by (auto simp: thread_step_def join_worker_ok_def func_of_actions split: list.splits thread_op.splits option.splits)
  with none(2) [of x i] show False by simp
qed

abbreviation join_reach :: "process \<Rightarrow> bool" where
  "join_reach \<equiv> reach (\<lambda>p. p = process_start join_main) good_step"

text \<open>The choices of a run in which nothing fails.\<close>

definition good_choice :: "choice \<Rightarrow> bool" where
  "good_choice c \<longleftrightarrow> (case c of Main ok \<Rightarrow> ok | Thread i mem \<Rightarrow> mem \<noteq> None)"

lemma good_choice_step: "good_choice c \<Longrightarrow> process_step c p = Some p' \<Longrightarrow> good_step p p'"
  by (auto simp: good_choice_def process_step_def intro: good_step.intros split: choice.splits)

lemma good_run_reach:
  "list_all good_choice cs \<Longrightarrow> join_reach p \<Longrightarrow> process_run cs p = Some p' \<Longrightarrow> join_reach p'"
proof (induction cs arbitrary: p)
  case (Cons c cs)
  then obtain p1 where p1: "process_step c p = Some p1" "process_run cs p1 = Some p'"
    by (auto simp: bind_eq_Some_conv)
  have "join_reach p1" by (rule reach_step [OF Cons.prems(2) good_choice_step [OF _ p1(1)]]) (use Cons.prems in simp)
  then show ?case using Cons.IH [OF _ _ p1(2)] Cons.prems(1) by simp
qed simp

section \<open>Properties\<close>

text \<open>
  C22: \<open>fun_thread_join.c\<close> when every \<open>pthread_create\<close> and \<open>malloc\<close> succeeds: under every schedule of the two
  workers nothing undefined happens (no thread or memory is used before it is there or after it is gone, nothing is
  written beyond the buffers of 100 bytes and only stored bytes are read), some step is possible until \<open>main\<close> has
  returned, and then the output is
  the two lines of the workers, in some order, and after them the full text of the first and of the second
  worker, in this order, although one has returned its buffer and the other has passed it to
  \<open>pthread_exit\<close>; and all memory has been freed.
\<close>

theorem join_collects_results:
  assumes "join_reach p"
  shows "status p \<noteq> Undefined \<and> (status p = Running \<longrightarrow> (\<exists>p'. good_step p p')) \<and>
    (\<forall>n. status p = Ended n \<longrightarrow> n = 0 \<and> heap p = Map.empty \<and>
       (\<exists>ws. out p = ws @ [Text (success_text 1), Text (success_text 2)] \<and>
         mset ws = {#Work 1 ''Message from thread 1'', Work 2 ''Message from thread 2''#}))"
proof -
  have inv: "join_inv p" by (rule join_sys.reach_inv [OF assms])
  then have st: "status p = (if main p = [] then Ended 0 else Running)" by (simp add: join_inv_def)
  have "heap p = Map.empty \<and> (\<exists>ws. out p = ws @ [Text (success_text 1), Text (success_text 2)] \<and>
      mset ws = {#Work 1 ''Message from thread 1'', Work 2 ''Message from thread 2''#})" if "main p = []"
    using inv that by (auto simp: join_inv_def slot_defs data_of_def fun_eq_iff)
  with st join_progress [OF inv] show ?thesis by auto
qed

definition join_run :: "choice list" where
  "join_run = [Main True, Thread 1 (Some 0), Main True, Thread 2 (Some 0), Thread 2 (Some 7), Thread 1 (Some 5),
     Thread 1 (Some 0), Thread 2 (Some 0), Thread 2 (Some 0), Thread 1 (Some 0)] @ replicate 7 (Main True)"

lemma join_collects_results_witness:
  "\<exists>p. process_run join_run (process_start join_main) = Some p \<and> status p = Ended 0 \<and> heap p = Map.empty"
proof -
  have "case process_run join_run (process_start join_main) of None \<Rightarrow> False | Some p \<Rightarrow> status p = Ended 0"
    by code_simp
  then obtain p where p: "process_run join_run (process_start join_main) = Some p" "status p = Ended 0"
    by (auto split: option.splits)
  have "list_all good_choice join_run" by code_simp
  then have "join_reach p" using good_run_reach [OF _ _ p(1)] by (auto intro: reach_start)
  from join_collects_results [OF this] p show ?thesis by auto
qed

text \<open>Nothing checks \<open>pthread_create\<close>: when the first one fails, \<open>main\<close> joins a thread that was never created.\<close>

lemma join_of_missing_thread:
  "\<exists>p. process_run [Main False, Main True, Main True] (process_start join_main) = Some p \<and> status p = Undefined"
proof -
  have "case process_run [Main False, Main True, Main True] (process_start join_main) of
    None \<Rightarrow> False | Some p \<Rightarrow> status p = Undefined" by code_simp
  then show ?thesis by (auto split: option.splits)
qed

end
