(* ===== verification/Threads_Create.thy ===== *)
theory Threads_Create
  imports Threads
begin

text \<open>
  \<open>ex1_creat_thread.c\<close>: what is printed under every schedule, whichever \<open>pthread_create\<close> fails.
\<close>

inductive ex1_step :: "process \<Rightarrow> process \<Rightarrow> bool" where
  chosen: "process_step c p = Some p' \<Longrightarrow> ex1_step p p'"

inductive_cases ex1_stepE: "ex1_step p p'"

definition create_id :: "nat \<Rightarrow> main_op" where
  "create_id i = Create i thread_funtion None True"

lemma ex1_calls: "ex1_main = [create_id 1, create_id 2, Join 1, Join 2, Print_end, Return_0]"
  by (simp add: ex1_main_def create_id_def)

lemma create_id_eq [simp]:
  "create_id i = create_id j \<longleftrightarrow> i = j" "create_id i \<noteq> Join j" "create_id i \<noteq> Print_end" "create_id i \<noteq> Return_0"
  "Join j \<noteq> create_id i" "Print_end \<noteq> create_id i" "Return_0 \<noteq> create_id i"
  by (auto simp: create_id_def)

lemma ex1_suffixes:
  "suffix cs ex1_main \<longleftrightarrow> cs \<in> set [ex1_main, drop 1 ex1_main, drop 2 ex1_main, drop 3 ex1_main, drop 4 ex1_main,
     [Return_0], []]"
  by (auto simp: ex1_main_def suffix_Cons)

definition id_ok :: "nat \<Rightarrow> process \<Rightarrow> bool" where
  "id_ok i p \<longleftrightarrow>
     (if create_id i \<notin> set (main p) \<and> Join i \<in> set (main p)
      then (\<exists>t. threads p i = Some t \<and>
        (code t, val t) \<in> {(thread_funtion, None), (drop 1 thread_funtion, None), ([], Some None)})
      else threads p i = None)"

definition id_lines :: "nat \<Rightarrow> process \<Rightarrow> thread_line list" where
  "id_lines i p = (if create_id i \<in> set (main p) \<or> (\<exists>t. threads p i = Some t \<and> code t = thread_funtion) then [] else [Id i])"

definition running_ok :: "process \<Rightarrow> bool" where
  "running_ok p \<longleftrightarrow> suffix (main p) ex1_main \<and> main p \<noteq> [] \<and> id_ok 1 p \<and> id_ok 2 p \<and>
     (\<forall>k. k \<noteq> 1 \<and> k \<noteq> 2 \<longrightarrow> threads p k = None) \<and>
     (\<exists>ws. out p = ws @ (if Print_end \<in> set (main p) then [] else [All_done]) \<and> mset ws = mset (id_lines 1 p @ id_lines 2 p))"

definition ex1_inv :: "process \<Rightarrow> bool" where
  "ex1_inv p \<longleftrightarrow> (case status p of
      Undefined \<Rightarrow> False
    | Running \<Rightarrow> running_ok p
    | Ended n \<Rightarrow> n = 0 \<and> (\<exists>ws. out p = ws @ [All_done] \<and> mset ws = {#Id 1, Id 2#}) \<or>
        n = 1 \<and> (out p = [Create_failed] \<or> out p = [Id 1, Create_failed]))"

lemma thread_actions: "thread_funtion \<noteq> []" "drop 1 thread_funtion \<noteq> []" "thread_funtion = [Print_id, Exit_null]"
  by (simp_all add: thread_funtion_def)

lemma ex1_inv_start: "ex1_inv (process_start ex1_main)"
  by (simp add: ex1_inv_def running_ok_def process_start_def id_ok_def id_lines_def) (simp add: ex1_calls)

lemmas id_defs = id_ok_def id_lines_def

lemma id_frame:
  assumes "\<forall>c \<in> {create_id i, Join i}. c \<in> set (main p') \<longleftrightarrow> c \<in> set (main p)" "threads p' i = threads p i"
  shows "id_ok i p' \<longleftrightarrow> id_ok i p" "id_lines i p' = id_lines i p"
  using assms by (simp_all add: id_defs)

lemma ex1_thread_inv:
  assumes inv: "ex1_inv p" and step: "thread_step mem i p = Some p'"
  shows "ex1_inv p'"
proof -
  obtain t where t: "threads p i = Some t" and run: "status p = Running"
    using step by (auto simp: thread_step_def split: option.splits if_splits)
  then have ok: "running_ok p" using inv by (simp add: ex1_inv_def)
  then have i: "i = 1 \<or> i = 2" using t by (auto simp: running_ok_def)
  then have "id_ok i p" using ok by (auto simp: running_ok_def)
  then have m: "create_id i \<notin> set (main p)" "Join i \<in> set (main p)"
      "(code t, val t) \<in> {(thread_funtion, None), (drop 1 thread_funtion, None), ([], Some None)}"
    using t by (auto simp: id_ok_def split: if_splits)
  have s: "Print_end \<in> set (main p)"
    using ok m(2) i unfolding running_ok_def ex1_suffixes by (auto simp: ex1_calls)
  have moves: "running_ok (p\<lparr>threads := (threads p)(i \<mapsto> t'), out := out p @ new\<rparr>)" (is "running_ok ?p")
    if t': "(code t', val t') \<in> {(drop 1 thread_funtion, None), ([], Some None)}"
      and new: "new = (if code t = thread_funtion then [Id i] else [])" for t' new
  proof -
    have other: "id_ok k ?p \<longleftrightarrow> id_ok k p" "id_lines k ?p = id_lines k p" if "k \<noteq> i" for k
      by (rule id_frame; use that in simp)+
    have own: "id_ok i ?p" "id_lines i ?p = [Id i]" "id_lines i p @ new = [Id i]"
      using t' new m(1,2) t by (auto simp: id_defs thread_actions)
    define j where "j = 3 - i"
    then have j: "j \<noteq> i" "i = 1 \<and> j = 2 \<or> i = 2 \<and> j = 1" using i by auto
    have "mset (out p) = mset (id_lines i p) + mset (id_lines j p)" using ok s j(2) by (auto simp: running_ok_def)
    then have "mset (out p @ new) = mset (id_lines i p @ new) + mset (id_lines j p)" by simp
    also have "\<dots> = mset (id_lines i ?p) + mset (id_lines j ?p)" using own(2,3) other(2) [OF j(1)] by simp
    finally have "mset (out p @ new) = mset (id_lines 1 ?p @ id_lines 2 ?p)" using j(2) by auto
    then show ?thesis using ok own(1) other(1) i s by (auto simp: running_ok_def)
  qed
  from m(3) consider "code t = thread_funtion" "val t = None" | "code t = drop 1 thread_funtion" "val t = None"
    using step t run by (auto simp: thread_step_def)
  then show ?thesis
  proof cases
    case 1
    then have "p' = p\<lparr>threads := (threads p)(i \<mapsto> t\<lparr>code := [Exit_null]\<rparr>), out := out p @ [Id i]\<rparr>"
      using step t run by (simp add: thread_step_def thread_actions)
    then show ?thesis using moves [of "t\<lparr>code := [Exit_null]\<rparr>"] 1 run by (simp add: ex1_inv_def thread_actions)
  next
    case 2
    then have "p' = p\<lparr>threads := (threads p)(i \<mapsto> t\<lparr>code := [], val := Some None\<rparr>)\<rparr>"
      using step t run by (simp add: thread_step_def thread_actions)
    moreover have "p\<lparr>threads := x, out := out p\<rparr> = p\<lparr>threads := x\<rparr>" for x by (cases p) simp
    ultimately show ?thesis using moves [of "t\<lparr>code := [], val := Some None\<rparr>" "[]"] 2 run
      by (simp add: ex1_inv_def thread_actions)
  qed
qed

lemma main_step_create_id:
  "main p = create_id i # cs \<Longrightarrow> status p = Running \<Longrightarrow> main_step ok p =
     Some (if ok then p\<lparr>main := cs, threads := (threads p)(i \<mapsto> \<lparr>code = thread_funtion, arg = None, res = None, val = None\<rparr>)\<rparr>
       else p\<lparr>main := [], out := out p @ [Create_failed], status := Ended 1\<rparr>)"
  by (simp add: main_step_def create_id_def)

lemma main_step_join:
  "main p = Join i # cs \<Longrightarrow> status p = Running \<Longrightarrow> threads p i = Some t \<Longrightarrow> main_step ok p =
     map_option (\<lambda>v. p\<lparr>main := cs, threads := (threads p)(i := None), rets := (rets p)(i \<mapsto> v)\<rparr>) (val t)"
  by (simp add: main_step_def)

text \<open>Joining a thread: it has ended, and has printed its line.\<close>

lemma join_id:
  assumes "main p = Join i # cs" "status p = Running" "id_ok i p" "create_id i \<notin> set cs" "Join i \<notin> set cs"
    and "main_step ok p = Some p'"
  shows "p' = p\<lparr>main := cs, threads := (threads p)(i := None), rets := (rets p)(i \<mapsto> None)\<rparr>"
    "id_ok i p'" "id_lines i p' = id_lines i p"
proof -
  obtain t where t: "threads p i = Some t" "(code t, val t) \<in> {(thread_funtion, None), (drop 1 thread_funtion, None), ([], Some None)}"
    using assms(1,3,4) by (auto simp: id_ok_def)
  then have "val t = Some None" "code t = []" and p': "p' = p\<lparr>main := cs, threads := (threads p)(i := None), rets := (rets p)(i \<mapsto> None)\<rparr>"
    using main_step_join [OF assms(1,2) t(1), of ok] assms(6) by auto
  then show "p' = p\<lparr>main := cs, threads := (threads p)(i := None), rets := (rets p)(i \<mapsto> None)\<rparr>"
    "id_ok i p'" "id_lines i p' = id_lines i p"
    using assms(1,4,5) t(1) thread_actions(1) by (simp_all add: id_defs)
qed

text \<open>The steps of \<open>main\<close>, call by call.\<close>

lemma running_parts:
  assumes "running_ok p"
  shows "id_ok 1 p" "id_ok 2 p" "\<forall>k. k \<noteq> 1 \<and> k \<noteq> 2 \<longrightarrow> threads p k = None"
    "\<exists>ws. out p = ws @ (if Print_end \<in> set (main p) then [] else [All_done]) \<and> mset ws = mset (id_lines 1 p @ id_lines 2 p)"
  using assms unfolding running_ok_def by blast+

lemma ex1_create_first:
  assumes r: "running_ok p" and run: "status p = Running" and main: "main p = ex1_main" and step: "main_step ok p = Some p'"
  shows "ex1_inv p'"
proof -
  have m: "main p = create_id 1 # drop 1 ex1_main" using main by (simp add: ex1_calls)
  then have f: "threads p 1 = None" "threads p 2 = None" "out p = []"
    using running_parts [OF r] by (simp_all add: id_defs ex1_calls)
  show ?thesis
  proof (cases ok)
    case True
    then have "p' = p\<lparr>main := drop 1 ex1_main, threads := (threads p)(1 \<mapsto> \<lparr>code = thread_funtion, arg = None, res = None, val = None\<rparr>)\<rparr>"
      using step main_step_create_id [OF m run, of ok] by simp
    then show ?thesis using run f running_parts(3) [OF r] suffix_drop [of 1 ex1_main]
      by (simp add: ex1_inv_def running_ok_def id_defs) (simp add: ex1_calls)
  next
    case False
    then show ?thesis using step main_step_create_id [OF m run, of ok] f by (simp add: ex1_inv_def)
  qed
qed

lemma ex1_create_second:
  assumes r: "running_ok p" and run: "status p = Running" and main: "main p = drop 1 ex1_main" and step: "main_step ok p = Some p'"
  shows "ex1_inv p'"
proof -
  have m: "main p = create_id 2 # drop 2 ex1_main" using main by (simp add: ex1_calls)
  then have f: "id_ok 1 p" "threads p 2 = None" "mset (out p) = mset (id_lines 1 p)"
    using running_parts [OF r] by (simp_all add: id_defs ex1_calls)
  show ?thesis
  proof (cases ok)
    case True
    then have p': "p' = p\<lparr>main := drop 2 ex1_main, threads := (threads p)(2 \<mapsto> \<lparr>code = thread_funtion, arg = None, res = None, val = None\<rparr>)\<rparr>"
      using step main_step_create_id [OF m run, of ok] by simp
    moreover have "id_ok 1 p'" "id_lines 1 p' = id_lines 1 p" "id_ok 2 p'" "id_lines 2 p' = []"
      using f m p' by (simp_all add: id_defs) (simp_all add: ex1_calls)
    ultimately show ?thesis using run f running_parts(3) [OF r] suffix_drop [of 2 ex1_main]
      by (simp add: ex1_inv_def running_ok_def) (simp add: ex1_calls)
  next
    case False
    have "out p = [] \<or> out p = [Id 1]" using f(3) by (simp add: id_lines_def split: if_splits)
    then show ?thesis using False step main_step_create_id [OF m run, of ok] by (auto simp: ex1_inv_def)
  qed
qed

lemma ex1_join:
  fixes i j :: nat
  assumes r: "running_ok p" and run: "status p = Running" and step: "main_step ok p = Some p'"
    and main: "i = 1 \<and> j = 2 \<and> main p = drop 2 ex1_main \<or> i = 2 \<and> j = 1 \<and> main p = drop 3 ex1_main"
  shows "ex1_inv p'"
proof -
  have m: "main p = Join i # drop (i + 2) ex1_main" using main by (auto simp: ex1_calls)
  have i: "id_ok i p" "id_ok j p" using running_parts(1,2) [OF r] main by auto
  have ids: "create_id i \<notin> set (drop (i + 2) ex1_main)" "Join i \<notin> set (drop (i + 2) ex1_main)"
    using main by (auto simp: ex1_calls)
  note p' = join_id [OF m run i(1) ids step]
  have "id_ok j p'" "id_lines j p' = id_lines j p"
    using id_frame [of j p' p] p'(1) i(2) main by (auto simp: ex1_calls)
  then have "id_ok 1 p'" "id_ok 2 p'" "id_lines 1 p' = id_lines 1 p" "id_lines 2 p' = id_lines 2 p"
    using p'(2,3) main by auto
  moreover have "drop (i + 2) ex1_main \<noteq> []" "Print_end \<in> set (drop (i + 2) ex1_main)" "Print_end \<in> set (main p)"
    using main by (auto simp: ex1_calls)
  moreover have "\<forall>k. k \<noteq> 1 \<and> k \<noteq> 2 \<longrightarrow> threads p' k = None" using running_parts(3) [OF r] p'(1) by simp
  ultimately show ?thesis using run running_parts(4) [OF r] p'(1) suffix_drop [of "i + 2" ex1_main]
    by (simp add: ex1_inv_def running_ok_def)
qed

lemma ex1_main_inv:
  assumes inv: "ex1_inv p" and step: "main_step ok p = Some p'"
  shows "ex1_inv p'"
proof -
  have run: "status p = Running" using step by (simp add: main_step_def split: if_splits)
  then have r: "running_ok p" using inv by (simp add: ex1_inv_def)
  note s = running_parts [OF r]
  have "suffix (main p) ex1_main" "main p \<noteq> []" using r by (simp_all add: running_ok_def)
  then consider "main p = ex1_main" | "main p = drop 1 ex1_main" | "main p = drop 2 ex1_main"
    | "main p = drop 3 ex1_main" | "main p = drop 4 ex1_main" | "main p = [Return_0]"
    unfolding ex1_suffixes by auto
  then show ?thesis
  proof cases
    case 5
    then have m: "main p = [Print_end, Return_0]" by (simp add: ex1_calls)
    then have p': "p' = p\<lparr>main := [Return_0], out := out p @ [All_done]\<rparr>" using step run by (simp add: main_step_def)
    then have "id_ok 1 p'" "id_ok 2 p'" "id_lines 1 p' = id_lines 1 p" "id_lines 2 p' = id_lines 2 p"
      using s(1,2) m by (simp_all add: id_defs)
    then show ?thesis using run s(3,4) suffix_drop [of 5 ex1_main] p' m
      by (simp add: ex1_inv_def running_ok_def) (simp add: ex1_calls)
  next
    case 6
    then have "p' = p\<lparr>main := [], status := Ended 0\<rparr>" using step run by (simp add: main_step_def)
    moreover have "threads p 1 = None" "threads p 2 = None" using s(1,2) 6 by (simp_all add: id_ok_def)
    ultimately show ?thesis using s(4) 6 by (auto simp: ex1_inv_def id_lines_def)
  qed (use ex1_create_first [OF r run _ step] ex1_create_second [OF r run _ step] ex1_join [OF r run step] in blast)+
qed

lemma ex1_inv_step: "ex1_inv p \<Longrightarrow> ex1_step p p' \<Longrightarrow> ex1_inv p'"
  by (erule ex1_stepE) (auto simp: process_step_def intro: ex1_thread_inv ex1_main_inv split: choice.splits)

interpretation ex1_sys: invariant_system "\<lambda>p. p = process_start ex1_main" ex1_step ex1_inv
  by unfold_locales (simp add: ex1_inv_start, erule (1) ex1_inv_step)

abbreviation ex1_reach :: "process \<Rightarrow> bool" where
  "ex1_reach \<equiv> reach (\<lambda>p. p = process_start ex1_main) ex1_step"

lemma ex1_progress:
  assumes inv: "ex1_inv p" and run: "status p = Running"
  shows "\<exists>c p'. c \<noteq> Main False \<and> process_step c p = Some p'"
proof (cases "main_step True p")
  case (Some p')
  then have "process_step (Main True) p = Some p'" by (simp add: process_step_def)
  then show ?thesis by blast
next
  case None
  have r: "running_ok p" using inv run by (simp add: ex1_inv_def)
  then obtain c cs where m: "main p = c # cs" "suffix (c # cs) ex1_main" by (cases "main p") (auto simp: running_ok_def)
  have "c \<in> {create_id 1, create_id 2, Join 1, Join 2, Print_end, Return_0}"
    using m(2) unfolding ex1_suffixes by (auto simp: ex1_calls)
  moreover have "c \<noteq> create_id i" for i using main_step_create_id [of p i cs True] m(1) None run by auto
  moreover have "c \<noteq> Print_end" "c \<noteq> Return_0" using m(1) None run by (auto simp: main_step_def)
  ultimately have "\<exists>i. c = Join i" by auto
  then obtain i where i: "c = Join i" ..
  have "i = 1 \<or> i = 2" "create_id i \<notin> set (main p)" using m i unfolding ex1_suffixes by (auto simp: ex1_calls)
  then obtain t where t: "threads p i = Some t"
      "(code t, val t) \<in> {(thread_funtion, None), (drop 1 thread_funtion, None), ([], Some None)}"
    using r m(1) i by (auto simp: running_ok_def id_ok_def)
  have "val t = None" using None main_step_join [OF m(1) [unfolded i] run t(1), of True] by simp
  then have "thread_step None i p \<noteq> None" using t run by (auto simp: thread_step_def thread_actions)
  then obtain p' where "process_step (Thread i None) p = Some p'" by (auto simp: process_step_def)
  then show ?thesis by blast
qed

section \<open>Property\<close>

text \<open>
  \<open>ex1_creat_thread.c\<close>, whichever \<open>pthread_create\<close> fails and however the threads are scheduled: nothing
  undefined happens and the program cannot get stuck; if it ends with 0, both threads have printed their
  identifier and the last line of \<open>main\<close> comes after both; if it ends otherwise, its status is 1, a thread
  could not be created, and the message is the last line, before which the first thread may have printed.
\<close>

theorem create_outcome:
  assumes "ex1_reach p"
  shows "status p \<noteq> Undefined \<and>
    (status p = Running \<longrightarrow> (\<exists>c p'. c \<noteq> Main False \<and> process_step c p = Some p')) \<and>
    (status p = Ended 0 \<longrightarrow> (\<exists>ws. out p = ws @ [All_done] \<and> mset ws = {#Id 1, Id 2#})) \<and>
    (\<forall>n. status p = Ended n \<and> n \<noteq> 0 \<longrightarrow> n = 1 \<and> (out p = [Create_failed] \<or> out p = [Id 1, Create_failed]))"
proof -
  have inv: "ex1_inv p" by (rule ex1_sys.reach_inv [OF assms])
  with ex1_progress [OF inv] show ?thesis by (auto simp: ex1_inv_def split: status.splits)
qed

lemma ex1_run_reach: "ex1_reach p \<Longrightarrow> process_run cs p = Some p' \<Longrightarrow> ex1_reach p'"
proof (induction cs arbitrary: p)
  case (Cons c cs)
  then obtain p1 where p1: "process_step c p = Some p1" "process_run cs p1 = Some p'"
    by (auto simp: bind_eq_Some_conv)
  show ?case by (rule Cons.IH [OF reach_step [OF Cons.prems(1) chosen [OF p1(1)]] p1(2)])
qed simp

definition ex1_run :: "choice list" where
  "ex1_run = [Main True, Main True, Thread 2 None, Thread 1 None, Thread 1 None, Thread 2 None] @ replicate 4 (Main True)"

lemma create_outcome_witness:
  "\<exists>p. process_run ex1_run (process_start ex1_main) = Some p \<and> (\<exists>ws. out p = ws @ [All_done] \<and> mset ws = {#Id 1, Id 2#})"
proof -
  have "case process_run ex1_run (process_start ex1_main) of None \<Rightarrow> False | Some p \<Rightarrow> status p = Ended 0"
    by code_simp
  then obtain p where p: "process_run ex1_run (process_start ex1_main) = Some p" "status p = Ended 0"
    by (auto split: option.splits)
  have "ex1_reach p" by (rule ex1_run_reach [OF reach_start p(1)]) simp
  from create_outcome [OF this] p show ?thesis by blast
qed

end
