(* ===== verification/Sockets.thy ===== *)
theory Sockets
  imports Inet
begin

text \<open>
  The system calls the echo programs of \<open>S6_IPC_Socket/ex1_4sockets\<close> make, on a state of open descriptors
  and socket files, and the functions that set a socket up (\<open>create_server_socket\<close>, \<open>init_client_socket\<close>
  and so on, one group per program). Which calls fail is the parameter \<open>kernel\<close>; \<open>exit (n)\<close> is the
  value \<open>Inl n\<close>, after which nothing more happens.
\<close>

section \<open>The system\<close>

datatype family = AF_INET | AF_UNIX
datatype socktype = SOCK_STREAM | SOCK_DGRAM
datatype sockname = Name_in sockaddr_in | Name_un string

record sock =
  sk_family :: family
  sk_type :: socktype
  sk_name :: "sockname option"
  sk_backlog :: "nat option"
  sk_peer :: "sockname option"

text \<open>\<open>wire\<close>: what has been written on which descriptor, and for datagrams the name it was sent to.\<close>

record os =
  fds :: "(nat \<times> sock) list"
  files :: "string list"
  out :: "string list"
  err :: "string list"
  wire :: "(nat \<times> sockname option \<times> string) list"

record kernel =
  k_socket :: bool
  k_bind :: bool
  k_listen :: bool
  k_connect :: bool
  k_accept :: bool

type_synonym 'a run = "os \<Rightarrow> (nat + 'a) \<times> os"

definition ret :: "'a \<Rightarrow> 'a run" where
  "ret x s = (Inr x, s)"

definition exit_with :: "nat \<Rightarrow> 'a run" where
  "exit_with n s = (Inl n, s)"

definition seq :: "'a run \<Rightarrow> ('a \<Rightarrow> 'b run) \<Rightarrow> 'b run" where
  "seq f g s = (case f s of (Inl n, t) \<Rightarrow> (Inl n, t) | (Inr x, t) \<Rightarrow> g x t)"

text \<open>A part that cannot call \<open>exit\<close>.\<close>

definition act :: "(os \<Rightarrow> os) \<Rightarrow> unit run" where
  "act f s = (Inr (), f s)"

definition print :: "string \<Rightarrow> os \<Rightarrow> os" where
  "print text s = s\<lparr>out := out s @ [text]\<rparr>"

definition perror :: "string \<Rightarrow> os \<Rightarrow> os" where
  "perror msg s = s\<lparr>err := err s @ [msg]\<rparr>"

definition EXIT_FAILURE :: nat where "EXIT_FAILURE = 1"

text \<open>The lowest descriptor number that is not open.\<close>

definition free_fd :: "os \<Rightarrow> nat" where
  "free_fd s = hd (filter (\<lambda>n. n \<notin> fst ` set (fds s)) [0..<Suc (length (fds s))])"

definition sys_socket :: "kernel \<Rightarrow> family \<Rightarrow> socktype \<Rightarrow> nat option run" where
  "sys_socket k f t s =
     (if k_socket k
      then (Inr (Some (free_fd s)), s\<lparr>fds := (free_fd s, \<lparr>sk_family = f, sk_type = t, sk_name = None,
              sk_backlog = None, sk_peer = None\<rparr>) # fds s\<rparr>)
      else (Inr None, s))"

definition sys_close :: "nat \<Rightarrow> os \<Rightarrow> os" where
  "sys_close fd s = s\<lparr>fds := filter (\<lambda>e. fst e \<noteq> fd) (fds s)\<rparr>"

definition update_sock :: "nat \<Rightarrow> (sock \<Rightarrow> sock) \<Rightarrow> os \<Rightarrow> os" where
  "update_sock fd f s = s\<lparr>fds := map (\<lambda>(n, k). (n, if n = fd then f k else k)) (fds s)\<rparr>"

text \<open>Binding a path creates the socket file, and fails if a file of that name is there.\<close>

definition sys_bind :: "kernel \<Rightarrow> nat \<Rightarrow> sockname \<Rightarrow> bool run" where
  "sys_bind k fd name s =
     (let free = (case name of Name_un p \<Rightarrow> p \<notin> set (files s) | Name_in _ \<Rightarrow> True);
          t = update_sock fd (\<lambda>x. x\<lparr>sk_name := Some name\<rparr>) s in
      if k_bind k \<and> free
      then (Inr True, case name of Name_un p \<Rightarrow> t\<lparr>files := p # files s\<rparr> | Name_in _ \<Rightarrow> t)
      else (Inr False, s))"

definition sys_listen :: "kernel \<Rightarrow> nat \<Rightarrow> nat \<Rightarrow> bool run" where
  "sys_listen k fd n s =
     (if k_listen k then (Inr True, update_sock fd (\<lambda>x. x\<lparr>sk_backlog := Some n\<rparr>) s) else (Inr False, s))"

definition sys_connect :: "kernel \<Rightarrow> nat \<Rightarrow> sockname \<Rightarrow> bool run" where
  "sys_connect k fd name s =
     (if k_connect k then (Inr True, update_sock fd (\<lambda>x. x\<lparr>sk_peer := Some name\<rparr>) s) else (Inr False, s))"

text \<open>An accepted connection has the family and the name of the listening socket.\<close>

definition sys_accept :: "kernel \<Rightarrow> nat \<Rightarrow> nat option run" where
  "sys_accept k fd s =
     (case map_of (fds s) fd of
        Some l \<Rightarrow> if k_accept k
          then (Inr (Some (free_fd s)), s\<lparr>fds := (free_fd s, l\<lparr>sk_backlog := None\<rparr>) # fds s\<rparr>)
          else (Inr None, s)
      | None \<Rightarrow> (Inr None, s))"

definition unlink :: "string \<Rightarrow> os \<Rightarrow> os" where
  "unlink path s = s\<lparr>files := filter (\<lambda>p. p \<noteq> path) (files s)\<rparr>"

text \<open>\<open>strncpy (addr.sun_path, path, sizeof (addr.sun_path) - 1)\<close> after \<open>memset\<close>; \<open>sun_path\<close> has 108 bytes.\<close>

definition sun_path :: "string \<Rightarrow> sockname" where
  "sun_path path = Name_un (take 107 path)"

text \<open>The error branches: \<open>perror\<close>, for some also \<open>close\<close>, and \<open>exit (EXIT_FAILURE)\<close>.\<close>

definition die :: "string \<Rightarrow> 'a run" where
  "die msg = seq (act (perror msg)) (\<lambda>_. exit_with EXIT_FAILURE)"

definition close_die :: "nat \<Rightarrow> string \<Rightarrow> 'a run" where
  "close_die fd msg = seq (act (perror msg)) (\<lambda>_. seq (act (sys_close fd)) (\<lambda>_. exit_with EXIT_FAILURE))"

section \<open>Setting up the sockets\<close>

definition PORT :: int where "PORT = 6789"

definition tcp_create_server_socket :: "kernel \<Rightarrow> string \<Rightarrow> int \<Rightarrow> nat run" where
  "tcp_create_server_socket k ip port =
     seq (sys_socket k AF_INET SOCK_STREAM) (\<lambda>r. case r of
       None \<Rightarrow> die ''socket''
     | Some fd \<Rightarrow> (case inet_pton ip of
         None \<Rightarrow> close_die fd ''inet_pton''
       | Some a \<Rightarrow>
           seq (sys_bind k fd (Name_in \<lparr>sin_port = htons (word_of_int port), sin_addr = a\<rparr>)) (\<lambda>ok.
           if \<not> ok then close_die fd ''bind'' else
           seq (sys_listen k fd 5) (\<lambda>ok.
           if \<not> ok then close_die fd ''listen'' else ret fd))))"

definition tcp_connect_to_server :: "kernel \<Rightarrow> string \<Rightarrow> int \<Rightarrow> nat run" where
  "tcp_connect_to_server k ip port =
     seq (sys_socket k AF_INET SOCK_STREAM) (\<lambda>r. case r of
       None \<Rightarrow> die ''socket''
     | Some fd \<Rightarrow> (case inet_pton ip of
         None \<Rightarrow> close_die fd ''inet_pton''
       | Some a \<Rightarrow>
           seq (sys_connect k fd (Name_in \<lparr>sin_port = htons (word_of_int port), sin_addr = a\<rparr>)) (\<lambda>ok.
           if \<not> ok then close_die fd ''connect'' else ret fd)))"

definition udp_create_server_socket :: "kernel \<Rightarrow> string \<Rightarrow> int \<Rightarrow> nat run" where
  "udp_create_server_socket k ip port =
     seq (sys_socket k AF_INET SOCK_DGRAM) (\<lambda>r. case r of
       None \<Rightarrow> die ''socket''
     | Some fd \<Rightarrow> (case inet_pton ip of
         None \<Rightarrow> close_die fd ''inet_pton''
       | Some a \<Rightarrow>
           seq (sys_bind k fd (Name_in \<lparr>sin_port = htons (word_of_int port), sin_addr = a\<rparr>)) (\<lambda>ok.
           if \<not> ok then close_die fd ''bind'' else ret fd)))"

definition udp_create_client_socket :: "kernel \<Rightarrow> nat run" where
  "udp_create_client_socket k =
     seq (sys_socket k AF_INET SOCK_DGRAM) (\<lambda>r. case r of None \<Rightarrow> die ''socket'' | Some fd \<Rightarrow> ret fd)"

definition udp_setup_server_address :: "string \<Rightarrow> int \<Rightarrow> sockname run" where
  "udp_setup_server_address ip port =
     (case inet_pton ip of
        None \<Rightarrow> die ''inet_pton''
      | Some a \<Rightarrow> ret (Name_in \<lparr>sin_port = htons (word_of_int port), sin_addr = a\<rparr>))"

definition un_stream_init_server_socket :: "kernel \<Rightarrow> string \<Rightarrow> nat \<Rightarrow> nat run" where
  "un_stream_init_server_socket k path backlog =
     seq (sys_socket k AF_UNIX SOCK_STREAM) (\<lambda>r. case r of
       None \<Rightarrow> die ''socket''
     | Some fd \<Rightarrow>
         seq (act (unlink path)) (\<lambda>_.
         seq (sys_bind k fd (sun_path path)) (\<lambda>ok.
         if \<not> ok then close_die fd ''bind'' else
         seq (sys_listen k fd backlog) (\<lambda>ok.
         if \<not> ok then close_die fd ''listen'' else ret fd))))"

definition un_stream_init_client_socket :: "kernel \<Rightarrow> string \<Rightarrow> nat run" where
  "un_stream_init_client_socket k path =
     seq (sys_socket k AF_UNIX SOCK_STREAM) (\<lambda>r. case r of
       None \<Rightarrow> die ''socket''
     | Some fd \<Rightarrow>
         seq (sys_connect k fd (sun_path path)) (\<lambda>ok.
         if \<not> ok then close_die fd ''connect'' else ret fd))"

definition un_dgram_init_server_socket :: "kernel \<Rightarrow> string \<Rightarrow> nat run" where
  "un_dgram_init_server_socket k server_path =
     seq (sys_socket k AF_UNIX SOCK_DGRAM) (\<lambda>r. case r of
       None \<Rightarrow> die ''socket''
     | Some fd \<Rightarrow>
         seq (act (unlink server_path)) (\<lambda>_.
         seq (sys_bind k fd (sun_path server_path)) (\<lambda>ok.
         if \<not> ok then close_die fd ''bind'' else ret fd)))"

text \<open>The datagram client binds a path of its own, with the same code.\<close>

definition un_dgram_init_client_socket :: "kernel \<Rightarrow> string \<Rightarrow> nat run" where
  "un_dgram_init_client_socket k client_path =
     seq (sys_socket k AF_UNIX SOCK_DGRAM) (\<lambda>r. case r of
       None \<Rightarrow> die ''socket''
     | Some fd \<Rightarrow>
         seq (act (unlink client_path)) (\<lambda>_.
         seq (sys_bind k fd (sun_path client_path)) (\<lambda>ok.
         if \<not> ok then close_die fd ''bind'' else ret fd)))"

section \<open>What a set-up function promises\<close>

abbreviation open_fds :: "os \<Rightarrow> nat set" where
  "open_fds s \<equiv> fst ` set (fds s)"

lemma free_fd_fresh: "free_fd s \<notin> open_fds s"
proof -
  let ?ns = "filter (\<lambda>n. n \<notin> open_fds s) [0..<Suc (length (fds s))]"
  have "?ns \<noteq> []"
  proof
    assume "?ns = []"
    then have "set [0..<Suc (length (fds s))] \<subseteq> open_fds s" unfolding filter_empty_conv by blast
    then have "card (set [0..<Suc (length (fds s))]) \<le> card (open_fds s)" by (rule card_mono [rotated]) simp
    also have "\<dots> \<le> length (fds s)" using card_image_le [of "set (fds s)" fst] card_length [of "fds s"] by simp
    finally show False by simp
  qed
  then have "hd ?ns \<in> set ?ns" by (rule hd_in_set)
  then show ?thesis unfolding free_fd_def set_filter by blast
qed

text \<open>
  Either the program exits with status 1 after one \<open>perror\<close>, with the descriptors that were open before,
  or it has one more, a socket \<open>sk\<close>.
\<close>

definition clean_setup :: "nat run \<Rightarrow> sock \<Rightarrow> bool" where
  "clean_setup f sk \<longleftrightarrow> (\<forall>s. case f s of
       (Inl n, t) \<Rightarrow> n = EXIT_FAILURE \<and> fds t = fds s \<and> (\<exists>msg. err t = err s @ [msg])
     | (Inr fd, t) \<Rightarrow> fd \<notin> open_fds s \<and> fds t = (fd, sk) # fds s \<and> err t = err s)"

lemma fresh_entry:
  "fd \<notin> open_fds s \<Longrightarrow> map (\<lambda>(n, k). (n, if n = fd then f k else k)) (fds s) = fds s"
  "fd \<notin> open_fds s \<Longrightarrow> filter (\<lambda>e. fst e \<noteq> fd) (fds s) = fds s"
  by (auto intro!: map_idI simp: filter_id_conv image_iff split: prod.splits)

lemmas run_defs = seq_def act_def ret_def exit_with_def die_def close_die_def perror_def print_def
  sys_socket_def sys_bind_def sys_listen_def sys_connect_def sys_close_def update_sock_def unlink_def

text \<open>The interface: what the programs rely on when they use the descriptor a set-up function returns.\<close>

locale socket_setup =
  fixes mk_sock :: "nat run" and sk :: sock
  assumes clean: "clean_setup mk_sock sk"
begin

lemma mk_ok:
  "mk_sock s = (Inr fd, t) \<Longrightarrow> fd \<notin> open_fds s \<and> fds t = (fd, sk) # fds s \<and> err t = err s"
proof -
  assume "mk_sock s = (Inr fd, t)"
  with spec [OF clean [unfolded clean_setup_def], of s] show ?thesis by (simp only: prod.case sum.case) simp
qed

lemma mk_exit:
  "mk_sock s = (Inl n, t) \<Longrightarrow> n = EXIT_FAILURE \<and> fds t = fds s \<and> (\<exists>msg. err t = err s @ [msg])"
proof -
  assume "mk_sock s = (Inl n, t)"
  with spec [OF clean [unfolded clean_setup_def], of s] show ?thesis by (simp only: prod.case sum.case)
qed

end

section \<open>The eight set-up functions\<close>

lemma clean_setupI:
  assumes "\<And>s n t. f s = (Inl n, t) \<Longrightarrow> n = EXIT_FAILURE \<and> fds t = fds s \<and> (\<exists>msg. err t = err s @ [msg])"
    and "\<And>s fd t. f s = (Inr fd, t) \<Longrightarrow> fd \<notin> open_fds s \<and> fds t = (fd, sk) # fds s \<and> err t = err s"
  shows "clean_setup f sk"
  unfolding clean_setup_def using assms by (auto split: prod.split sum.split)

abbreviation inet_sock :: "socktype \<Rightarrow> sockname option \<Rightarrow> nat option \<Rightarrow> sockname option \<Rightarrow> sock" where
  "inet_sock ty nm bl pr \<equiv> \<lparr>sk_family = AF_INET, sk_type = ty, sk_name = nm, sk_backlog = bl, sk_peer = pr\<rparr>"

abbreviation unix_sock :: "socktype \<Rightarrow> sockname option \<Rightarrow> nat option \<Rightarrow> sockname option \<Rightarrow> sock" where
  "unix_sock ty nm bl pr \<equiv> \<lparr>sk_family = AF_UNIX, sk_type = ty, sk_name = nm, sk_backlog = bl, sk_peer = pr\<rparr>"

definition inet_name :: "string \<Rightarrow> int \<Rightarrow> sockname" where
  "inet_name ip port = Name_in \<lparr>sin_port = htons (word_of_int port), sin_addr = the (inet_pton ip)\<rparr>"

lemma free_fd_notin: "(free_fd s, b) \<notin> set (fds s)"
  using free_fd_fresh [of s] by (auto simp: rev_image_eqI)

lemmas fresh_simps = free_fd_fresh free_fd_notin fresh_entry [OF free_fd_fresh]

interpretation tcp_server: socket_setup "tcp_create_server_socket k ip port"
    "inet_sock SOCK_STREAM (Some (inet_name ip port)) (Some 5) None"
  by unfold_locales (rule clean_setupI;
    auto simp: tcp_create_server_socket_def run_defs Let_def fresh_simps inet_name_def split: if_splits option.splits)


interpretation tcp_client: socket_setup "tcp_connect_to_server k ip port"
    "inet_sock SOCK_STREAM None None (Some (inet_name ip port))"
  by unfold_locales (rule clean_setupI;
    auto simp: tcp_connect_to_server_def run_defs Let_def fresh_simps inet_name_def split: if_splits option.splits)

interpretation udp_server: socket_setup "udp_create_server_socket k ip port"
    "inet_sock SOCK_DGRAM (Some (inet_name ip port)) None None"
  by unfold_locales (rule clean_setupI;
    auto simp: udp_create_server_socket_def run_defs Let_def fresh_simps inet_name_def split: if_splits option.splits)

interpretation udp_client: socket_setup "udp_create_client_socket k" "inet_sock SOCK_DGRAM None None None"
  by unfold_locales (rule clean_setupI;
    auto simp: udp_create_client_socket_def run_defs fresh_simps split: if_splits option.splits)

interpretation un_stream_server: socket_setup "un_stream_init_server_socket k path backlog"
    "unix_sock SOCK_STREAM (Some (sun_path path)) (Some backlog) None"
  by unfold_locales (rule clean_setupI;
    auto simp: un_stream_init_server_socket_def run_defs Let_def fresh_simps sun_path_def split: if_splits option.splits)

interpretation un_stream_client: socket_setup "un_stream_init_client_socket k path"
    "unix_sock SOCK_STREAM None None (Some (sun_path path))"
  by unfold_locales (rule clean_setupI;
    auto simp: un_stream_init_client_socket_def run_defs fresh_simps split: if_splits option.splits)

interpretation un_dgram_server: socket_setup "un_dgram_init_server_socket k path"
    "unix_sock SOCK_DGRAM (Some (sun_path path)) None None"
  by unfold_locales (rule clean_setupI;
    auto simp: un_dgram_init_server_socket_def run_defs Let_def fresh_simps sun_path_def split: if_splits option.splits)

interpretation un_dgram_client: socket_setup "un_dgram_init_client_socket k path"
    "unix_sock SOCK_DGRAM (Some (sun_path path)) None None"
  by unfold_locales (rule clean_setupI;
    auto simp: un_dgram_init_client_socket_def run_defs Let_def fresh_simps sun_path_def split: if_splits option.splits)

end
