(* ===== verification/Echo.thy ===== *)
theory Echo
  imports Sockets
begin

text \<open>
  The eight echo programs of \<open>S6_IPC_Socket/ex1_4sockets\<close> after their sockets are set up: a server and a
  client for each of TCP, UDP, Unix stream and Unix datagram sockets. What the peer sends is a script:
  for a stream the pieces in which the bytes arrive, the end of the script being the end of the
  connection; for datagrams one entry per call of \<open>recvfrom\<close>, the end of the script being a call that
  does not return. \<open>write\<close> and \<open>sendto\<close> send all they are given.
\<close>

section \<open>Reading and writing\<close>

definition ECHO_BUFFER :: nat where "ECHO_BUFFER = 1024"
definition DGRAM_BUFFER :: nat where "DGRAM_BUFFER = 256"

definition sys_write :: "nat \<Rightarrow> string \<Rightarrow> os \<Rightarrow> os" where
  "sys_write fd msg s = s\<lparr>wire := wire s @ [(fd, None, msg)]\<rparr>"

definition sys_sendto :: "nat \<Rightarrow> sockname \<Rightarrow> string \<Rightarrow> os \<Rightarrow> os" where
  "sys_sendto fd name msg s = s\<lparr>wire := wire s @ [(fd, Some name, msg)]\<rparr>"

text \<open>\<open>read (fd, buffer, n)\<close>: at most \<open>n\<close> bytes of the piece that has arrived; the empty string is the return value 0.\<close>

definition sys_read :: "nat \<Rightarrow> string list \<Rightarrow> string \<times> string list" where
  "sys_read n chunks = (case chunks of
      [] \<Rightarrow> ([], [])
    | c # cs \<Rightarrow> (take n c, if length c \<le> n then cs else drop n c # cs))"

definition backlog_size :: "string list \<Rightarrow> nat" where
  "backlog_size chunks = sum_list (map length chunks) + length chunks"

lemma sys_read_shrinks:
  "sys_read n chunks = (d, cs) \<Longrightarrow> d \<noteq> [] \<Longrightarrow> backlog_size cs < backlog_size chunks"
  by (cases chunks) (auto simp: sys_read_def backlog_size_def split: if_splits)

text \<open>\<open>recvfrom (fd, buffer, n, ...)\<close>: a datagram of which at most \<open>n\<close> bytes are kept; the rest is lost.\<close>

definition recv_bytes :: "nat \<Rightarrow> string \<Rightarrow> string" where
  "recv_bytes n d = take n d"

section \<open>TCP\<close>

definition tcp_response :: "string \<Rightarrow> string" where
  "tcp_response buffer = snprintf (ECHO_BUFFER + 17) (''Server receive: '' @ buffer)"

function tcp_handle_client :: "nat \<Rightarrow> string list \<Rightarrow> os \<Rightarrow> os" where
  "tcp_handle_client fd chunks s =
     (let (d, cs) = sys_read (ECHO_BUFFER - 1) chunks in
      if d = [] then sys_close fd (print (''Client disconnected.'' @ [newline]) s)
      else (let buffer = c_str d;
                s1 = print (''Received from client: '' @ buffer @ [newline]) s in
            tcp_handle_client fd cs (sys_write fd (c_str (tcp_response buffer)) s1)))"
  by pat_completeness auto
termination
  by (relation "measure (\<lambda>(fd, chunks, s). backlog_size chunks)") (auto dest: sys_read_shrinks [OF sym])

definition tcp_accept_client :: "kernel \<Rightarrow> nat \<Rightarrow> nat option run" where
  "tcp_accept_client k server_fd =
     seq (sys_accept k server_fd) (\<lambda>r. case r of
       None \<Rightarrow> seq (act (perror ''accept'')) (\<lambda>_. ret None)
     | Some client_fd \<Rightarrow> ret (Some client_fd))"

text \<open>\<open>accept\<close> gives the address of the client, here \<open>peer\<close>.\<close>

definition tcp_server_main :: "kernel \<Rightarrow> sockaddr_in \<Rightarrow> string list \<Rightarrow> nat run" where
  "tcp_server_main k peer chunks =
     seq (tcp_create_server_socket k ''127.0.0.1'' PORT) (\<lambda>server_fd.
     seq (act (print (''Server listening on port '' @ dec (nat PORT) @ ''...'' @ [newline]))) (\<lambda>_.
     seq (tcp_accept_client k server_fd) (\<lambda>r.
     seq (act (\<lambda>s. case r of
         None \<Rightarrow> s
       | Some client_fd \<Rightarrow> tcp_handle_client client_fd chunks
           (print (''Client connected: IP = '' @ inet_ntop (sin_addr peer) @ '', Port = '' @
              dec (unat (ntohs (sin_port peer))) @ [newline]) s))) (\<lambda>_.
     seq (act (sys_close server_fd)) (\<lambda>_. ret 0)))))"

function tcp_client_loop :: "nat \<Rightarrow> string \<Rightarrow> string list \<Rightarrow> os \<Rightarrow> os" where
  "tcp_client_loop fd inp chunks s =
     (case fgets ECHO_BUFFER inp of
        None \<Rightarrow> s
      | Some (buffer, rest) \<Rightarrow>
          (let s1 = sys_write fd (c_str buffer) s;
               (d, cs) = sys_read (ECHO_BUFFER - 1) chunks in
           if d = [] then s1
           else tcp_client_loop fd rest cs (print (''From server: '' @ c_str d) s1)))"
  by pat_completeness auto
termination
  by (relation "measure (\<lambda>(fd, inp, chunks, s). length inp)")
    (auto dest: fgets_shrinks [rotated] simp: ECHO_BUFFER_def)

definition tcp_client_main :: "kernel \<Rightarrow> string \<Rightarrow> string list \<Rightarrow> nat run" where
  "tcp_client_main k inp chunks =
     seq (tcp_connect_to_server k ''127.0.0.1'' PORT) (\<lambda>sockfd.
     seq (act (\<lambda>s. sys_close sockfd (print ([newline] @ ''Disconnected.'' @ [newline])
       (tcp_client_loop sockfd inp chunks
         (print (''Connected to server. Type messages (Ctrl+D to quit):'' @ [newline]) s))))) (\<lambda>_. ret 0))"

section \<open>UDP\<close>

definition udp_response :: "string \<Rightarrow> string" where
  "udp_response buffer = snprintf (ECHO_BUFFER + 18) (''Server received: '' @ buffer)"

text \<open>An entry of the script: \<open>None\<close> is an error of \<open>recvfrom\<close>. The loop has no end of its own.\<close>

fun udp_server_loop :: "nat \<Rightarrow> (sockaddr_in \<times> string) option list \<Rightarrow> os \<Rightarrow> os" where
  "udp_server_loop fd [] s = s"
| "udp_server_loop fd (None # es) s = udp_server_loop fd es (perror ''recvfrom'' s)"
| "udp_server_loop fd (Some (client, d) # es) s =
     (let buffer = c_str (recv_bytes (ECHO_BUFFER - 1) d);
          s1 = print (''Received from client: IP = '' @ inet_ntop (sin_addr client) @ '', Port = '' @
                 dec (unat (ntohs (sin_port client))) @ [newline]) s;
          s2 = print (''Message: '' @ buffer @ [newline]) s1 in
      udp_server_loop fd es (sys_sendto fd (Name_in client) (c_str (udp_response buffer)) s2))"

text \<open>
  \<open>receive_message\<close> hands \<open>server_addr\<close> itself to \<open>recvfrom\<close>, which overwrites it with the address of the sender:
  the next line goes there.
\<close>

function udp_client_loop :: "nat \<Rightarrow> sockname \<Rightarrow> string \<Rightarrow> (sockaddr_in \<times> string) option list \<Rightarrow> os \<Rightarrow> os" where
  "udp_client_loop fd server inp es s =
     (case fgets ECHO_BUFFER inp of
        None \<Rightarrow> s
      | Some (buffer, rest) \<Rightarrow>
          (let s1 = sys_sendto fd server (c_str buffer) s in
           case es of
             [] \<Rightarrow> s1
           | None # es' \<Rightarrow> udp_client_loop fd server rest es' (perror ''recvfrom'' s1)
           | Some (sender, d) # es' \<Rightarrow>
               (let got = recv_bytes (ECHO_BUFFER - 1) d in
                udp_client_loop fd (Name_in sender) rest es'
                  (if got = [] then s1 else print (''From server: '' @ c_str got) s1))))"
  by pat_completeness auto
termination
  by (relation "measure (\<lambda>(fd, server, inp, es, s). length inp)")
    (auto dest: fgets_shrinks [rotated] simp: ECHO_BUFFER_def)

definition udp_server_main :: "kernel \<Rightarrow> (sockaddr_in \<times> string) option list \<Rightarrow> unit run" where
  "udp_server_main k es =
     seq (udp_create_server_socket k ''127.0.0.1'' PORT) (\<lambda>sockfd.
     act (\<lambda>s. udp_server_loop sockfd es
       (print (''UDP Server listening on port '' @ dec (nat PORT) @ ''...'' @ [newline]) s)))"

definition udp_client_main :: "kernel \<Rightarrow> string \<Rightarrow> (sockaddr_in \<times> string) option list \<Rightarrow> nat run" where
  "udp_client_main k inp es =
     seq (udp_create_client_socket k) (\<lambda>sockfd.
     seq (udp_setup_server_address ''127.0.0.1'' PORT) (\<lambda>server_addr.
     seq (act (\<lambda>s. sys_close sockfd (print ([newline] @ ''Disconnected.'' @ [newline])
       (udp_client_loop sockfd server_addr inp es
         (print (''Connected to UDP server. Type messages (Ctrl+D to quit):'' @ [newline]) s))))) (\<lambda>_. ret 0)))"

section \<open>Unix stream sockets\<close>

definition SOCKET_PATH :: string where "SOCKET_PATH = ''/tmp/unix_socket_example''"

definition un_response :: "string \<Rightarrow> string" where
  "un_response buffer = snprintf (ECHO_BUFFER + 18) (''Server received: '' @ buffer)"

text \<open>\<open>failed\<close>: the last \<open>read\<close> returns -1 and not 0.\<close>

function un_server_loop :: "bool \<Rightarrow> nat \<Rightarrow> string list \<Rightarrow> os \<Rightarrow> os" where
  "un_server_loop failed fd chunks s =
     (let (d, cs) = sys_read (ECHO_BUFFER - 1) chunks in
      if d = [] then (if failed then perror ''read'' s else print (''Client disconnected.'' @ [newline]) s)
      else (let buffer = c_str d;
                s1 = print (''Received from client: '' @ buffer) s in
            un_server_loop failed fd cs (sys_write fd (c_str (un_response buffer)) s1)))"
  by pat_completeness auto
termination
  by (relation "measure (\<lambda>(failed, fd, chunks, s). backlog_size chunks)") (auto dest: sys_read_shrinks [OF sym])

definition un_accept_client :: "kernel \<Rightarrow> nat \<Rightarrow> nat run" where
  "un_accept_client k server_fd =
     seq (sys_accept k server_fd) (\<lambda>r. case r of None \<Rightarrow> die ''accept'' | Some client_fd \<Rightarrow> ret client_fd)"

definition un_server_main :: "kernel \<Rightarrow> bool \<Rightarrow> string list \<Rightarrow> nat run" where
  "un_server_main k failed chunks =
     seq (un_stream_init_server_socket k SOCKET_PATH 5) (\<lambda>server_fd.
     seq (act (print (''Server listening at '' @ SOCKET_PATH @ ''...'' @ [newline]))) (\<lambda>_.
     seq (un_accept_client k server_fd) (\<lambda>client_fd.
     seq (act (\<lambda>s. unlink SOCKET_PATH (sys_close server_fd (sys_close client_fd
       (un_server_loop failed client_fd chunks (print (''Client connected!'' @ [newline]) s)))))) (\<lambda>_.
     ret 0))))"

function un_client_loop :: "nat \<Rightarrow> string \<Rightarrow> string list \<Rightarrow> os \<Rightarrow> os" where
  "un_client_loop fd inp chunks s =
     (let s0 = print ''Enter message to send (Ctrl+D to quit): '' s in
      case fgets ECHO_BUFFER inp of
        None \<Rightarrow> s0
      | Some (buffer, rest) \<Rightarrow>
          (let s1 = sys_write fd (c_str buffer) s0;
               (d, cs) = sys_read (ECHO_BUFFER - 1) chunks in
           if d = [] then print (''Server closed connection.'' @ [newline]) s1
           else un_client_loop fd rest cs (print (''Response from server: '' @ c_str d) s1)))"
  by pat_completeness auto
termination
  by (relation "measure (\<lambda>(fd, inp, chunks, s). length inp)")
    (auto dest: fgets_shrinks [rotated] simp: ECHO_BUFFER_def)

definition un_client_main :: "kernel \<Rightarrow> string \<Rightarrow> string list \<Rightarrow> nat run" where
  "un_client_main k inp chunks =
     seq (un_stream_init_client_socket k SOCKET_PATH) (\<lambda>sockfd.
     seq (act (\<lambda>s. sys_close sockfd (un_client_loop sockfd inp chunks s))) (\<lambda>_. ret 0))"

section \<open>Unix datagram sockets\<close>

definition SERVER_PATH :: string where "SERVER_PATH = ''/tmp/unix_dgram_server''"
definition CLIENT_PATH :: string where "CLIENT_PATH = ''/tmp/unix_dgram_client''"

definition dgram_response :: "string \<Rightarrow> string" where
  "dgram_response buffer = snprintf (DGRAM_BUFFER + 32) (''Server received: '' @ buffer)"

text \<open>
  A datagram comes with the path of its sender, or with no address (\<open>None\<close>), in which case \<open>recvfrom\<close>
  leaves \<open>client_addr\<close> as it was and sets the length to 0, and \<open>sendto\<close> to that length fails. \<open>addr\<close> is the
  path that \<open>client_addr\<close> holds.
\<close>

fun dgram_server_loop :: "nat \<Rightarrow> string \<Rightarrow> (string option \<times> string) option list \<Rightarrow> os \<Rightarrow> os" where
  "dgram_server_loop fd addr [] s = s"
| "dgram_server_loop fd addr (None # es) s = dgram_server_loop fd addr es (perror ''recvfrom'' s)"
| "dgram_server_loop fd addr (Some (sender, d) # es) s =
     (let got = recv_bytes (DGRAM_BUFFER - 1) d;
          addr1 = (case sender of None \<Rightarrow> addr | Some p \<Rightarrow> p) in
      if got = [] then dgram_server_loop fd addr1 es s
      else (let buffer = c_str got;
                s1 = print (''Received: '' @ buffer @ [newline]) s;
                s2 = (if c_str addr1 \<noteq> [] then print (''Client address (sun_path): '' @ c_str addr1 @ [newline]) s1
                      else print (''WARNING: Client address is unnamed or abstract.'' @ [newline]) s1);
                s3 = (if sender = None then perror ''sendto'' s2
                      else sys_sendto fd (Name_un addr1) (c_str (dgram_response buffer)) s2) in
            dgram_server_loop fd addr1 es s3))"

text \<open>\<open>addr\<close> is what \<open>client_addr\<close>, not initialised, holds at the start.\<close>

definition dgram_server_main :: "kernel \<Rightarrow> string \<Rightarrow> (string option \<times> string) option list \<Rightarrow> unit run" where
  "dgram_server_main k addr es =
     seq (un_dgram_init_server_socket k SERVER_PATH) (\<lambda>sockfd.
     act (\<lambda>s. dgram_server_loop sockfd addr es
       (print (''Server is running and waiting for messages from client...'' @ [newline]) s)))"

text \<open>\<open>buffer\<close> keeps its old contents when \<open>fgets\<close> fails; they are the parameter \<open>old\<close>.\<close>

definition dgram_client_line :: "string \<Rightarrow> string \<Rightarrow> string" where
  "dgram_client_line old inp =
     (let buffer = c_str (case fgets DGRAM_BUFFER inp of None \<Rightarrow> old | Some (b, _) \<Rightarrow> b) in
      cut_at (strcspn buffer [newline]) buffer)"

definition dgram_send_message :: "nat \<Rightarrow> string \<Rightarrow> string \<Rightarrow> os \<Rightarrow> os" where
  "dgram_send_message sockfd server_path msg = sys_sendto sockfd (sun_path server_path) (c_str msg)"

definition dgram_client_receive :: "string option \<Rightarrow> os \<Rightarrow> os" where
  "dgram_client_receive r s = (case r of
      None \<Rightarrow> perror ''recvfrom'' s
    | Some d \<Rightarrow> print (''Received from server: '' @ c_str (recv_bytes (DGRAM_BUFFER - 1) d) @ [newline]) s)"

definition dgram_client_main :: "kernel \<Rightarrow> string \<Rightarrow> string \<Rightarrow> string option \<Rightarrow> nat run" where
  "dgram_client_main k old inp r =
     seq (un_dgram_init_client_socket k CLIENT_PATH) (\<lambda>sockfd.
     seq (act (\<lambda>s. unlink CLIENT_PATH (sys_close sockfd (dgram_client_receive r
       (dgram_send_message sockfd SERVER_PATH (dgram_client_line old inp)
         (print ''Enter message to send: '' s)))))) (\<lambda>_. ret 0))"

declare tcp_handle_client.simps [simp del] tcp_client_loop.simps [simp del] udp_client_loop.simps [simp del]
  un_server_loop.simps [simp del] un_client_loop.simps [simp del]

end
