(* ===== verification/Echo_Theorems.thy ===== *)
theory Echo_Theorems
  imports Echo
begin

text \<open>
  The properties of the echo programs: sockets are set up or the program exits cleanly, every answer
  holds the whole message, and a client prints the answers to its lines, up to the length at which the
  answer no longer fits its buffer.
\<close>

section \<open>The answers\<close>

text \<open>
  The interface of a server: it answers a message that fits its receive buffer with a prefix and the
  whole message.
\<close>

locale echo_server =
  fixes respond :: "string \<Rightarrow> string" and prefix :: string and bufsize :: nat
  assumes respond_exact: "length m < bufsize \<Longrightarrow> respond m = prefix @ m"
    and prefix_text: "CHR 0x00 \<notin> set prefix"
begin

lemma respond_read: "length d < bufsize \<Longrightarrow> c_str (respond (c_str d)) = prefix @ c_str d"
proof -
  assume "length d < bufsize"
  then have "respond (c_str d) = prefix @ c_str d"
    using length_c_str [of d] by (intro respond_exact) simp
  then show ?thesis using prefix_text by (simp add: c_str_id)
qed

lemma respond_line: "length m < bufsize \<Longrightarrow> CHR 0x00 \<notin> set m \<Longrightarrow> c_str (respond m) = prefix @ m"
  using prefix_text by (simp add: respond_exact c_str_id)

lemma respond_length: "length m < bufsize \<Longrightarrow> length (respond m) < bufsize + length prefix"
  by (simp add: respond_exact)

end

lemmas response_defs = tcp_response_def udp_response_def un_response_def dgram_response_def
  snprintf_def ECHO_BUFFER_def DGRAM_BUFFER_def

interpretation tcp: echo_server tcp_response "''Server receive: ''" ECHO_BUFFER
  by unfold_locales (simp_all add: response_defs)

interpretation udp: echo_server udp_response "''Server received: ''" ECHO_BUFFER
  by unfold_locales (simp_all add: response_defs)

interpretation un: echo_server un_response "''Server received: ''" ECHO_BUFFER
  by unfold_locales (simp_all add: response_defs)

interpretation dgram: echo_server dgram_response "''Server received: ''" DGRAM_BUFFER
  by unfold_locales (simp_all add: response_defs)

section \<open>What a server reads\<close>

text \<open>The results of the successive calls of \<open>read\<close>.\<close>

function pieces :: "nat \<Rightarrow> string list \<Rightarrow> string list" where
  "pieces n chunks = (let (d, cs) = sys_read n chunks in if d = [] then [] else d # pieces n cs)"
  by pat_completeness auto
termination
  by (relation "measure (\<lambda>(n, chunks). backlog_size chunks)") (auto dest: sys_read_shrinks [OF sym])

declare pieces.simps [simp del]

lemma pieces_step:
  "sys_read n chunks = (d, cs) \<Longrightarrow> pieces n chunks = (if d = [] then [] else d # pieces n cs)"
  by (subst pieces.simps) simp

lemma pieces_length: "d \<in> set (pieces n chunks) \<Longrightarrow> length d \<le> n"
proof (induction n chunks rule: pieces.induct)
  case (1 n chunks)
  obtain e cs where r: "sys_read n chunks = (e, cs)" by (cases "sys_read n chunks")
  have "length e \<le> n" using r by (auto simp: sys_read_def split: list.splits)
  with 1 r pieces_step [OF r] show ?case by (auto split: if_splits)
qed

text \<open>Whatever the sizes of the pieces, no byte before the end of the connection is lost.\<close>

lemma pieces_concat: "0 < n \<Longrightarrow> concat (pieces n chunks) = concat (takeWhile (\<lambda>c. c \<noteq> []) chunks)"
proof (induction n chunks rule: pieces.induct)
  case (1 n chunks)
  show ?case
  proof (cases chunks)
    case Nil
    then show ?thesis by (simp add: pieces.simps sys_read_def)
  next
    case (Cons c cs)
    obtain d ds where r: "sys_read n chunks = (d, ds)" by (cases "sys_read n chunks")
    show ?thesis
    proof (cases "c = []")
      case True
      with r Cons pieces_step [OF r] show ?thesis by (simp add: sys_read_def)
    next
      case False
      then have "d \<noteq> []" using r Cons 1(2) by (auto simp: sys_read_def)
      with 1 r have "concat (pieces n ds) = concat (takeWhile (\<lambda>c. c \<noteq> []) ds)" by simp
      with \<open>d \<noteq> []\<close> False r Cons pieces_step [OF r] show ?thesis
        by (auto simp: sys_read_def split: if_splits)
    qed
  qed
qed

lemma pieces_small: "list_all (\<lambda>c. c \<noteq> [] \<and> length c \<le> n) chunks \<Longrightarrow> pieces n chunks = chunks"
  by (induction chunks) (simp_all add: pieces.simps sys_read_def)

lemma sys_simps [simp]:
  "wire (print x s) = wire s" "wire (sys_write fd m s) = wire s @ [(fd, None, m)]" "wire (sys_close fd s) = wire s"
  "wire (perror x s) = wire s" "wire (sys_sendto fd nm m s) = wire s @ [(fd, Some nm, m)]"
  "out (print x s) = out s @ [x]" "out (sys_write fd m s) = out s" "out (sys_close fd s) = out s"
  "out (perror x s) = out s" "out (sys_sendto fd nm m s) = out s"
  by (simp_all add: print_def sys_write_def sys_close_def perror_def sys_sendto_def)

lemma tcp_server_wire:
  "wire (tcp_handle_client fd chunks s) =
     wire s @ map (\<lambda>d. (fd, None, ''Server receive: '' @ c_str d)) (pieces 1023 chunks)"
proof (induction fd chunks s rule: tcp_handle_client.induct)
  case (1 fd chunks s)
  obtain d cs where r: "sys_read 1023 chunks = (d, cs)" by (cases "sys_read 1023 chunks")
  have "length d < ECHO_BUFFER"
    using r by (auto simp: sys_read_def ECHO_BUFFER_def split: list.splits)
  note tcp.respond_read [OF this]
  with 1 r show ?case
    by (subst tcp_handle_client.simps)
      (simp add: pieces_step [OF r] ECHO_BUFFER_def Let_def)
qed

lemma un_server_wire:
  "wire (un_server_loop failed fd chunks s) =
     wire s @ map (\<lambda>d. (fd, None, ''Server received: '' @ c_str d)) (pieces 1023 chunks)"
proof (induction failed fd chunks s rule: un_server_loop.induct)
  case (1 failed fd chunks s)
  obtain d cs where r: "sys_read 1023 chunks = (d, cs)" by (cases "sys_read 1023 chunks")
  have "length d < ECHO_BUFFER"
    using r by (auto simp: sys_read_def ECHO_BUFFER_def split: list.splits)
  note un.respond_read [OF this]
  with 1 r show ?case
    by (subst un_server_loop.simps)
      (simp add: pieces_step [OF r] ECHO_BUFFER_def Let_def)
qed

lemma udp_server_wire:
  "wire (udp_server_loop fd es s) = wire s @
     map (\<lambda>(client, d). (fd, Some (Name_in client), ''Server received: '' @ c_str (take 1023 d)))
       (List.map_filter id es)"
proof (induction fd es s rule: udp_server_loop.induct)
  case (3 fd client d es s)
  have "c_str (udp_response (c_str (take 1023 d))) = ''Server received: '' @ c_str (take 1023 d)"
    by (rule udp.respond_read) (simp add: ECHO_BUFFER_def)
  with 3 show ?case by (simp add: Let_def recv_bytes_def ECHO_BUFFER_def map_filter_simps)
qed (simp_all add: map_filter_simps)

text \<open>The datagrams the Unix server answers: not empty, and with the path of their sender.\<close>

definition dgram_answers :: "nat \<Rightarrow> (string option \<times> string) option list \<Rightarrow> (nat \<times> sockname option \<times> string) list" where
  "dgram_answers fd es = List.map_filter (\<lambda>e. case e of
       Some (Some p, d) \<Rightarrow> if d = [] then None
         else Some (fd, Some (Name_un p), ''Server received: '' @ c_str (take 255 d))
     | _ \<Rightarrow> None) es"

lemma dgram_server_wire: "wire (dgram_server_loop fd addr es s) = wire s @ dgram_answers fd es"
proof (induction fd addr es s rule: dgram_server_loop.induct)
  case (3 fd addr sender d es s)
  have "c_str (dgram_response (c_str (take 255 d))) = ''Server received: '' @ c_str (take 255 d)"
    by (rule dgram.respond_read) (simp add: DGRAM_BUFFER_def)
  with 3 show ?case
    by (cases sender) (auto simp: Let_def recv_bytes_def DGRAM_BUFFER_def dgram_answers_def map_filter_simps)
qed (simp_all add: dgram_answers_def map_filter_simps)

text \<open>
  C31: the response buffers of all four servers are large enough. A stream server reads, in pieces of at most
  1023 bytes, every byte sent before the end of the connection; the UDP server stores the first 1023 bytes of
  a datagram, the Unix datagram server the first 255. What is stored is answered, in the order of arrival and on the
  connection or to the sender it came from, with the prefix and the text of the message: the bytes before its first NUL,
  which is all of it when there is none, never cut off by \<open>snprintf\<close>. The Unix datagram server alone
  leaves messages unanswered: exactly the empty ones and those that come without the address of a sender.
\<close>

theorem answers_complete:
  "wire (tcp_handle_client fd chunks s) =
     wire s @ map (\<lambda>d. (fd, None, ''Server receive: '' @ c_str d)) (pieces 1023 chunks) \<and>
   wire (un_server_loop failed fd chunks s) =
     wire s @ map (\<lambda>d. (fd, None, ''Server received: '' @ c_str d)) (pieces 1023 chunks) \<and>
   concat (pieces 1023 chunks) = concat (takeWhile (\<lambda>c. c \<noteq> []) chunks) \<and>
   wire (udp_server_loop fd es s) = wire s @
     map (\<lambda>(client, d). (fd, Some (Name_in client), ''Server received: '' @ c_str (take 1023 d)))
       (List.map_filter id es) \<and>
   wire (dgram_server_loop fd addr ds s) = wire s @ dgram_answers fd ds"
  using tcp_server_wire un_server_wire udp_server_wire dgram_server_wire pieces_concat [of 1023 chunks]
  by simp

section \<open>Client and server together\<close>

text \<open>Lines of at most \<open>n\<close> characters with their newline, as a user types them.\<close>

definition typed :: "nat \<Rightarrow> string \<Rightarrow> bool" where
  "typed n l \<longleftrightarrow> newline \<notin> set l \<and> CHR 0x00 \<notin> set l \<and> length l < n"

definition lines :: "string list \<Rightarrow> string list" where
  "lines ls = map (\<lambda>l. l @ [newline]) ls"

lemma lines_simps [simp]: "lines [] = []" "lines (l # ls) = (l @ [newline]) # lines ls"
  by (simp_all add: lines_def)

lemma newline_not_nul [simp]: "newline \<noteq> CHR 0x00" "CHR 0x00 \<noteq> newline"
  by (simp_all add: newline_def)

lemma fgets_typed:
  "typed n l \<Longrightarrow> n < m \<Longrightarrow> fgets m ((l @ [newline]) @ rest) = Some (l @ [newline], rest)"
  using fgets_line [of l m rest] by (simp add: typed_def)

lemma c_str_typed: "typed n l \<Longrightarrow> c_str (l @ [newline]) = l @ [newline]"
  by (intro c_str_id) (auto simp: typed_def)

lemma tcp_client_step:
  "fgets 1024 inp = Some (b, rest) \<Longrightarrow> sys_read 1023 cs = (d, cs') \<Longrightarrow> d \<noteq> [] \<Longrightarrow>
     tcp_client_loop fd inp cs s =
       tcp_client_loop fd rest cs' (print (''From server: '' @ c_str d) (sys_write fd (c_str b) s))"
  by (subst tcp_client_loop.simps) (simp add: ECHO_BUFFER_def)

text \<open>What the client of a stream server prints when the \<open>i\<close>-th piece that arrives answers the \<open>i\<close>-th line.\<close>

lemma tcp_client_session:
  assumes "list_all (typed 1008) ls" "length as = length ls"
    "list_all (\<lambda>a. a \<noteq> [] \<and> CHR 0x00 \<notin> set a \<and> length a \<le> 1023) as"
  shows "wire (tcp_client_loop fd (concat (lines ls)) as s) = wire s @ map (\<lambda>l. (fd, None, l)) (lines ls) \<and>
    out (tcp_client_loop fd (concat (lines ls)) as s) = out s @ map (\<lambda>a. ''From server: '' @ a) as"
  using assms
proof (induction ls arbitrary: as s)
  case Nil
  then show ?case by (simp add: tcp_client_loop.simps fgets_def)
next
  case (Cons l ls)
  obtain a as' where as: "as = a # as'" using Cons.prems(2) by (cases as) auto
  have "fgets 1024 ((l @ [newline]) @ concat (lines ls)) = Some (l @ [newline], concat (lines ls))"
    by (rule fgets_typed [where n = 1008]) (use Cons.prems in simp_all)
  moreover have "c_str (l @ [newline]) = l @ [newline]" by (rule c_str_typed [where n = 1008]) (use Cons.prems in simp)
  moreover have "sys_read 1023 as = (a, as')" "c_str a = a"
    using Cons.prems(3) as by (simp_all add: sys_read_def c_str_id)
  ultimately show ?case using Cons.IH [of as'] Cons.prems as by (simp add: tcp_client_step)
qed

lemma un_client_session:
  assumes "list_all (typed 1008) ls" "length as = length ls"
    "list_all (\<lambda>a. a \<noteq> [] \<and> CHR 0x00 \<notin> set a \<and> length a \<le> 1023) as"
  shows "wire (un_client_loop fd (concat (lines ls)) as s) = wire s @ map (\<lambda>l. (fd, None, l)) (lines ls) \<and>
    out (un_client_loop fd (concat (lines ls)) as s) =
      out s @ concat (map (\<lambda>a. [''Enter message to send (Ctrl+D to quit): '', ''Response from server: '' @ a]) as) @
        [''Enter message to send (Ctrl+D to quit): '']"
  using assms
proof (induction ls arbitrary: as s)
  case Nil
  then show ?case by (simp add: un_client_loop.simps fgets_def)
next
  case (Cons l ls)
  obtain a as' where as: "as = a # as'" using Cons.prems(2) by (cases as) auto
  have "fgets 1024 ((l @ [newline]) @ concat (lines ls)) = Some (l @ [newline], concat (lines ls))"
    by (rule fgets_typed [where n = 1008]) (use Cons.prems in simp_all)
  moreover have "c_str (l @ [newline]) = l @ [newline]" by (rule c_str_typed [where n = 1008]) (use Cons.prems in simp)
  moreover have "sys_read 1023 as = (a, as')" "c_str a = a"
    using Cons.prems(3) as by (simp_all add: sys_read_def c_str_id)
  ultimately show ?case using Cons.IH [of as'] Cons.prems as
    by (subst (1 2) un_client_loop.simps) (simp add: ECHO_BUFFER_def)
qed

text \<open>The servers' side: the pieces are the lines the client has written.\<close>

lemma pieces_lines: "list_all (typed 1008) ls \<Longrightarrow> pieces 1023 (lines ls) = lines ls"
  by (rule pieces_small) (auto simp: lines_def typed_def list_all_iff)

lemma c_str_lines: "list_all (typed 1008) ls \<Longrightarrow> \<forall>x \<in> set (lines ls). c_str x = x"
  by (auto simp: lines_def list_all_iff intro!: c_str_typed [where n = 1008])

lemma answer_ok:
  assumes "list_all (typed n) ls" "length p + n \<le> 1023" "CHR 0x00 \<notin> set p"
  shows "list_all (\<lambda>a. a \<noteq> [] \<and> CHR 0x00 \<notin> set a \<and> length a \<le> 1023) (map (\<lambda>l. p @ l) (lines ls))"
  using assms by (auto simp: lines_def list_all_iff typed_def)

lemma typed_mono: "list_all (typed n) ls \<Longrightarrow> n \<le> m \<Longrightarrow> list_all (typed m) ls"
  by (auto simp: list_all_iff typed_def)

text \<open>
  C29: a session over a TCP or a Unix stream socket in which each line and each answer arrives in one
  piece: for lines of at most 1007 characters (TCP) or 1006 (Unix) with the newline, the server
  answers each line with its prefix and the line, and the client, given these answers, sends the
  lines and prints each answer in full, in order.
\<close>

theorem stream_sessions:
  assumes "list_all (typed 1007) ls" "list_all (typed 1006) ms"
  shows "wire (tcp_handle_client f (lines ls) t) = wire t @ map (\<lambda>l. (f, None, ''Server receive: '' @ l)) (lines ls) \<and>
    wire (tcp_client_loop c (concat (lines ls)) (map (\<lambda>l. ''Server receive: '' @ l) (lines ls)) s) =
      wire s @ map (\<lambda>l. (c, None, l)) (lines ls) \<and>
    out (tcp_client_loop c (concat (lines ls)) (map (\<lambda>l. ''Server receive: '' @ l) (lines ls)) s) =
      out s @ map (\<lambda>l. ''From server: Server receive: '' @ l) (lines ls) \<and>
    wire (un_server_loop failed f (lines ms) t) = wire t @ map (\<lambda>l. (f, None, ''Server received: '' @ l)) (lines ms) \<and>
    wire (un_client_loop c (concat (lines ms)) (map (\<lambda>l. ''Server received: '' @ l) (lines ms)) s) =
      wire s @ map (\<lambda>l. (c, None, l)) (lines ms) \<and>
    out (un_client_loop c (concat (lines ms)) (map (\<lambda>l. ''Server received: '' @ l) (lines ms)) s) =
      out s @ concat (map (\<lambda>l. [''Enter message to send (Ctrl+D to quit): '',
        ''Response from server: Server received: '' @ l]) (lines ms)) @
        [''Enter message to send (Ctrl+D to quit): '']"
proof -
  have l: "list_all (typed 1008) ls" "list_all (typed 1008) ms"
    using assms typed_mono [where m = 1008] by force+
  note c1 = tcp_client_session [OF l(1) _ answer_ok [OF assms(1)], of "''Server receive: ''" c s]
  note c2 = un_client_session [OF l(2) _ answer_ok [OF assms(2)], of "''Server received: ''" c s]
  have "wire (tcp_handle_client f (lines ls) t) = wire t @ map (\<lambda>l. (f, None, ''Server receive: '' @ l)) (lines ls)"
    using l(1) by (simp add: tcp_server_wire pieces_lines c_str_lines)
  moreover have "wire (un_server_loop failed f (lines ms) t) =
      wire t @ map (\<lambda>l. (f, None, ''Server received: '' @ l)) (lines ms)"
    using l(2) by (simp add: un_server_wire pieces_lines c_str_lines)
  ultimately show ?thesis using c1 c2 by (simp add: lines_def comp_def)
qed

text \<open>Two lines typed into a TCP client; the server answers both.\<close>

lemma stream_sessions_witness:
  "out (tcp_client_loop 3 (''hello'' @ [newline] @ ''bye'' @ [newline])
      [''Server receive: hello'' @ [newline], ''Server receive: bye'' @ [newline]]
      \<lparr>fds = [], files = [], out = [], err = [], wire = []\<rparr>) =
    [''From server: Server receive: hello'' @ [newline], ''From server: Server receive: bye'' @ [newline]]"
proof -
  have "list_all (typed 1007) [''hello'', ''bye'']" "list_all (typed 1006) []"
    by (simp_all add: typed_def newline_def)
  from stream_sessions [OF this, of 4 "\<lparr>fds = [], files = [], out = [], err = [], wire = []\<rparr>" 3
      "\<lparr>fds = [], files = [], out = [], err = [], wire = []\<rparr>" False]
  show ?thesis by simp
qed

text \<open>
  Beyond that length the TCP client falls behind: its buffer takes 1023 bytes of the answer, and the
  rest of it is what the client prints as the answer to the next line.
\<close>

lemma end_of_input: "tcp_client_loop c [] chunks s = s"
  by (subst tcp_client_loop.simps) (simp add: fgets_def)

lemma long_line_shifts_answers:
  assumes "typed 1023 l" "1007 \<le> length l" "typed 1007 m"
  shows "out (tcp_client_loop c (concat (lines [l, m]))
      (map (\<lambda>x. ''Server receive: '' @ x) (lines [l, m])) s) = out s @
    [''From server: '' @ take 1023 (''Server receive: '' @ l @ [newline]),
     ''From server: '' @ drop 1023 (''Server receive: '' @ l @ [newline])]"
proof -
  let ?a = "''Server receive: '' @ l @ [newline]"
  have len: "1023 < length ?a" "length ?a \<le> 2046" using assms(1,2) by (simp_all add: typed_def)
  have nul: "CHR 0x00 \<notin> set ?a" using assms(1) by (simp add: typed_def)
  have c: "c_str (take 1023 ?a) = take 1023 ?a" "c_str (drop 1023 ?a) = drop 1023 ?a"
    using nul by (intro c_str_id; fastforce dest: in_set_takeD in_set_dropD)+
  have ne: "take 1023 ?a \<noteq> []" "drop 1023 ?a \<noteq> []" using len by simp_all
  have r: "sys_read 1023 (?a # as) = (take 1023 ?a, drop 1023 ?a # as)"
    "sys_read 1023 (drop 1023 ?a # as) = (drop 1023 ?a, as)" for as
    using len by (simp_all add: sys_read_def)
  have f: "fgets 1024 ((l @ [newline]) @ rest) = Some (l @ [newline], rest)"
    "fgets 1024 ((m @ [newline]) @ rest) = Some (m @ [newline], rest)" for rest
    using fgets_typed [OF assms(1), of 1024] fgets_typed [OF assms(3), of 1024] by simp_all
  have "concat (lines [l, m]) = (l @ [newline]) @ m @ [newline]" by simp
  then have "tcp_client_loop c (concat (lines [l, m])) [?a, b] s = tcp_client_loop c (m @ [newline]) [drop 1023 ?a, b]
      (print (''From server: '' @ take 1023 ?a) (sys_write c (c_str (l @ [newline])) s))" for b
    using tcp_client_step [OF f(1) [of "m @ [newline]"] r(1) ne(1)] c(1) by (simp only:)
  moreover have "tcp_client_loop c (m @ [newline]) [drop 1023 ?a, b] t =
      print (''From server: '' @ drop 1023 ?a) (sys_write c (c_str (m @ [newline])) t)" for b t
    using tcp_client_step [OF f(2) [of "[]"] r(2) ne(2)] c(2) by (simp only: append_Nil2 end_of_input)
  moreover have "map (\<lambda>x. ''Server receive: '' @ x) (lines [l, m]) = [?a, ''Server receive: '' @ m @ [newline]]"
    by simp
  ultimately show ?thesis by (simp only: sys_simps append_assoc append_Cons append_Nil)
qed

section \<open>Setting up and closing\<close>

lemma fds_simps [simp]:
  "fds (print x s) = fds s" "fds (sys_write fd m s) = fds s" "fds (perror x s) = fds s"
  "fds (sys_sendto fd nm m s) = fds s" "fds (unlink p s) = fds s"
  "fds (sys_close fd s) = filter (\<lambda>e. fst e \<noteq> fd) (fds s)"
  by (simp_all add: print_def sys_write_def perror_def sys_sendto_def unlink_def sys_close_def)

lemma server_loops_fds:
  "fds (tcp_handle_client fd chunks s) = filter (\<lambda>e. fst e \<noteq> fd) (fds s)"
  "fds (un_server_loop failed fd chunks s) = fds s"
proof -
  show "fds (tcp_handle_client fd chunks s) = filter (\<lambda>e. fst e \<noteq> fd) (fds s)"
  proof (induction fd chunks s rule: tcp_handle_client.induct)
    case (1 fd chunks s)
    obtain d cs where "sys_read (ECHO_BUFFER - 1) chunks = (d, cs)" by (cases "sys_read (ECHO_BUFFER - 1) chunks")
    with 1 show ?case by (subst tcp_handle_client.simps) (simp add: Let_def)
  qed
  show "fds (un_server_loop failed fd chunks s) = fds s"
  proof (induction failed fd chunks s rule: un_server_loop.induct)
    case (1 failed fd chunks s)
    obtain d cs where "sys_read (ECHO_BUFFER - 1) chunks = (d, cs)" by (cases "sys_read (ECHO_BUFFER - 1) chunks")
    with 1 show ?case by (subst un_server_loop.simps) (simp add: Let_def)
  qed
qed

lemma client_loops_fds:
  "fds (tcp_client_loop fd inp chunks s) = fds s"
  "fds (un_client_loop fd inp chunks s) = fds s"
  "fds (udp_client_loop fd server inp es s) = fds s"
proof -
  show "fds (tcp_client_loop fd inp chunks s) = fds s"
  proof (induction fd inp chunks s rule: tcp_client_loop.induct)
    case (1 fd inp chunks s)
    obtain d cs where "sys_read (ECHO_BUFFER - 1) chunks = (d, cs)" by (cases "sys_read (ECHO_BUFFER - 1) chunks")
    with 1 show ?case
      by (subst tcp_client_loop.simps, cases "fgets ECHO_BUFFER inp") (auto simp: Let_def simp del: fgets_None)
  qed
  show "fds (un_client_loop fd inp chunks s) = fds s"
  proof (induction fd inp chunks s rule: un_client_loop.induct)
    case (1 fd inp chunks s)
    obtain d cs where "sys_read (ECHO_BUFFER - 1) chunks = (d, cs)" by (cases "sys_read (ECHO_BUFFER - 1) chunks")
    with 1 show ?case
      by (subst un_client_loop.simps, cases "fgets ECHO_BUFFER inp") (auto simp: Let_def simp del: fgets_None)
  qed
  show "fds (udp_client_loop fd server inp es s) = fds s"
  proof (induction fd server inp es s rule: udp_client_loop.induct)
    case (1 fd server inp es s)
    then show ?case
      by (subst udp_client_loop.simps, cases "fgets ECHO_BUFFER inp"; cases es; cases "hd es")
        (auto simp: Let_def simp del: fgets_None)
  qed
qed

lemma dgram_client_receive_fds: "fds (dgram_client_receive r s) = fds s"
  by (simp add: dgram_client_receive_def split: option.split)

text \<open>Sequencing, as far as the descriptors are concerned.\<close>

lemma seq_act: "fds (snd (seq (act f) g s)) = fds (snd (g () (f s)))"
  by (simp add: seq_def act_def)

lemma ret_fds [simp]: "fds (snd (ret x s)) = fds s"
  by (simp add: ret_def)

lemma seq_setup:
  assumes "socket_setup mk sk"
    and "\<And>fd t. fd \<notin> open_fds s \<Longrightarrow> fds t = (fd, sk) # fds s \<Longrightarrow> fds (snd (g fd t)) = fds s"
  shows "fds (snd (seq mk g s)) = fds s"
proof (cases "mk s")
  case (Pair a t)
  show ?thesis
  proof (cases a)
    case (Inl n)
    then show ?thesis using Pair socket_setup.mk_exit [OF assms(1)] by (simp add: seq_def)
  next
    case (Inr fd)
    then have "fd \<notin> open_fds s" "fds t = (fd, sk) # fds s"
      using Pair socket_setup.mk_ok [OF assms(1)] by blast+
    then show ?thesis using Pair Inr assms(2) by (simp add: seq_def)
  qed
qed

lemma close_fresh: "fd \<notin> open_fds s \<Longrightarrow> fds t = (fd, k) # fds s \<Longrightarrow> fds (sys_close fd t) = fds s"
  using fresh_entry(2) by simp

text \<open>\<open>accept\<close> on the descriptor just made.\<close>

lemma accept_fds:
  assumes "fds t = (fd, sk) # fds s" "sys_accept k fd t = (r, u)"
  shows "r = Inr None \<and> u = t \<or>
    (\<exists>c sk'. r = Inr (Some c) \<and> c \<notin> open_fds t \<and> fds u = (c, sk') # fds t)"
  using assms free_fd_fresh [of t] by (auto simp: sys_accept_def split: if_splits)

lemma tcp_server_main_fds: "fds (snd (tcp_server_main k peer chunks s)) = fds s"
  unfolding tcp_server_main_def
proof (rule seq_setup [OF tcp_server.socket_setup_axioms], unfold seq_act)
  fix fd and t :: os
  assume fd: "fd \<notin> open_fds s" "fds t = (fd, inet_sock SOCK_STREAM (Some (inet_name ''127.0.0.1'' PORT)) (Some 5) None) # fds s"
  let ?t = "print (''Server listening on port '' @ dec (nat PORT) @ ''...'' @ [newline]) t"
  obtain r u where a: "sys_accept k fd ?t = (r, u)" by (cases "sys_accept k fd ?t")
  have t: "fds ?t = (fd, inet_sock SOCK_STREAM (Some (inet_name ''127.0.0.1'' PORT)) (Some 5) None) # fds s"
    using fd(2) by simp
  from accept_fds [OF t a] consider "r = Inr None" "u = ?t"
    | c sk' where "r = Inr (Some c)" "c \<notin> open_fds ?t" "fds u = (c, sk') # fds ?t" by blast
  then show "fds (snd (seq (tcp_accept_client k fd) (\<lambda>r. seq (act (\<lambda>s. case r of None \<Rightarrow> s
       | Some client_fd \<Rightarrow> tcp_handle_client client_fd chunks
           (print (''Client connected: IP = '' @ inet_ntop (sin_addr peer) @ '', Port = '' @
              dec (unat (ntohs (sin_port peer))) @ [newline]) s))) (\<lambda>_.
     seq (act (sys_close fd)) (\<lambda>_. ret 0))) ?t)) = fds s"
  proof cases
    case 1
    then show ?thesis using a fd close_fresh [OF fd(1), of "perror ''accept'' ?t"]
      by (simp add: tcp_accept_client_def seq_def act_def ret_def)
  next
    case 2
    then show ?thesis using a fd t fresh_entry(2) [OF 2(2)] fresh_entry(2) [OF fd(1)]
      by (simp add: tcp_accept_client_def seq_def act_def ret_def server_loops_fds(1))
  qed
qed

lemma un_server_main_fds:
  "fst (un_server_main k failed chunks s) = Inl EXIT_FAILURE \<or> fds (snd (un_server_main k failed chunks s)) = fds s"
proof (cases "un_stream_init_server_socket k SOCKET_PATH 5 s")
  case (Pair a t)
  show ?thesis
  proof (cases a)
    case (Inl n)
    then show ?thesis using Pair un_stream_server.mk_exit by (simp add: un_server_main_def seq_def)
  next
    case (Inr fd)
    then have fd: "fd \<notin> open_fds s" and t: "fds t =
        (fd, unix_sock SOCK_STREAM (Some (sun_path SOCKET_PATH)) (Some 5) None) # fds s"
      using Pair un_stream_server.mk_ok by blast+
    let ?t = "print (''Server listening at '' @ SOCKET_PATH @ ''...'' @ [newline]) t"
    have t': "fds ?t = (fd, unix_sock SOCK_STREAM (Some (sun_path SOCKET_PATH)) (Some 5) None) # fds s"
      using t by simp
    obtain r u where a: "sys_accept k fd ?t = (r, u)" by (cases "sys_accept k fd ?t")
    note run = un_server_main_def un_accept_client_def seq_def act_def ret_def
    from accept_fds [OF t' a] consider "r = Inr None"
      | c sk' where "r = Inr (Some c)" "c \<notin> open_fds ?t" "fds u = (c, sk') # fds ?t" by blast
    then show ?thesis
    proof cases
      case 1
      then show ?thesis using Pair Inr a by (simp add: run die_def exit_with_def)
    next
      case 2
      then show ?thesis
        using Pair Inr a t' fresh_entry(2) [OF 2(2)] fresh_entry(2) [OF fd] by (simp add: run server_loops_fds(2))
    qed
  qed
qed

lemma client_mains_fds:
  "fds (snd (tcp_client_main k inp chunks s)) = fds s"
  "fds (snd (un_client_main k inp chunks s)) = fds s"
  "fds (snd (udp_client_main k inp es s)) = fds s"
  "fds (snd (dgram_client_main k old inp r s)) = fds s"
proof -
  have ip: "inet_pton ''127.0.0.1'' = Some (In_addr 127 0 0 1)" by code_simp
  show "fds (snd (tcp_client_main k inp chunks s)) = fds s" unfolding tcp_client_main_def
    by (rule seq_setup [OF tcp_client.socket_setup_axioms])
      (simp add: seq_act client_loops_fds fresh_entry(2))
  show "fds (snd (un_client_main k inp chunks s)) = fds s" unfolding un_client_main_def
    by (rule seq_setup [OF un_stream_client.socket_setup_axioms])
      (simp add: seq_act client_loops_fds fresh_entry(2))
  show "fds (snd (udp_client_main k inp es s)) = fds s" unfolding udp_client_main_def
    by (rule seq_setup [OF udp_client.socket_setup_axioms])
      (simp add: udp_setup_server_address_def ip seq_def [of "ret x" for x] ret_def [of "x :: sockname" for x]
        seq_act client_loops_fds fresh_entry(2))
  show "fds (snd (dgram_client_main k old inp r s)) = fds s" unfolding dgram_client_main_def
    by (rule seq_setup [OF un_dgram_client.socket_setup_axioms])
      (simp add: seq_act dgram_client_receive_fds dgram_send_message_def fresh_entry(2))
qed

text \<open>
  C33: every function that makes a socket either exits with status 1 after printing one error, with no
  descriptor more than before, or returns a descriptor that was not open before and is now a socket of
  the right family and type, with the name, backlog and peer that it should have; and whichever calls
  fail, the programs that end (the four clients and the two stream servers) leave no descriptor open,
  the Unix stream server unless it exits because of an error.
\<close>

theorem sockets_set_up:
  "clean_setup (tcp_create_server_socket k ip port)
     (inet_sock SOCK_STREAM (Some (inet_name ip port)) (Some 5) None) \<and>
   clean_setup (tcp_connect_to_server k ip port)
     (inet_sock SOCK_STREAM None None (Some (inet_name ip port))) \<and>
   clean_setup (udp_create_server_socket k ip port)
     (inet_sock SOCK_DGRAM (Some (inet_name ip port)) None None) \<and>
   clean_setup (udp_create_client_socket k) (inet_sock SOCK_DGRAM None None None) \<and>
   clean_setup (un_stream_init_server_socket k path backlog)
     (unix_sock SOCK_STREAM (Some (sun_path path)) (Some backlog) None) \<and>
   clean_setup (un_stream_init_client_socket k path)
     (unix_sock SOCK_STREAM None None (Some (sun_path path))) \<and>
   clean_setup (un_dgram_init_server_socket k path) (unix_sock SOCK_DGRAM (Some (sun_path path)) None None) \<and>
   clean_setup (un_dgram_init_client_socket k path) (unix_sock SOCK_DGRAM (Some (sun_path path)) None None) \<and>
   fds (snd (tcp_server_main k peer chunks s)) = fds s \<and> fds (snd (tcp_client_main k inp chunks s)) = fds s \<and>
   fds (snd (udp_client_main k inp es s)) = fds s \<and> fds (snd (dgram_client_main k old inp r s)) = fds s \<and>
   fds (snd (un_client_main k inp chunks s)) = fds s \<and>
   (fst (un_server_main k failed chunks s) = Inl EXIT_FAILURE \<or> fds (snd (un_server_main k failed chunks s)) = fds s)"
  by (intro conjI tcp_server.clean tcp_client.clean udp_server.clean udp_client.clean
      un_stream_server.clean un_stream_client.clean un_dgram_server.clean un_dgram_client.clean
      tcp_server_main_fds client_mains_fds un_server_main_fds)

end
