(* ===== verification/Echo_Typing.thy ===== *)
theory Echo_Typing
  imports Echo_Theorems
begin

text \<open>
  The types of what the echo programs hold and send: descriptors are distinct, a socket has names of its own
  family, only a named stream socket listens, and what goes over the wire is a C string that fits the
  largest response buffer. \<open>preserves\<close> is the typing judgement of a part of a program, with one rule for each
  construct and each system call.
\<close>

section \<open>Types\<close>

text \<open>\<open>sun_path\<close> has 108 bytes.\<close>

definition name_typed :: "family \<Rightarrow> sockname \<Rightarrow> bool" where
  "name_typed f n \<longleftrightarrow> (case n of Name_in _ \<Rightarrow> f = AF_INET | Name_un p \<Rightarrow> f = AF_UNIX \<and> length p \<le> 108)"

definition sock_typed :: "sock \<Rightarrow> bool" where
  "sock_typed k \<longleftrightarrow> (\<forall>n. sk_name k = Some n \<or> sk_peer k = Some n \<longrightarrow> name_typed (sk_family k) n) \<and>
     (sk_backlog k \<noteq> None \<longrightarrow> sk_type k = SOCK_STREAM \<and> sk_name k \<noteq> None)"

definition message_typed :: "nat \<times> sockname option \<times> string \<Rightarrow> bool" where
  "message_typed w \<longleftrightarrow> (case w of (fd, to, m) \<Rightarrow> CHR 0x00 \<notin> set m \<and> length m \<le> 1041 \<and>
     (\<forall>n. to = Some n \<longrightarrow> (\<exists>f. name_typed f n)))"

definition os_typed :: "os \<Rightarrow> bool" where
  "os_typed s \<longleftrightarrow> distinct (map fst (fds s)) \<and> list_all (\<lambda>(fd, k). sock_typed k) (fds s) \<and>
     list_all message_typed (wire s)"

definition preserves :: "(os \<Rightarrow> bool) \<Rightarrow> 'a run \<Rightarrow> bool" where
  "preserves P f \<longleftrightarrow> (\<forall>s. P s \<longrightarrow> P (snd (f s)))"

section \<open>Rules\<close>

lemma keeps_seq: "preserves P f \<Longrightarrow> (\<And>x. preserves P (g x)) \<Longrightarrow> preserves P (seq f g)"
  unfolding preserves_def seq_def by (force split: prod.split sum.split)

lemma keeps_act: "(\<And>s. P s \<Longrightarrow> P (f s)) \<Longrightarrow> preserves P (act f)"
  by (simp add: preserves_def act_def)

lemma keeps_ret: "preserves P (ret x)"
  by (simp add: preserves_def ret_def)

lemma keeps_exit: "preserves P (exit_with n)"
  by (simp add: preserves_def exit_with_def)

lemma typed_effects [simp]:
  "os_typed (print m s) = os_typed s" "os_typed (perror e s) = os_typed s" "os_typed (unlink p s) = os_typed s"
  by (simp_all add: os_typed_def print_def perror_def unlink_def)

lemma typed_close [intro]: "os_typed s \<Longrightarrow> os_typed (sys_close fd s)"
  by (auto simp: os_typed_def sys_close_def list_all_iff distinct_map intro: distinct_filter inj_on_subset)

lemma typed_write [intro]: "os_typed s \<Longrightarrow> message_typed (fd, None, m) \<Longrightarrow> os_typed (sys_write fd m s)"
  by (simp add: os_typed_def sys_write_def)

lemma typed_sendto [intro]: "os_typed s \<Longrightarrow> message_typed (fd, Some n, m) \<Longrightarrow> os_typed (sys_sendto fd n m s)"
  by (simp add: os_typed_def sys_sendto_def)

lemma typed_accept: "preserves os_typed (sys_accept k fd)"
proof -
  have "os_typed (s\<lparr>fds := (free_fd s, l\<lparr>sk_backlog := None\<rparr>) # fds s\<rparr>)"
    if "os_typed s" "map_of (fds s) fd = Some l" for s l
  proof -
    have "sock_typed l" using that map_of_SomeD [OF that(2)] by (auto simp: os_typed_def list_all_iff)
    then show ?thesis using that(1) free_fd_fresh [of s] by (auto simp: os_typed_def sock_typed_def)
  qed
  then show ?thesis by (auto simp: preserves_def sys_accept_def split: option.split)
qed

text \<open>A set-up function of the interface, if it makes a typed socket and sends nothing.\<close>

lemma typed_setup:
  assumes "clean_setup f sk" "sock_typed sk" "\<And>s. wire (snd (f s)) = wire s"
  shows "preserves os_typed f"
proof -
  have "os_typed (snd (f s))" if s: "os_typed s" for s
  proof (cases "f s")
    case (Pair a t)
    then have w: "wire t = wire s" using assms(3) [of s] by simp
    have "fds t = fds s \<or> (\<exists>fd. fd \<notin> open_fds s \<and> fds t = (fd, sk) # fds s)"
      using spec [OF assms(1) [unfolded clean_setup_def], of s] Pair by (cases a) auto
    then show ?thesis using s w Pair assms(2) by (auto simp: os_typed_def)
  qed
  then show ?thesis by (simp add: preserves_def)
qed

lemma setup_wire:
  "wire (snd (tcp_create_server_socket k ip port s)) = wire s" "wire (snd (tcp_connect_to_server k ip port s)) = wire s"
  "wire (snd (udp_create_server_socket k ip port s)) = wire s" "wire (snd (udp_create_client_socket k s)) = wire s"
  "wire (snd (un_stream_init_server_socket k path n s)) = wire s" "wire (snd (un_stream_init_client_socket k path s)) = wire s"
  "wire (snd (un_dgram_init_server_socket k path s)) = wire s" "wire (snd (un_dgram_init_client_socket k path s)) = wire s"
  by (auto simp: tcp_create_server_socket_def tcp_connect_to_server_def udp_create_server_socket_def
      udp_create_client_socket_def un_stream_init_server_socket_def un_stream_init_client_socket_def
      un_dgram_init_server_socket_def un_dgram_init_client_socket_def run_defs Let_def
      split: option.split sockname.split)

lemma sock_typed_setups:
  "sock_typed (inet_sock ty None None None)" "sock_typed (inet_sock ty (Some (inet_name ip port)) None None)"
  "sock_typed (inet_sock SOCK_STREAM (Some (inet_name ip port)) (Some n) None)"
  "sock_typed (inet_sock ty None None (Some (inet_name ip port)))"
  "sock_typed (unix_sock ty (Some (sun_path p)) None None)" "sock_typed (unix_sock ty None None (Some (sun_path p)))"
  "sock_typed (unix_sock SOCK_STREAM (Some (sun_path p)) (Some n) None)"
  by (auto simp: sock_typed_def name_typed_def inet_name_def sun_path_def)

lemmas setups_typed =
  typed_setup [OF tcp_server.clean sock_typed_setups(3) setup_wire(1)]
  typed_setup [OF tcp_client.clean sock_typed_setups(4) setup_wire(2)]
  typed_setup [OF udp_server.clean sock_typed_setups(2) setup_wire(3)]
  typed_setup [OF udp_client.clean sock_typed_setups(1) setup_wire(4)]
  typed_setup [OF un_stream_server.clean sock_typed_setups(7) setup_wire(5)]
  typed_setup [OF un_stream_client.clean sock_typed_setups(6) setup_wire(6)]
  typed_setup [OF un_dgram_server.clean sock_typed_setups(5) setup_wire(7)]
  typed_setup [OF un_dgram_client.clean sock_typed_setups(5) setup_wire(8)]

section \<open>The loops\<close>

lemma message_typed_c_str:
  "length m \<le> 1041 \<Longrightarrow> message_typed (fd, None, c_str m)"
  "length m \<le> 1041 \<Longrightarrow> message_typed (fd, Some (Name_in a), c_str m)"
  "length m \<le> 1041 \<Longrightarrow> length p \<le> 108 \<Longrightarrow> message_typed (fd, Some (Name_un p), c_str m)"
  using length_c_str [of m] by (auto simp: message_typed_def name_typed_def)

lemma responses_fit:
  "length (tcp_response b) \<le> 1041" "length (udp_response b) \<le> 1041" "length (un_response b) \<le> 1041"
  "length (dgram_response b) \<le> 1041"
  by (simp_all add: response_defs snprintf_def ECHO_BUFFER_def DGRAM_BUFFER_def)

lemmas send_typed = typed_write [OF _ message_typed_c_str(1)] typed_sendto [OF _ message_typed_c_str(2)]
  typed_sendto [OF _ message_typed_c_str(3)]

lemma tcp_server_typed: "os_typed s \<Longrightarrow> os_typed (tcp_handle_client fd chunks s)"
proof (induction fd chunks s rule: tcp_handle_client.induct)
  case (1 fd chunks s)
  obtain d cs where "sys_read (ECHO_BUFFER - 1) chunks = (d, cs)" by (cases "sys_read (ECHO_BUFFER - 1) chunks")
  with 1 show ?case
    by (subst tcp_handle_client.simps) (simp add: Let_def typed_close send_typed responses_fit)
qed

lemma un_server_typed: "os_typed s \<Longrightarrow> os_typed (un_server_loop failed fd chunks s)"
proof (induction failed fd chunks s rule: un_server_loop.induct)
  case (1 failed fd chunks s)
  obtain d cs where "sys_read (ECHO_BUFFER - 1) chunks = (d, cs)" by (cases "sys_read (ECHO_BUFFER - 1) chunks")
  with 1 show ?case
    by (subst un_server_loop.simps) (simp add: Let_def send_typed responses_fit)
qed

lemma udp_server_typed: "os_typed s \<Longrightarrow> os_typed (udp_server_loop fd es s)"
  by (induction fd es s rule: udp_server_loop.induct) (simp_all add: Let_def send_typed responses_fit)

lemma dgram_server_fds: "fds (dgram_server_loop fd addr es s) = fds s"
  by (induction fd addr es s rule: dgram_server_loop.induct) (simp_all add: Let_def)

lemma dgram_answers_typed:
  "\<forall>p d. Some (Some p, d) \<in> set es \<longrightarrow> length p \<le> 108 \<Longrightarrow> list_all message_typed (dgram_answers fd es)"
proof (induction es)
  case (Cons e es)
  have "length (take 255 d) \<le> 255" for d :: string by simp
  then have "length (c_str (take 255 d)) \<le> 255" for d using length_c_str [of "take 255 d"] le_trans by blast
  then have "length p \<le> 108 \<Longrightarrow> message_typed (fd, Some (Name_un p), ''Server received: '' @ c_str (take 255 d))" for p d
    by (auto simp: message_typed_def name_typed_def) (meson le_trans nat_le_linear numeral_le_iff semiring_norm(69,72,73))+
  with Cons show ?case
    by (auto simp: dgram_answers_def map_filter_simps split: option.splits)
qed (simp add: dgram_answers_def map_filter_simps)

lemma dgram_server_typed:
  "os_typed s \<Longrightarrow> \<forall>p d. Some (Some p, d) \<in> set es \<longrightarrow> length p \<le> 108 \<Longrightarrow> os_typed (dgram_server_loop fd addr es s)"
  using dgram_answers_typed [of es fd] by (simp add: os_typed_def dgram_server_fds dgram_server_wire)

lemma typed_line:
  assumes "fgets ECHO_BUFFER inp = Some (b, rest)"
  shows "length b \<le> 1041"
  using fgets_bound [OF assms] by (simp add: ECHO_BUFFER_def)

lemma tcp_client_typed: "os_typed s \<Longrightarrow> os_typed (tcp_client_loop fd inp chunks s)"
proof (induction fd inp chunks s rule: tcp_client_loop.induct)
  case (1 fd inp chunks s)
  obtain d cs where "sys_read (ECHO_BUFFER - 1) chunks = (d, cs)" by (cases "sys_read (ECHO_BUFFER - 1) chunks")
  with 1 show ?case
    by (subst tcp_client_loop.simps, cases "fgets ECHO_BUFFER inp")
      (auto simp: Let_def send_typed typed_line simp del: fgets_None)
qed

lemma un_client_typed: "os_typed s \<Longrightarrow> os_typed (un_client_loop fd inp chunks s)"
proof (induction fd inp chunks s rule: un_client_loop.induct)
  case (1 fd inp chunks s)
  obtain d cs where "sys_read (ECHO_BUFFER - 1) chunks = (d, cs)" by (cases "sys_read (ECHO_BUFFER - 1) chunks")
  with 1 show ?case
    by (subst un_client_loop.simps, cases "fgets ECHO_BUFFER inp")
      (auto simp: Let_def send_typed typed_line simp del: fgets_None)
qed

lemma udp_client_typed: "os_typed s \<Longrightarrow> name_typed AF_INET server \<Longrightarrow> os_typed (udp_client_loop fd server inp es s)"
proof (induction fd server inp es s rule: udp_client_loop.induct)
  case (1 fd server inp es s)
  obtain a where "server = Name_in a" using 1(4) by (cases server) (auto simp: name_typed_def)
  with 1 show ?case
    by (subst udp_client_loop.simps, cases "fgets ECHO_BUFFER inp"; cases es; cases "hd es")
      (auto simp: Let_def send_typed typed_line name_typed_def simp del: fgets_None)
qed

section \<open>The programs\<close>

lemma typed_receive: "os_typed s \<Longrightarrow> os_typed (dgram_client_receive r s)"
  by (simp add: dgram_client_receive_def split: option.split)

lemma typed_line_dgram:
  assumes "length old \<le> 256"
  shows "length (dgram_client_line old inp) \<le> 1041"
proof -
  have "length b \<le> 1041" if "fgets DGRAM_BUFFER inp = Some (b, r)" for b r
    using fgets_bound [OF that] by (simp add: DGRAM_BUFFER_def)
  then have "length (case fgets DGRAM_BUFFER inp of None \<Rightarrow> old | Some (b, _) \<Rightarrow> b) \<le> 1041"
    using assms by (auto split: option.split simp del: fgets_None)
  then show ?thesis
    unfolding dgram_client_line_def Let_def cut_at_def
    using length_c_str le_trans by (metis length_take min.cobounded1)
qed

lemma udp_address_typed: "preserves os_typed (udp_setup_server_address ip port)"
  by (simp add: udp_setup_server_address_def preserves_def run_defs typed_effects [unfolded perror_def] split: option.split)

lemma keeps_option: "preserves P a \<Longrightarrow> (\<And>x. preserves P (f x)) \<Longrightarrow> preserves P (case r of None \<Rightarrow> a | Some x \<Rightarrow> f x)"
  by (simp split: option.split)

lemma keeps_die: "preserves os_typed (die e)"
  unfolding die_def by (intro keeps_seq keeps_act keeps_exit) simp

lemmas keeps_rules = keeps_option keeps_seq keeps_act keeps_ret keeps_exit keeps_die setups_typed typed_accept
  udp_address_typed

lemma server_mains_typed:
  "preserves os_typed (tcp_server_main k peer chunks)" "preserves os_typed (un_server_main k failed chunks)"
  "preserves os_typed (udp_server_main k es)"
  "\<forall>p d. Some (Some p, d) \<in> set ds \<longrightarrow> length p \<le> 108 \<Longrightarrow> preserves os_typed (dgram_server_main k addr ds)"
proof -
  show "preserves os_typed (tcp_server_main k peer chunks)"
    unfolding tcp_server_main_def tcp_accept_client_def
    by (intro keeps_rules) (auto simp: tcp_server_typed typed_close split: option.split)
  show "preserves os_typed (un_server_main k failed chunks)"
    unfolding un_server_main_def un_accept_client_def
    by (intro keeps_rules) (auto simp: un_server_typed typed_close)
  show "preserves os_typed (udp_server_main k es)"
    unfolding udp_server_main_def by (intro keeps_rules) (simp add: udp_server_typed)
  show "preserves os_typed (dgram_server_main k addr ds)" if "\<forall>p d. Some (Some p, d) \<in> set ds \<longrightarrow> length p \<le> 108"
    unfolding dgram_server_main_def by (intro keeps_rules) (simp add: dgram_server_typed that)
qed

lemma client_mains_typed:
  "preserves os_typed (tcp_client_main k inp chunks)" "preserves os_typed (un_client_main k inp chunks)"
  "length old \<le> 256 \<Longrightarrow> preserves os_typed (dgram_client_main k old inp r)"
proof -
  show "preserves os_typed (tcp_client_main k inp chunks)" "preserves os_typed (un_client_main k inp chunks)"
    unfolding tcp_client_main_def un_client_main_def
    by (intro keeps_rules; auto simp: tcp_client_typed un_client_typed typed_close)+
  show "preserves os_typed (dgram_client_main k old inp r)" if "length old \<le> 256"
    unfolding dgram_client_main_def dgram_send_message_def sun_path_def
    by (intro keeps_rules) (simp add: typed_close typed_receive send_typed typed_line_dgram that)
qed

text \<open>The server's address is an internet address.\<close>

lemma udp_client_main_typed: "preserves os_typed (udp_client_main k inp es)"
proof -
  have "inet_pton ''127.0.0.1'' = Some (In_addr 127 0 0 1)" by code_simp
  then have "seq (udp_setup_server_address ''127.0.0.1'' PORT) g =
      g (Name_in \<lparr>sin_port = htons (word_of_int PORT), sin_addr = In_addr 127 0 0 1\<rparr>)" for g :: "sockname \<Rightarrow> nat run"
    by (simp add: udp_setup_server_address_def seq_def ret_def fun_eq_iff)
  then show ?thesis
    unfolding udp_client_main_def by (auto intro!: keeps_rules simp: udp_client_typed name_typed_def typed_close)
qed

text \<open>
  C25: the types of all eight echo programs: whichever system calls fail and whatever arrives, a program
  that starts with distinct, well-typed sockets and messages ends in such a state: no descriptor is used
  twice, every socket has names of its own family and a path that fits \<open>sun_path\<close>, only a named stream
  socket listens, and everything sent is a C string of at most 1041 bytes, to a proper address. That the
  senders of datagrams have paths that fit \<open>sun_path\<close>, and that what the buffer of the last client
  holds before \<open>fgets\<close> fits it, are the hypotheses.
\<close>

theorem echo_programs_typed:
  assumes "os_typed s" and "\<forall>p d. Some (Some p, d) \<in> set ds \<longrightarrow> length p \<le> 108" and "length old \<le> DGRAM_BUFFER"
  shows "os_typed (snd (tcp_server_main k peer chunks s)) \<and> os_typed (snd (tcp_client_main k inp chunks s)) \<and>
    os_typed (snd (udp_server_main k es s)) \<and> os_typed (snd (udp_client_main k inp cs s)) \<and>
    os_typed (snd (un_server_main k failed chunks s)) \<and> os_typed (snd (un_client_main k inp chunks s)) \<and>
    os_typed (snd (dgram_server_main k addr ds s)) \<and> os_typed (snd (dgram_client_main k old inp r s))"
  using server_mains_typed client_mains_typed udp_client_main_typed assms
  by (auto simp: preserves_def DGRAM_BUFFER_def)

definition no_sockets :: os where
  "no_sockets = \<lparr>fds = [], files = [], out = [], err = [], wire = []\<rparr>"

definition all_succeed :: kernel where
  "all_succeed = \<lparr>k_socket = True, k_bind = True, k_listen = True, k_connect = True, k_accept = True\<rparr>"

lemma echo_programs_typed_witness:
  "os_typed (snd (dgram_server_main all_succeed [] [Some (Some ''/tmp/c'', ''hi'')] no_sockets)) \<and>
   wire (snd (dgram_server_main all_succeed [] [Some (Some ''/tmp/c'', ''hi'')] no_sockets)) =
     [(0, Some (Name_un ''/tmp/c''), ''Server received: hi'')]"
proof -
  have "os_typed no_sockets" by (simp add: os_typed_def no_sockets_def)
  moreover have "\<forall>p d. Some (Some p, d) \<in> set [Some (Some ''/tmp/c'', ''hi'')] \<longrightarrow> length p \<le> 108" by simp
  moreover have "length [] \<le> DGRAM_BUFFER" by simp
  ultimately have "os_typed (snd (dgram_server_main all_succeed [] [Some (Some ''/tmp/c'', ''hi'')] no_sockets))"
    using echo_programs_typed by blast
  moreover have "wire (snd (dgram_server_main all_succeed [] [Some (Some ''/tmp/c'', ''hi'')] no_sockets)) =
     [(0, Some (Name_un ''/tmp/c''), ''Server received: hi'')]" by code_simp
  ultimately show ?thesis by blast
qed

end
