(* ===== verification/Echo_Datagrams.thy ===== *)
theory Echo_Datagrams
  imports Echo_Theorems
begin

text \<open>
  Sessions between the datagram clients and their servers in which every datagram arrives: which of an
  answer the client keeps, and to whom the UDP client sends.
\<close>

section \<open>UDP\<close>

lemma udp_client_step:
  "fgets 1024 inp = Some (b, rest) \<Longrightarrow> udp_client_loop fd server inp (Some (a, d) # es) s =
     udp_client_loop fd (Name_in a) rest es
       (if take 1023 d = [] then sys_sendto fd server (c_str b) s
        else print (''From server: '' @ c_str (take 1023 d)) (sys_sendto fd server (c_str b) s))"
  by (subst udp_client_loop.simps) (simp add: ECHO_BUFFER_def recv_bytes_def Let_def)

text \<open>What arrives, from whom: the \<open>i\<close>-th datagram is the answer to the \<open>i\<close>-th line.\<close>

lemma udp_client_session:
  assumes "list_all (typed 1023) ls" "length ds = length ls" "list_all (\<lambda>(a, d). d \<noteq> []) ds"
  shows "wire (udp_client_loop c server (concat (lines ls)) (map Some ds) s) =
      wire s @ map2 (\<lambda>a l. (c, Some a, l)) (butlast (server # map (Name_in \<circ> fst) ds)) (lines ls) \<and>
    out (udp_client_loop c server (concat (lines ls)) (map Some ds) s) =
      out s @ map (\<lambda>(a, d). ''From server: '' @ c_str (take 1023 d)) ds"
  using assms
proof (induction ls arbitrary: ds server s)
  case Nil
  then show ?case by (simp add: udp_client_loop.simps fgets_def)
next
  case (Cons l ls)
  obtain a d ds' where ds: "ds = (a, d) # ds'" using Cons.prems(2) by (cases ds) auto
  have "fgets 1024 ((l @ [newline]) @ concat (lines ls)) = Some (l @ [newline], concat (lines ls))"
    by (rule fgets_typed [where n = 1023]) (use Cons.prems in simp_all)
  moreover have "c_str (l @ [newline]) = l @ [newline]" by (rule c_str_typed [where n = 1023]) (use Cons.prems in simp)
  ultimately show ?case using Cons.IH [of ds'] Cons.prems ds by (simp add: udp_client_step)
qed

text \<open>The server on the lines of a client that has the address \<open>me\<close>.\<close>

lemma udp_server_session:
  assumes "list_all (typed 1023) ls"
  shows "wire (udp_server_loop f (map (\<lambda>l. Some (me, l)) (lines ls)) t) =
    wire t @ map (\<lambda>l. (f, Some (Name_in me), ''Server received: '' @ l)) (lines ls)"
proof -
  have "c_str (take 1023 l) = l" if l: "l \<in> set (lines ls)" for l
  proof -
    obtain x where x: "l = x @ [newline]" "typed 1023 x"
      using l assms by (auto simp: lines_def list_all_iff)
    then have "length l \<le> 1023" by (simp add: typed_def)
    then show ?thesis using x c_str_typed by simp
  qed
  then show ?thesis by (simp add: udp_server_wire List.map_filter_def comp_def)
qed

section \<open>Unix datagram sockets\<close>

text \<open>A line without a newline or a NUL, of any length; a longer one is cut where \<open>fgets\<close> stops.\<close>

definition one_line :: "string \<Rightarrow> bool" where
  "one_line m \<longleftrightarrow> newline \<notin> set m \<and> CHR 0x00 \<notin> set m"

lemma one_line_take: "one_line m \<Longrightarrow> one_line (take n m)"
  by (auto simp: one_line_def dest: in_set_takeD)

lemma dgram_line:
  assumes "one_line m"
  shows "dgram_client_line old (m @ [newline]) = take 255 m"
proof -
  let ?b = "take 255 (m @ [newline])"
  have m: "newline \<notin> set m" "CHR 0x00 \<notin> set ?b" using assms by (auto simp: one_line_def dest: in_set_takeD)
  have b: "?b = m @ [newline] \<and> length m < 255 \<or> ?b = take 255 m \<and> 255 \<le> length m" by auto
  have "takeWhile (\<lambda>c. c \<noteq> newline) (m @ [newline]) = m" using m(1) by (subst takeWhile_append2) auto
  then have "\<exists>rest. fgets 256 (m @ [newline]) = Some (?b, rest)" by (auto simp: fgets_def Let_def min_def)
  moreover have "cut_at (strcspn ?b [newline]) ?b = take 255 m"
    using b m(1) by (auto simp: cut_at_def strcspn_def takeWhile_append dest: in_set_takeD)
  ultimately show ?thesis using m(2) by (auto simp: dgram_client_line_def DGRAM_BUFFER_def c_str_id)
qed

lemma take_answer: "CHR 0x00 \<notin> set m \<Longrightarrow> c_str (take n m) = take n m"
  by (intro c_str_id) (auto dest: in_set_takeD)

lemma dgram_server_answers:
  assumes "one_line m" "m \<noteq> []"
  shows "wire (dgram_server_loop f addr [Some (Some p, take 255 m)] t) =
    wire t @ [(f, Some (Name_un p), ''Server received: '' @ take 255 m)]"
proof -
  have "c_str (take 255 m) = take 255 m" using one_line_take [OF assms(1)] by (simp add: one_line_def c_str_id)
  then show ?thesis using assms(2) by (simp add: dgram_server_wire dgram_answers_def map_filter_simps del: dgram_server_loop.simps)
qed

lemma dgram_server_silent: "wire (dgram_server_loop f addr [Some (Some p, [])] t) = wire t"
  by (simp add: dgram_server_wire dgram_answers_def map_filter_simps del: dgram_server_loop.simps)

lemma dgram_client_prints: "CHR 0x00 \<notin> set a \<Longrightarrow> out (dgram_client_receive (Some a) s) =
    out s @ [''Received from server: '' @ take 255 a @ [newline]]"
  by (simp add: dgram_client_receive_def recv_bytes_def DGRAM_BUFFER_def take_answer)

lemma dgram_client_sends:
  assumes "one_line m"
  shows "wire (dgram_send_message c path (dgram_client_line old (m @ [newline])) s) =
    wire s @ [(c, Some (sun_path path), take 255 m)]"
proof -
  have "c_str (take 255 m) = take 255 m" using one_line_take [OF assms] by (simp add: one_line_def c_str_id)
  then show ?thesis using dgram_line [OF assms] by (simp add: dgram_send_message_def)
qed

section \<open>Both\<close>

lemma answers_printed:
  "length as = length ls \<Longrightarrow> CHR 0x00 \<notin> set p \<Longrightarrow> \<forall>l \<in> set ls. CHR 0x00 \<notin> set l \<Longrightarrow>
     map (\<lambda>(a, d). q @ c_str (take n d)) (map2 (\<lambda>a l. (a, p @ l)) as ls) = map (\<lambda>l. q @ take n (p @ l)) ls"
  by (induction as ls rule: list_induct2) (simp_all add: take_answer del: take_append)

text \<open>
  C30: sessions over datagrams that all arrive. The UDP server answers every line of up to 1023 bytes, the
  newline included, with the prefix and the whole line, and the client prints of each answer the first 1023
  bytes and never the rest. The client sends the first line to the server, and every other line to whoever
  sent the datagram before it, the server or not. The Unix client sends of its one line, however long it is, the
  first 255 characters (all of it, if it has no more) without the newline; the server answers what was sent,
  complete, to the path of the client, and the client prints the first 255 bytes of the answer. Only an empty
  line is not answered at all.
\<close>

theorem datagram_sessions:
  assumes "list_all (typed 1023) ls" "length senders = length ls" "one_line m" "m \<noteq> []"
  shows "wire (udp_server_loop f (map (\<lambda>l. Some (me, l)) (lines ls)) t) =
      wire t @ map (\<lambda>l. (f, Some (Name_in me), ''Server received: '' @ l)) (lines ls) \<and>
    out (udp_client_loop c (Name_in srv) (concat (lines ls))
        (map2 (\<lambda>a l. Some (a, ''Server received: '' @ l)) senders (lines ls)) s) =
      out s @ map (\<lambda>l. ''From server: '' @ take 1023 (''Server received: '' @ l)) (lines ls) \<and>
    wire (udp_client_loop c (Name_in srv) (concat (lines ls))
        (map2 (\<lambda>a l. Some (a, ''Server received: '' @ l)) senders (lines ls)) s) =
      wire s @ map2 (\<lambda>a l. (c, Some (Name_in a), l)) (butlast (srv # senders)) (lines ls) \<and>
    wire (dgram_send_message c SERVER_PATH (dgram_client_line old (m @ [newline])) s) =
      wire s @ [(c, Some (sun_path SERVER_PATH), take 255 m)] \<and>
    wire (dgram_server_loop f addr [Some (Some CLIENT_PATH, take 255 m)] t) =
      wire t @ [(f, Some (Name_un CLIENT_PATH), ''Server received: '' @ take 255 m)] \<and>
    out (dgram_client_receive (Some (''Server received: '' @ take 255 m)) s) =
      out s @ [''Received from server: '' @ take 255 (''Server received: '' @ take 255 m) @ [newline]] \<and>
    wire (dgram_server_loop f addr [Some (Some CLIENT_PATH, dgram_client_line old [newline])] t) = wire t"
proof -
  let ?ds = "map2 (\<lambda>a l. (a, ''Server received: '' @ l)) senders (lines ls)"
  have len: "length senders = length (lines ls)" using assms(2) by (simp add: lines_def)
  have ds: "map2 (\<lambda>a l. Some (a, ''Server received: '' @ l)) senders (lines ls) = map Some ?ds"
    by (simp add: comp_def case_prod_beta)
  have nul: "CHR 0x00 \<notin> set l" if "l \<in> set (lines ls)" for l
    using that assms(1) by (auto simp: lines_def list_all_iff typed_def)
  have "length ?ds = length ls" "list_all (\<lambda>(a, d). d \<noteq> []) ?ds"
    using assms(2) by (auto simp: lines_def list_all_iff)
  note u = udp_client_session [OF assms(1) this, of c "Name_in srv" s]
  have fst: "map fst ?ds = senders" using len by (simp add: comp_def case_prod_beta)
  have out: "map (\<lambda>(a, d). ''From server: '' @ c_str (take 1023 d)) ?ds =
      map (\<lambda>l. ''From server: '' @ take 1023 (''Server received: '' @ l)) (lines ls)"
    by (rule answers_printed [OF len]) (use nul in auto)
  have w: "map2 (\<lambda>a l. (c, Some a, l)) (butlast (Name_in srv # map (Name_in \<circ> fst) ?ds)) (lines ls) =
      map2 (\<lambda>a l. (c, Some (Name_in a), l)) (butlast (srv # senders)) (lines ls)"
  proof -
    have "butlast (Name_in srv # map (Name_in \<circ> fst) ?ds) = map Name_in (butlast (srv # senders))"
      using fst by (simp flip: map_map add: map_butlast)
    then show ?thesis by (simp add: zip_map1 comp_def case_prod_beta)
  qed
  have m: "CHR 0x00 \<notin> set (''Server received: '' @ take 255 m)"
    using one_line_take [OF assms(3)] by (simp add: one_line_def)
  have e: "dgram_client_line old [newline] = []" using dgram_line [of "[]" old] by (simp add: one_line_def)
  show ?thesis
    unfolding ds e
    by (intro conjI udp_server_session assms dgram_client_sends dgram_server_answers dgram_server_silent
        dgram_client_prints m u [THEN conjunct1, unfolded w] u [THEN conjunct2, unfolded out])
qed

text \<open>
  A line of 1010 bytes, of which the answer has 4 bytes too many, and a second line that goes to the
  stranger who sent a datagram after the first.
\<close>

lemma datagram_sessions_witness:
  "\<exists>srv stranger. srv \<noteq> stranger \<and>
     wire (udp_client_loop 3 (Name_in srv) (concat (lines [replicate 1009 CHR ''x'', ''hi'']))
       (map2 (\<lambda>a l. Some (a, ''Server received: '' @ l)) [stranger, srv] (lines [replicate 1009 CHR ''x'', ''hi'']))
       \<lparr>fds = [], files = [], out = [], err = [], wire = []\<rparr>) =
     [(3, Some (Name_in srv), replicate 1009 CHR ''x'' @ [newline]), (3, Some (Name_in stranger), ''hi'' @ [newline])]"
proof -
  let ?a = "\<lambda>n. \<lparr>sin_port = 6789, sin_addr = In_addr 127 0 0 n\<rparr>"
  let ?s = "\<lparr>fds = [], files = [], out = [], err = [], wire = []\<rparr> :: os"
  have "list_all (typed 1023) [replicate 1009 CHR ''x'', ''hi'']" "one_line ''hi''" "''hi'' \<noteq> []"
    by (simp_all add: typed_def one_line_def newline_def)
  moreover have "length [?a 2, ?a 1] = length [replicate 1009 CHR ''x'', ''hi'']" by simp
  ultimately have "wire (udp_client_loop 3 (Name_in (?a 1)) (concat (lines [replicate 1009 CHR ''x'', ''hi'']))
       (map2 (\<lambda>a l. Some (a, ''Server received: '' @ l)) [?a 2, ?a 1] (lines [replicate 1009 CHR ''x'', ''hi''])) ?s) =
     wire ?s @ map2 (\<lambda>a l. (3, Some (Name_in a), l)) (butlast (?a 1 # [?a 2, ?a 1])) (lines [replicate 1009 CHR ''x'', ''hi''])"
    by (intro datagram_sessions [THEN conjunct2, THEN conjunct2, THEN conjunct1])
  then show ?thesis by (intro exI [of _ "?a 1"] exI [of _ "?a 2"]) (simp only: lines_simps, simp)
qed

end
