(* ===== verification/Task_Queue.thy ===== *)
theory Task_Queue
  imports C_Lib
begin

text \<open>
  \<open>S8_Message_Queue/exercise_message_queue\<close>: \<open>task_dispatcher.c\<close> puts a task with a priority into a POSIX
  message queue, \<open>task_worker.c\<close> creates the queue and processes the tasks. \<open>mq_send\<close> and \<open>mq_receive\<close> are
  modelled as POSIX describes them: higher priorities first, messages of one priority in the order in
  which they were sent.
\<close>

section \<open>The queue\<close>

definition MSGSZ :: nat where "MSGSZ = 256"

type_synonym message = "nat \<times> string"

record mqueue =
  mq_maxmsg :: nat
  mq_msgsize :: nat
  msgs :: "message list"

definition mq_insert :: "message \<Rightarrow> message list \<Rightarrow> message list" where
  "mq_insert m ms = takeWhile (\<lambda>e. fst m \<le> fst e) ms @ m # dropWhile (\<lambda>e. fst m \<le> fst e) ms"

text \<open>A blocking \<open>mq_send\<close>: the result -1 for a message that is too long, no result while the queue is full.\<close>

datatype send_result = Sent mqueue | Too_long | Queue_full

definition mq_send :: "mqueue \<Rightarrow> string \<Rightarrow> nat \<Rightarrow> send_result" where
  "mq_send q text prio =
     (if mq_msgsize q < length text then Too_long
      else if mq_maxmsg q \<le> length (msgs q) then Queue_full
      else Sent (q\<lparr>msgs := mq_insert (prio, text) (msgs q)\<rparr>))"

text \<open>
  The interface between the two programs, on any representation of the queue: \<open>waiting q p\<close> are the messages
  of priority \<open>p\<close>, oldest first; \<open>take q\<close> is the next message and the rest of the queue.
\<close>

locale prio_queue =
  fixes put :: "'p::linorder \<times> 'm \<Rightarrow> 'q \<Rightarrow> 'q" and take_next :: "'q \<Rightarrow> (('p \<times> 'm) \<times> 'q) option"
    and waiting :: "'q \<Rightarrow> 'p \<Rightarrow> ('p \<times> 'm) list" and ok :: "'q \<Rightarrow> bool"
  assumes put_waiting: "ok q \<Longrightarrow> waiting (put m q) p = (if p = fst m then waiting q p @ [m] else waiting q p)"
    and put_ok: "ok q \<Longrightarrow> ok (put m q)"
    and take_None: "ok q \<Longrightarrow> take_next q = None \<Longrightarrow> waiting q p = []"
    and take_Some: "ok q \<Longrightarrow> take_next q = Some (m, q') \<Longrightarrow>
      ok q' \<and> waiting q p = (if p = fst m then m # waiting q' p else waiting q' p)"
    and take_highest: "ok q \<Longrightarrow> take_next q = Some (m, q') \<Longrightarrow> fst m < p \<Longrightarrow> waiting q p = []"
begin

text \<open>What is sent in the order \<open>ms\<close> waits in that order, priority by priority.\<close>

lemma puts_waiting:
  "ok q \<Longrightarrow> ok (fold put ms q) \<and> waiting (fold put ms q) p = waiting q p @ filter (\<lambda>m. fst m = p) ms"
  by (induction ms arbitrary: q) (auto simp: put_waiting put_ok)

text \<open>Taking everything out gives the highest priority first, each priority in its order.\<close>

inductive drains :: "'q \<Rightarrow> ('p \<times> 'm) list \<Rightarrow> bool" where
  drained: "take_next q = None \<Longrightarrow> drains q []"
| drain: "take_next q = Some (m, q') \<Longrightarrow> drains q' ms \<Longrightarrow> drains q (m # ms)"

lemma drains_order:
  "drains q ms \<Longrightarrow> ok q \<Longrightarrow> sorted_wrt (\<lambda>a b. fst b \<le> fst a) ms \<and> (\<forall>p. filter (\<lambda>m. fst m = p) ms = waiting q p)"
proof (induction rule: drains.induct)
  case (drained q)
  then show ?case using take_None by auto
next
  case (drain q m q' ms)
  note t = take_Some [OF drain.prems drain.hyps(1)]
  have ih: "sorted_wrt (\<lambda>a b. fst b \<le> fst a) ms" "\<And>p. filter (\<lambda>m. fst m = p) ms = waiting q' p"
    using drain.IH t by blast+
  have "fst b \<le> fst m" if "b \<in> set ms" for b
  proof (rule ccontr)
    assume lt: "\<not> fst b \<le> fst m"
    have "b \<in> set (filter (\<lambda>m. fst m = fst b) ms)" using that by simp
    then have "waiting q (fst b) \<noteq> []" using ih(2) t lt by (auto split: if_splits)
    then show False using take_highest [OF drain.prems drain.hyps(1)] lt by auto
  qed
  then show ?case using ih t by auto
qed

end

definition mq_take :: "message list \<Rightarrow> (message \<times> message list) option" where
  "mq_take ms = (case ms of [] \<Rightarrow> None | m # ms' \<Rightarrow> Some (m, ms'))"

definition mq_sorted :: "message list \<Rightarrow> bool" where
  "mq_sorted ms \<longleftrightarrow> sorted_wrt (\<lambda>a b. fst b \<le> fst a) ms"

lemma mq_insert_set: "set (mq_insert m ms) = insert m (set ms)"
proof -
  have "set ms = set (takeWhile (\<lambda>e. fst m \<le> fst e) ms) \<union> set (dropWhile (\<lambda>e. fst m \<le> fst e) ms)"
    by (metis set_append takeWhile_dropWhile_id)
  then show ?thesis by (auto simp: mq_insert_def)
qed

lemma mq_insert_Cons:
  "mq_insert m (e # ms) = (if fst m \<le> fst e then e # mq_insert m ms else m # e # ms)"
  by (simp add: mq_insert_def)

lemma mq_insert_sorted: "mq_sorted ms \<Longrightarrow> mq_sorted (mq_insert m ms)"
proof (induction ms)
  case (Cons e ms)
  then show ?case by (auto simp: mq_sorted_def mq_insert_Cons mq_insert_set)
qed (simp add: mq_sorted_def mq_insert_def)

lemma mq_insert_waiting:
  "mq_sorted ms \<Longrightarrow> filter (\<lambda>e. fst e = p) (mq_insert m ms) =
     filter (\<lambda>e. fst e = p) ms @ (if p = fst m then [m] else [])"
proof (induction ms)
  case (Cons e ms)
  have "filter (\<lambda>x. fst x = fst m) (e # ms) = []" if "\<not> fst m \<le> fst e"
    using Cons.prems that by (auto simp: mq_sorted_def filter_empty_conv)
  with Cons show ?case by (auto simp: mq_insert_Cons mq_sorted_def)
qed (simp add: mq_insert_def)

interpretation mq: prio_queue mq_insert mq_take "\<lambda>ms p. filter (\<lambda>m. fst m = p) ms" mq_sorted
  by unfold_locales (simp_all add: mq_insert_waiting mq_insert_sorted,
    auto simp: mq_take_def mq_sorted_def filter_empty_conv split: list.splits)

section \<open>The dispatcher\<close>

text \<open>
  \<open>argv\<close> has the name of the program, the priority and the task. The queue is \<open>None\<close> when \<open>mq_open\<close> fails.
  \<open>prio\<close> is an \<open>unsigned int\<close>. The result is the exit status and the queue, or \<open>None\<close> while \<open>mq_send\<close> blocks.
\<close>

definition dispatcher :: "string list \<Rightarrow> mqueue option \<Rightarrow> (nat \<times> mqueue option) option" where
  "dispatcher argv mq =
     (if length argv \<noteq> 3 then Some (1, mq)
      else (let prio = unat (atoi (argv ! 1)); task = argv ! 2 in
        if 31 < prio then Some (1, mq)
        else case mq of
          None \<Rightarrow> Some (1, None)
        | Some q \<Rightarrow> (case mq_send q (task @ [CHR 0x00]) prio of
            Too_long \<Rightarrow> Some (1, mq)
          | Queue_full \<Rightarrow> None
          | Sent q' \<Rightarrow> Some (0, Some q'))))"

section \<open>The worker\<close>

text \<open>The queue the worker creates when there is none.\<close>

definition new_queue :: mqueue where
  "new_queue = \<lparr>mq_maxmsg = 10, mq_msgsize = MSGSZ, msgs = []\<rparr>"

definition worker_open :: "mqueue option \<Rightarrow> mqueue" where
  "worker_open mq = (case mq of None \<Rightarrow> new_queue | Some q \<Rightarrow> q)"

definition task_line :: "nat \<Rightarrow> string \<Rightarrow> string" where
  "task_line prio text = ''Processing task (Priority: '' @ dec prio @ ''): '' @ c_str text @ [newline]"

text \<open>
  One round of the loop on the next message: \<open>buffer[n] = 0\<close> and the line printed. The result is
  \<open>None\<close> when \<open>n\<close> is not an index of \<open>buffer\<close>.
\<close>

definition worker_round :: "message \<Rightarrow> string option" where
  "worker_round m =
     (let (prio, text) = m; n = length text in
      if n < MSGSZ then Some (task_line prio (text @ [CHR 0x00])) else None)"

text \<open>
  The rounds until the queue is empty, where \<open>mq_receive\<close> waits: the lines printed, and \<open>None\<close> as soon as
  a round writes outside the buffer.
\<close>

fun worker_loop :: "message list \<Rightarrow> string list option" where
  "worker_loop [] = Some []"
| "worker_loop (m # ms) = Option.bind (worker_round m) (\<lambda>l. map_option ((#) l) (worker_loop ms))"

text \<open>On \<open>SIGINT\<close>, and after an error of \<open>mq_receive\<close>: the queue is removed, the exit status is 0.\<close>

definition cleanup_and_exit :: "mqueue option \<Rightarrow> string list \<times> nat \<times> mqueue option" where
  "cleanup_and_exit mq = ([[newline] @ ''Worker: Queue closed and removed. Exiting.'' @ [newline]], 0, None)"

definition QUEUE_NAME :: string where "QUEUE_NAME = ''/my_task_queue''"

text \<open>
  A run of the worker until it is interrupted with all tasks processed: \<open>opened\<close> is the success of
  \<open>mq_open\<close>, \<open>others\<close> what the dispatchers do with the queue until then. The result: the text printed, the
  exit status, and the queue that is left.
\<close>

definition worker_main :: "bool \<Rightarrow> (mqueue \<Rightarrow> mqueue) \<Rightarrow> mqueue option \<Rightarrow>
    (string list \<times> nat \<times> mqueue option) option" where
  "worker_main opened others mq =
     (if \<not> opened then Some ([], 1, mq)
      else (let q = others (worker_open mq);
                start = [''Worker: Listening on queue '' @ QUEUE_NAME @ [newline],
                  ''Worker: Queue '' @ QUEUE_NAME @ '' opened. Waiting 5s for tasks...'' @ [newline]] in
        map_option (\<lambda>lines. let (bye, status, mq') = cleanup_and_exit (Some (q\<lparr>msgs := []\<rparr>))
            in (start @ lines @ bye, status, mq')) (worker_loop (msgs q))))"

section \<open>Properties\<close>

lemma mq_drains: "mq.drains ms ms"
proof (induction ms)
  case Nil
  show ?case by (rule mq.drained) (simp add: mq_take_def)
next
  case (Cons m ms)
  show ?case by (rule mq.drain [OF _ Cons.IH]) (simp add: mq_take_def)
qed

lemma top_priority:
  "sorted_wrt (\<lambda>a b. fst b \<le> fst a) ms \<Longrightarrow> \<forall>m \<in> set ms. fst m < Suc n \<Longrightarrow>
     ms = filter (\<lambda>m. fst m = n) ms @ filter (\<lambda>m. fst m < n) ms"
proof (induction ms)
  case (Cons m ms)
  show ?case
  proof (cases "fst m = n")
    case False
    then have "fst m < n" using Cons.prems by simp
    moreover have "filter (\<lambda>m. fst m = n) ms = []" "filter (\<lambda>m. fst m < n) ms = ms"
      using Cons.prems calculation by (fastforce simp: filter_empty_conv filter_id_conv)+
    ultimately show ?thesis by simp
  qed (use Cons in simp)
qed simp

text \<open>A list in descending order is its parts of one priority after the other.\<close>

lemma by_priority:
  assumes "sorted_wrt (\<lambda>a b. fst b \<le> fst a) ms" "\<forall>m \<in> set ms. fst m < n"
  shows "ms = concat (map (\<lambda>p. filter (\<lambda>m. fst m = p) ms) (rev [0..<n]))"
  using assms
proof (induction n arbitrary: ms)
  case (Suc n)
  let ?low = "filter (\<lambda>m. fst m < n) ms"
  have split: "ms = filter (\<lambda>m. fst m = n) ms @ ?low"
    by (rule top_priority [OF Suc.prems])
  have "?low = concat (map (\<lambda>p. filter (\<lambda>m. fst m = p) ?low) (rev [0..<n]))"
    by (rule Suc.IH) (use Suc.prems in \<open>auto simp: sorted_wrt_filter\<close>)
  also have "\<dots> = concat (map (\<lambda>p. filter (\<lambda>m. fst m = p) ms) (rev [0..<n]))"
    by (rule arg_cong [where f = concat]) (auto intro!: filter_cong)
  finally show ?case using split by simp
next
  case 0
  then show ?case by (cases ms) auto
qed

text \<open>The dispatcher run once for every task.\<close>

definition argv_of :: "message \<Rightarrow> string list" where
  "argv_of m = [''task_dispatcher'', dec (fst m), snd m]"

fun dispatch_all :: "message list \<Rightarrow> mqueue \<Rightarrow> mqueue option" where
  "dispatch_all [] q = Some q"
| "dispatch_all (m # ms) q = (case dispatcher (argv_of m) (Some q) of
      Some (0, Some q') \<Rightarrow> dispatch_all ms q' | _ \<Rightarrow> None)"

definition with_nul :: "message \<Rightarrow> message" where
  "with_nul m = (fst m, snd m @ [CHR 0x00])"

definition good_task :: "message \<Rightarrow> bool" where
  "good_task m \<longleftrightarrow> fst m \<le> 31 \<and> length (snd m) \<le> 254 \<and> CHR 0x00 \<notin> set (snd m)"

lemma unat_atoi_dec: "n \<le> 31 \<Longrightarrow> unat (atoi (dec n)) = n"
  using atoi_dec [of n] by (simp add: atoi_def strtol_dec [of "[]", simplified] unat_of_nat)

lemma dispatcher_sends:
  assumes "fst m \<le> 31" "length (snd m) < mq_msgsize q" "length (msgs q) < mq_maxmsg q"
  shows "dispatcher (argv_of m) (Some q) = Some (0, Some (q\<lparr>msgs := mq_insert (with_nul m) (msgs q)\<rparr>))"
  using assms by (simp add: dispatcher_def argv_of_def unat_atoi_dec mq_send_def with_nul_def)

lemma mq_insert_length: "length (mq_insert m ms) = Suc (length ms)"
proof -
  have "length (takeWhile P ms) + length (dropWhile P ms) = length ms" for P
    by (metis length_append takeWhile_dropWhile_id)
  then show ?thesis by (simp add: mq_insert_def)
qed

lemma dispatch_all_msgs:
  assumes "list_all good_task ts" "length (msgs q) + length ts \<le> mq_maxmsg q" "mq_msgsize q = 256"
  shows "dispatch_all ts q = Some (q\<lparr>msgs := fold mq_insert (map with_nul ts) (msgs q)\<rparr>)"
  using assms
proof (induction ts arbitrary: q)
  case (Cons m ts)
  then show ?case by (simp add: dispatcher_sends good_task_def mq_insert_length)
qed simp

lemma worker_loop_lines:
  "list_all (\<lambda>m. length (snd m) < MSGSZ) ms \<Longrightarrow>
     worker_loop ms = Some (map (\<lambda>m. task_line (fst m) (snd m @ [CHR 0x00])) ms)"
  by (induction ms) (auto simp: worker_round_def)

text \<open>
  C19: tasks reach the worker and are processed by priority: when the dispatcher is run for at most ten
  tasks of priorities 0 to 31 and at most 254 characters, every run succeeds, and the worker then
  prints exactly these tasks, the highest priority first, tasks of one priority in the order in which
  they were dispatched.
\<close>

theorem tasks_by_priority:
  assumes "list_all good_task ts" "length ts \<le> 10"
  shows "\<exists>q. dispatch_all ts (worker_open None) = Some q \<and> worker_main True (\<lambda>_. q) None =
    Some ([''Worker: Listening on queue /my_task_queue'' @ [newline],
        ''Worker: Queue /my_task_queue opened. Waiting 5s for tasks...'' @ [newline]] @
      map (\<lambda>(p, t). ''Processing task (Priority: '' @ dec p @ ''): '' @ t @ [newline])
        (concat (map (\<lambda>p. filter (\<lambda>m. fst m = p) ts) (rev [0..<32]))) @
      [[newline] @ ''Worker: Queue closed and removed. Exiting.'' @ [newline]], 0, None)"
proof -
  let ?ms = "fold mq_insert (map with_nul ts) []"
  let ?line = "\<lambda>m. task_line (fst m) (snd m @ [CHR 0x00])"
  have q: "dispatch_all ts (worker_open None) = Some (new_queue\<lparr>msgs := ?ms\<rparr>)"
    using dispatch_all_msgs [of ts new_queue] assms by (simp add: worker_open_def new_queue_def MSGSZ_def)
  have w: "mq_sorted ?ms \<and> filter (\<lambda>m. fst m = p) ?ms = map with_nul (filter (\<lambda>m. fst m = p) ts)" for p
    using mq.puts_waiting [of "[]" "map with_nul ts" p]
    by (simp add: mq_sorted_def filter_map comp_def with_nul_def)
  have set: "set ?ms = with_nul ` set ts"
  proof -
    have "set (fold mq_insert xs ys) = set xs \<union> set ys" for xs ys
      by (induction xs arbitrary: ys) (auto simp: mq_insert_set)
    then show ?thesis by simp
  qed
  have "sorted_wrt (\<lambda>a b. fst b \<le> fst a) ?ms" using w mq.drains_order [OF mq_drains] by blast
  moreover have "\<forall>m \<in> set ?ms. fst m < 32"
    using set assms(1) by (auto simp: list_all_iff good_task_def with_nul_def)
  ultimately have ms: "?ms = map with_nul (concat (map (\<lambda>p. filter (\<lambda>m. fst m = p) ts) (rev [0..<32])))"
    using by_priority [of ?ms 32] w by (simp add: map_concat comp_def)
  have "list_all (\<lambda>m. length (snd m) < MSGSZ) ?ms"
    using set assms(1) by (auto simp: list_all_iff good_task_def with_nul_def MSGSZ_def)
  then have "worker_loop ?ms = Some (map ?line ?ms)" by (rule worker_loop_lines)
  moreover have "?line (with_nul m) = (case m of (p, t) \<Rightarrow>
      ''Processing task (Priority: '' @ dec p @ ''): '' @ t @ [newline])" if "m \<in> set ts" for m
  proof -
    have "CHR 0x00 \<notin> set (snd m)" using that assms(1) by (auto simp: list_all_iff good_task_def)
    then have "c_str (snd m @ [CHR 0x00, CHR 0x00]) = snd m" by (rule c_str_terminated)
    then show ?thesis by (simp add: task_line_def with_nul_def case_prod_beta)
  qed
  ultimately have "worker_loop ?ms =
    Some (map (\<lambda>(p, t). ''Processing task (Priority: '' @ dec p @ ''): '' @ t @ [newline])
      (concat (map (\<lambda>p. filter (\<lambda>m. fst m = p) ts) (rev [0..<32]))))"
    unfolding ms by (auto intro!: map_cong)
  with q show ?thesis by (simp add: worker_main_def cleanup_and_exit_def QUEUE_NAME_def)
qed

lemma tasks_by_priority_witness:
  "\<exists>q text. dispatch_all [(2, ''a''), (9, ''b''), (2, ''c'')] (worker_open None) = Some q \<and>
    worker_main True (\<lambda>_. q) None = Some (text, 0, None) \<and> take 3 (drop 2 text) =
      [''Processing task (Priority: 9): b'' @ [newline], ''Processing task (Priority: 2): a'' @ [newline],
       ''Processing task (Priority: 2): c'' @ [newline]]"
proof -
  let ?ts = "[(2, ''a''), (9, ''b''), (2, ''c'')] :: message list"
  have "list_all good_task ?ts" by (simp add: good_task_def)
  then obtain q where q: "dispatch_all ?ts (worker_open None) = Some q"
    "worker_main True (\<lambda>_. q) None = Some ([''Worker: Listening on queue /my_task_queue'' @ [newline],
        ''Worker: Queue /my_task_queue opened. Waiting 5s for tasks...'' @ [newline]] @
      map (\<lambda>(p, t). ''Processing task (Priority: '' @ dec p @ ''): '' @ t @ [newline])
        (concat (map (\<lambda>p. filter (\<lambda>m. fst m = p) ?ts) (rev [0..<32]))) @
      [[newline] @ ''Worker: Queue closed and removed. Exiting.'' @ [newline]], 0, None)"
    using tasks_by_priority [of ?ts] by auto
  have "concat (map (\<lambda>p. filter (\<lambda>m. fst m = p) ?ts) (rev [0..<32])) = [(9, ''b''), (2, ''a''), (2, ''c'')]"
    by code_simp
  moreover have "dec 9 = ''9''" "dec 2 = ''2''" by code_simp+
  ultimately show ?thesis by (intro exI conjI) (rule q, rule q, simp)
qed

text \<open>
  C27: how long a task may be, with the queue that the worker makes: the dispatcher refuses a task of
  more than 255 characters with status 1, and a task of at most 254 is printed by the worker; but a
  task of exactly 255 is accepted, fills the message with its 256 bytes, and makes the worker write the
  terminating zero one place beyond the end of its buffer.
\<close>

theorem task_length_limits:
  assumes "prio \<le> 31"
  shows "case dispatcher (argv_of (prio, task)) (Some new_queue) of
      None \<Rightarrow> False
    | Some (0, Some q) \<Rightarrow> length task \<le> 255 \<and>
        (if length task = 255 then worker_loop (msgs q) = None
         else worker_loop (msgs q) = Some [task_line prio task])
    | Some (status, mq) \<Rightarrow> 255 < length task \<and> status = 1 \<and> mq = Some new_queue"
proof (cases "length task \<le> 255")
  case True
  have "dispatcher (argv_of (prio, task)) (Some new_queue) =
      Some (0, Some (new_queue\<lparr>msgs := mq_insert (with_nul (prio, task)) []\<rparr>))"
    using dispatcher_sends [of "(prio, task)" new_queue] assms True by (simp add: new_queue_def MSGSZ_def)
  moreover have "c_str (task @ [CHR 0x00, CHR 0x00]) = c_str task"
    by (induction task) (auto simp: c_str_def)
  ultimately show ?thesis using True
    by (simp add: mq_insert_def with_nul_def worker_round_def MSGSZ_def task_line_def)
next
  case False
  then show ?thesis using assms
    by (simp add: dispatcher_def argv_of_def unat_atoi_dec mq_send_def new_queue_def MSGSZ_def)
qed

lemma task_length_limits_witness:
  "case dispatcher (argv_of (3, replicate 255 CHR ''x'')) (Some new_queue) of
      Some (0, Some q) \<Rightarrow> worker_loop (msgs q) = None | _ \<Rightarrow> False"
  using task_length_limits [of 3 "replicate 255 CHR ''x''"]
  by (simp split: option.splits prod.splits nat.splits)

end
