(* ===== verification/Signals.thy ===== *)
theory Signals
  imports C_Lib
begin

text \<open>
  The programs of \<open>S5_IPC_Signal\<close>: three that count signals around \<open>pause\<close>, of which the third has a parent
  that sends them, and one that waits in \<open>select\<close> for signals and for lines of input. When a handler
  runs is the parameter of the models.
\<close>

section \<open>Counting signals\<close>

text \<open>
  One round of the loop: \<open>a\<close> runs of the handler before \<open>pause\<close> returns, \<open>b\<close> between the first \<open>printf\<close> and the
  test, \<open>c\<close> between the test and the last \<open>printf\<close>. The result is what has been printed, and whether the
  program has called \<open>_exit (0)\<close>; at the end of the script it waits in \<open>pause\<close>.
\<close>

type_synonym round = "nat \<times> nat \<times> nat"

fun pause_loop :: "(nat \<Rightarrow> string) \<Rightarrow> (nat \<Rightarrow> string) \<Rightarrow> (nat \<Rightarrow> bool) \<Rightarrow> nat \<Rightarrow> round list \<Rightarrow> string list \<times> bool" where
  "pause_loop report bye stop g [] = ([], False)"
| "pause_loop report bye stop g ((a, b, c) # rs) =
     (if stop (g + a + b) then ([report (g + a), bye (g + a + b + c)], True)
      else (let (printed, ended) = pause_loop report bye stop (g + a + b) rs
            in (report (g + a) # printed, ended)))"

definition greet :: "string \<Rightarrow> string list \<times> 'a \<Rightarrow> string list \<times> 'a" where
  "greet text r = ((text @ [newline]) # fst r, snd r)"

definition count_sigint :: "round list \<Rightarrow> string list \<times> bool" where
  "count_sigint rs = greet ''Program is running. Press Ctrl+C to send signal SIGINT.''
     (pause_loop (\<lambda>n. ''SIGINT received  '' @ dec n @ '' times.'' @ [newline])
       (\<lambda>n. ''Program exit. SIGINT received '' @ dec n @ '' times.'' @ [newline]) (\<lambda>n. n = 3) 0 rs)"

definition count_sigalrm :: "round list \<Rightarrow> string list \<times> bool" where
  "count_sigalrm rs = greet ''Program is running.''
     (pause_loop (\<lambda>n. ''SIGALRM. Timer: '' @ dec n @ '' seconds.'' @ [newline])
       (\<lambda>n. ''Program exit. SIGARLM received '' @ dec n @ '' times.'' @ [newline]) (\<lambda>n. 10 \<le> n) 0 rs)"

text \<open>The child of \<open>ex3_ipc_sigusr1.c\<close>.\<close>

definition count_sigusr1 :: "round list \<Rightarrow> string list \<times> bool" where
  "count_sigusr1 = pause_loop (\<lambda>n. ''Child: SIGUSR1 count '' @ dec n @ ''.'' @ [newline])
     (\<lambda>n. ''Child: reached '' @ dec n @ '' signals. Exiting...'' @ [newline]) (\<lambda>n. 5 \<le> n) 0"

text \<open>The count at the \<open>k\<close>-th test, and the count after all rounds.\<close>

definition tested :: "round list \<Rightarrow> nat \<Rightarrow> nat" where
  "tested rs k = sum_list (map (\<lambda>(a, b, c). a + b) (take (Suc k) rs))"

definition total :: "round list \<Rightarrow> nat" where
  "total rs = sum_list (map (\<lambda>(a, b, c). a + b) rs)"

lemma pause_loop_ends:
  "snd (pause_loop report bye stop g rs) \<longleftrightarrow> (\<exists>k < length rs. stop (g + tested rs k))"
proof (induction rs arbitrary: g)
  case (Cons r rs)
  obtain a b c where r: "r = (a, b, c)" by (cases r)
  have "(\<exists>k < length (r # rs). stop (g + tested (r # rs) k)) \<longleftrightarrow>
      stop (g + a + b) \<or> (\<exists>k < length rs. stop (g + a + b + tested rs k))"
    by (subst Ex_less_Suc2 [of "length rs", folded length_Cons [of r rs]])
      (simp add: tested_def r add.assoc)
  with Cons [of "g + a + b"] r show ?case by (simp add: case_prod_beta)
qed simp

lemma tested_le: "tested rs k \<le> total rs"
proof -
  have "total rs = tested rs k + sum_list (map (\<lambda>(a, b, c). a + b) (drop (Suc k) rs))"
    unfolding total_def tested_def by (metis append_take_drop_id map_append sum_list_append)
  then show ?thesis by simp
qed

lemma tested_last: "rs \<noteq> [] \<Longrightarrow> tested rs (length rs - 1) = total rs"
  by (cases rs) (simp_all add: tested_def total_def)

lemma pause_loop_reaches:
  "0 < n \<Longrightarrow> snd (pause_loop report bye ((\<le>) n) 0 rs) \<longleftrightarrow> n \<le> total rs"
proof -
  assume n: "0 < n"
  have "n \<le> total rs" if "n \<le> tested rs k" for k using that tested_le [of rs k] by simp
  moreover have "\<exists>k < length rs. n \<le> tested rs k" if "n \<le> total rs"
  proof -
    have "rs \<noteq> []" using that n by (auto simp: total_def)
    then show ?thesis using that tested_last [of rs] by (intro exI [of _ "length rs - 1"]) simp
  qed
  ultimately show ?thesis by (auto simp: pause_loop_ends)
qed

text \<open>
  The two programs that test \<open>g_count >= MAX_TIME\<close> exit exactly when the handler has run often enough
  by one of the tests, however the signals are bunched; the one that tests \<open>g_count == MAX_TIME\<close> exits
  exactly when one of its tests finds the count at 3, and therefore never again once two signals
  between two tests have taken the count from 2 to 4.
\<close>

theorem signal_counts:
  "(snd (count_sigalrm rs) \<longleftrightarrow> 10 \<le> total rs) \<and> (snd (count_sigusr1 rs) \<longleftrightarrow> 5 \<le> total rs) \<and>
   (snd (count_sigint rs) \<longleftrightarrow> 3 \<in> tested rs ` {..<length rs}) \<and>
   \<not> snd (count_sigint ((1, 0, 0) # (1, 0, 0) # (2, 0, 0) # rs))"
proof -
  have "tested ((1, 0, 0) # (1, 0, 0) # (2, 0, 0) # rs) k \<noteq> 3" for k
    by (cases k; cases "k - 1"; cases "k - 2") (auto simp: tested_def)
  moreover have i: "snd (count_sigint rs) \<longleftrightarrow> (\<exists>k < length rs. tested rs k = 3)" for rs
    by (simp add: count_sigint_def greet_def pause_loop_ends)
  moreover have "snd (count_sigalrm rs) \<longleftrightarrow> 10 \<le> total rs" "snd (count_sigusr1 rs) \<longleftrightarrow> 5 \<le> total rs"
    by (simp_all add: count_sigalrm_def count_sigusr1_def greet_def pause_loop_reaches)
  ultimately show ?thesis unfolding i by (simp only: image_iff) (force simp: Bex_def)
qed

section \<open>The parent of ex3\<close>

text \<open>
  The child before \<open>signal\<close>, in its loop with the count and whether a \<open>SIGUSR1\<close> is pending (a second one is
  not kept), after \<open>_exit (0)\<close> with the count, or killed by a signal. The parent has sent \<open>i\<close> signals,
  has sent \<open>SIGTERM\<close>, or has returned from \<open>wait\<close>.
\<close>

datatype child = Starting | Counting nat bool | Gone nat | Killed
datatype parent = Sending nat | Terminated | Reaped

definition sigusr1 :: "child \<Rightarrow> child" where
  "sigusr1 c = (case c of Starting \<Rightarrow> Killed | Counting n p \<Rightarrow> Counting n True | Gone n \<Rightarrow> Gone n | Killed \<Rightarrow> Killed)"

definition sigterm :: "child \<Rightarrow> child" where
  "sigterm c = (case c of Gone n \<Rightarrow> Gone n | _ \<Rightarrow> Killed)"

inductive family_step :: "parent \<times> child \<Rightarrow> parent \<times> child \<Rightarrow> bool" where
  send_usr1: "i < 5 \<Longrightarrow> family_step (Sending i, c) (Sending (Suc i), sigusr1 c)"
| send_term: "family_step (Sending 5, c) (Terminated, sigterm c)"
| wait_child: "c = Killed \<or> c = Gone n \<Longrightarrow> family_step (Terminated, c) (Reaped, c)"
| install_handler: "family_step (p, Starting) (p, Counting 0 False)"
| run_handler: "family_step (p, Counting n True) (p, if 5 \<le> Suc n then Gone (Suc n) else Counting (Suc n) False)"

inductive_cases family_stepE: "family_step s t"

definition family_inv :: "parent \<times> child \<Rightarrow> bool" where
  "family_inv s \<longleftrightarrow> (let sent = (case fst s of Sending i \<Rightarrow> i | _ \<Rightarrow> 5) in
     sent \<le> 5 \<and> (case snd s of
        Counting n p \<Rightarrow> n + of_bool p \<le> sent \<and> n < 5 \<and> (\<exists>i. fst s = Sending i)
      | Gone n \<Rightarrow> n = 5 \<and> sent = 5
      | Starting \<Rightarrow> \<exists>i. fst s = Sending i
      | Killed \<Rightarrow> True))"

lemma family_inv_step: "family_inv s \<Longrightarrow> family_step s t \<Longrightarrow> family_inv t"
  by (erule family_stepE)
    (auto simp: family_inv_def sigusr1_def sigterm_def Let_def split: child.splits parent.splits if_splits)

interpretation family_sys: invariant_system "\<lambda>s. s = (Sending 0, Starting)" family_step family_inv
  by unfold_locales (simp add: family_inv_def, erule (1) family_inv_step)

text \<open>
  The parent's \<open>wait\<close> never blocks for good: once it has sent \<open>SIGTERM\<close> the child has ended, by itself
  only after all five signals; nothing else is left to happen but the return of \<open>wait\<close>.
\<close>

lemma parent_returns:
  assumes "reach (\<lambda>s. s = (Sending 0, Starting)) family_step (Terminated, c)"
  shows "(c = Killed \<or> c = Gone 5) \<and> family_step (Terminated, c) (Reaped, c)"
  using family_sys.reach_inv [OF assms] by (auto simp: family_inv_def intro: wait_child split: child.splits)

section \<open>Signals and input with select\<close>

text \<open>
  A round of the loop of \<open>ex4_select.c\<close>: which signals the handler gets before \<open>select\<close> waits, and how \<open>select\<close>
  returns: interrupted by signals, with another error, or because standard input can be read.
\<close>

datatype wakeup = Interrupted bool bool | Failed | Readable string

type_synonym sel_round = "(bool \<times> bool) \<times> wakeup"

text \<open>The result: what is printed to standard output and the exit status, \<open>None\<close> while \<open>select\<close> waits at the end of the script.\<close>

fun select_loop :: "bool \<Rightarrow> bool \<Rightarrow> sel_round list \<Rightarrow> string list \<times> nat option" where
  "select_loop g_sigint g_sigterm [] = ([], None)"
| "select_loop g_sigint g_sigterm (((int1, term1), w) # rs) =
     (let gi = g_sigint \<or> int1; gt = g_sigterm \<or> term1 in
      case w of
        Failed \<Rightarrow> ([], Some 1)
      | Interrupted int2 term2 \<Rightarrow>
          (let gi' = gi \<or> int2; gt' = gt \<or> term2;
               line = (if gi' then [''SIGINT received.'' @ [newline]] else []) in
           if gt' then (line @ [''SIGTERM received. Exiting...'' @ [newline], ''program is exiting.'' @ [newline]], Some 0)
           else (let (printed, st) = select_loop False gt' rs in (line @ printed, st)))
      | Readable inp \<Rightarrow>
          (let line = (case fgets 256 inp of None \<Rightarrow> []
                 | Some (buffer, _) \<Rightarrow> [''You inputed: '' @
                     cut_at (strcspn (c_str buffer) [newline]) (c_str buffer) @ [newline]]);
               (printed, st) = select_loop gi gt rs in
           (line @ printed, st)))"

definition select_main :: "sel_round list \<Rightarrow> string list \<times> nat option" where
  "select_main rs = greet ''Program is running. Please send SIGINT, SIGTERM or mesage.'' (select_loop False False rs)"

definition interrupts :: "wakeup \<Rightarrow> bool" where
  "interrupts w \<longleftrightarrow> (case w of Interrupted i t \<Rightarrow> True | _ \<Rightarrow> False)"

text \<open>Whether the handler has got \<open>SIGTERM\<close> by the end of these rounds.\<close>

definition term_seen :: "sel_round list \<Rightarrow> bool" where
  "term_seen rs \<longleftrightarrow> list_ex (\<lambda>((i, t), w). t \<or> (case w of Interrupted i' t' \<Rightarrow> t' | _ \<Rightarrow> False)) rs"

lemma select_loop_exits:
  "list_all (\<lambda>r. snd r \<noteq> Failed) rs \<Longrightarrow> snd (select_loop gi gt rs) = Some 0 \<longleftrightarrow>
     (\<exists>k < length rs. interrupts (snd (rs ! k)) \<and> (gt \<or> term_seen (take (Suc k) rs)))"
proof (induction gi gt rs rule: select_loop.induct)
  case (2 gi gt i1 t1 w rs)
  have step: "(\<exists>k < length (((i1, t1), w) # rs). interrupts (snd ((((i1, t1), w) # rs) ! k)) \<and>
        (gt \<or> term_seen (take (Suc k) (((i1, t1), w) # rs)))) \<longleftrightarrow>
      interrupts w \<and> (gt \<or> term_seen [((i1, t1), w)]) \<or>
      (\<exists>k < length rs. interrupts (snd (rs ! k)) \<and>
        (gt \<or> term_seen [((i1, t1), w)] \<or> term_seen (take (Suc k) rs)))"
    by (subst Ex_less_Suc2 [of "length rs", folded length_Cons [of "((i1, t1), w)" rs]])
      (auto simp: term_seen_def)
  show ?case
  proof (cases w)
    case (Interrupted i2 t2)
    then show ?thesis using 2 step by (auto simp: Let_def case_prod_beta interrupts_def term_seen_def)
  next
    case (Readable inp)
    then show ?thesis using 2 step by (auto simp: Let_def case_prod_beta interrupts_def term_seen_def)
  qed (use 2 in simp)
qed simp

text \<open>
  C28: as long as \<open>select\<close> has no error other than \<open>EINTR\<close>, the program ends exactly when \<open>SIGTERM\<close> has been
  handled by the time a signal interrupts \<open>select\<close>, and then with status 0. A \<open>SIGTERM\<close> that is handled
  outside \<open>select\<close> does not end the program: it goes on answering input until another signal comes.
\<close>

theorem select_ends:
  assumes "list_all (\<lambda>r. snd r \<noteq> Failed) rs"
  shows "(snd (select_main rs) = Some 0 \<longleftrightarrow>
      (\<exists>k < length rs. interrupts (snd (rs ! k)) \<and> term_seen (take (Suc k) rs))) \<and>
    snd (select_main rs) \<in> {None, Some 0}"
proof -
  have "snd (select_loop gi gt rs) \<in> {None, Some 0}" for gi gt
    using assms by (induction gi gt rs rule: select_loop.induct)
      (auto simp: Let_def case_prod_beta split: wakeup.splits if_splits)
  moreover have "snd (select_loop False False rs) = Some 0 \<longleftrightarrow>
      (\<exists>k < length rs. interrupts (snd (rs ! k)) \<and> term_seen (take (Suc k) rs))"
    using select_loop_exits [OF assms, of False False] by simp
  moreover have "snd (select_main rs) = snd (select_loop False False rs)" by (simp add: select_main_def greet_def)
  ultimately show ?thesis by (metis (no_types))
qed

lemma select_ends_witness:
  "snd (select_main [((False, True), Readable (''hi'' @ [newline]))]) = None \<and>
   snd (select_main [((False, True), Readable (''hi'' @ [newline])), ((False, False), Interrupted True False)]) = Some 0"
  using select_ends [of "[((False, True), Readable (''hi'' @ [newline]))]"]
    select_ends [of "[((False, True), Readable (''hi'' @ [newline])), ((False, False), Interrupted True False)]"]
  by (auto simp: interrupts_def term_seen_def)

end
