(* ===== verification/Processes.thy ===== *)
theory Processes
  imports C_Lib
begin

unbundle bit_operations_syntax

text \<open>
  \<open>fork.c\<close> and \<open>exec.c\<close> of \<open>S3_Process\<close>: a parent that prints how its child ended. The numbers of the
  processes, and what the program that \<open>execl\<close> starts does, are parameters; the lines printed are
  messages, as their texts are not ASCII.
\<close>

section \<open>The status of a child\<close>

datatype ending = Exited int | Signalled nat

text \<open>The encoding of the status that \<open>wait\<close> stores, and the macros that read it (Linux).\<close>

definition wait_status :: "ending \<Rightarrow> int32" where
  "wait_status e = (case e of
      Exited code \<Rightarrow> push_bit 8 (word_of_int code AND 0xFF)
    | Signalled sig \<Rightarrow> word_of_nat sig AND 0x7F)"

definition WIFEXITED :: "int32 \<Rightarrow> bool" where
  "WIFEXITED st \<longleftrightarrow> st AND 0x7F = 0"

definition WEXITSTATUS :: "int32 \<Rightarrow> int32" where
  "WEXITSTATUS st = drop_bit 8 st AND 0xFF"

lemma byte_masks: "(0xFF :: int32) = mask 8" "(0x7F :: int32) = mask 7"
  by (simp_all add: mask_eq_exp_minus_1)

lemma wifexited_status: "WIFEXITED (wait_status (Exited code))"
proof -
  have "push_bit 8 (word_of_int code AND mask 8) AND mask 7 = (0 :: int32)"
    by (rule bit_word_eqI) (simp add: bit_simps)
  then show ?thesis by (simp add: WIFEXITED_def wait_status_def byte_masks del: mask_eq_exp_minus_1)
qed

lemma wexitstatus_status: "uint (WEXITSTATUS (wait_status (Exited code))) = code mod 256"
proof -
  have "drop_bit 8 (push_bit 8 (word_of_int code AND mask 8)) AND mask 8 = (word_of_int code AND mask 8 :: int32)"
    by (rule bit_word_eqI) (auto simp: bit_simps)
  then have "WEXITSTATUS (wait_status (Exited code)) = take_bit 8 (word_of_int code)"
    unfolding WEXITSTATUS_def wait_status_def byte_masks by (simp add: take_bit_eq_mask)
  then have "uint (WEXITSTATUS (wait_status (Exited code))) = take_bit 8 (uint (word_of_int code :: int32))"
    by (simp only: unsigned_take_bit_eq)
  then show ?thesis by (simp add: uint_word_of_int take_bit_eq_mod mod_mod_cancel)
qed

lemma signalled_status:
  assumes "0 < sig" "sig < 127"
  shows "\<not> WIFEXITED (wait_status (Signalled sig))"
proof -
  have "wait_status (Signalled sig) AND mask 7 = take_bit 7 (word_of_nat sig)"
    unfolding wait_status_def byte_masks by (simp add: take_bit_eq_mask and.assoc)
  also have "unat \<dots> = sig" using assms(2) by (simp add: unsigned_take_bit_eq unat_of_nat take_bit_nat_eq_self)
  finally show ?thesis using assms(1) by (auto simp: WIFEXITED_def byte_masks)
qed

section \<open>The programs\<close>

datatype process_line = I_am_child int | I_am_parent int int | No_variable | Will_run | Exit_code int32

text \<open>What the two processes print and how they end; no child when \<open>fork\<close> fails.\<close>

record process_family =
  parent_out :: "process_line list"
  parent_end :: ending
  child_out :: "process_line list"
  child_end :: "ending option"

definition EXIT_FAILURE :: int where "EXIT_FAILURE = 1"

text \<open>The parent's branch, the same in both programs.\<close>

definition parent_branch :: "int \<Rightarrow> int \<Rightarrow> ending \<Rightarrow> process_line list" where
  "parent_branch pid child_pid e =
     (let status = wait_status e in
      [I_am_parent pid child_pid] @ (if WIFEXITED status then [Exit_code (WEXITSTATUS status)] else []))"

definition fork_main :: "bool \<Rightarrow> int \<Rightarrow> int \<Rightarrow> process_family" where
  "fork_main forked pid child_pid =
     (if \<not> forked then \<lparr>parent_out = [], parent_end = Exited 1, child_out = [], child_end = None\<rparr>
      else \<lparr>parent_out = parent_branch pid child_pid (Exited 10), parent_end = Exited 0,
             child_out = [I_am_child child_pid], child_end = Some (Exited 10)\<rparr>)"

text \<open>\<open>program cmd\<close> is how the program at the path \<open>cmd\<close> ends, \<open>None\<close> when \<open>execl\<close> fails; \<open>env\<close> is the environment.\<close>

definition exec_child :: "(string \<Rightarrow> ending option) \<Rightarrow> (string \<rightharpoonup> string) \<Rightarrow> int \<Rightarrow> process_line list \<times> ending" where
  "exec_child program env child_pid =
     (case env ''MY_COMMAND'' of
        None \<Rightarrow> ([I_am_child child_pid, No_variable], Exited EXIT_FAILURE)
      | Some cmd \<Rightarrow> ([I_am_child child_pid, Will_run],
          case program cmd of None \<Rightarrow> Exited EXIT_FAILURE | Some e \<Rightarrow> e))"

definition exec_main :: "(string \<Rightarrow> ending option) \<Rightarrow> bool \<Rightarrow> (string \<rightharpoonup> string) \<Rightarrow> int \<Rightarrow> int \<Rightarrow> process_family" where
  "exec_main program forked env pid child_pid =
     (let env1 = env(''MY_COMMAND'' \<mapsto> ''/bin/ls'') in
      if \<not> forked then \<lparr>parent_out = [], parent_end = Exited EXIT_FAILURE, child_out = [], child_end = None\<rparr>
      else (let (lines, e) = exec_child program env1 child_pid in
        \<lparr>parent_out = parent_branch pid child_pid e, parent_end = Exited 0, child_out = lines, child_end = Some e\<rparr>))"

text \<open>
  The parent prints the low eight bits of the value its child has passed to \<open>exit\<close>, and nothing about a
  child that a signal has killed.
\<close>

lemma parent_branch_reports:
  "\<exists>v. parent_branch pid child_pid (Exited code) = [I_am_parent pid child_pid, Exit_code v] \<and> uint v = code mod 256"
  "0 < sig \<Longrightarrow> sig < 127 \<Longrightarrow> parent_branch pid child_pid (Signalled sig) = [I_am_parent pid child_pid]"
  by (simp_all add: parent_branch_def wifexited_status wexitstatus_status signalled_status)

lemma fork_reports_ten: "parent_out (fork_main True pid child_pid) = [I_am_parent pid child_pid, Exit_code 10]"
proof -
  have "WEXITSTATUS (wait_status (Exited 10)) = 10" by code_simp
  then show ?thesis by (simp add: fork_main_def parent_branch_def wifexited_status)
qed

lemma exec_reports:
  "child_out (exec_main program True env pid child_pid) = [I_am_child child_pid, Will_run] \<and>
   parent_out (exec_main program True env pid child_pid) = parent_branch pid child_pid
     (case program ''/bin/ls'' of None \<Rightarrow> Exited 1 | Some e \<Rightarrow> e)"
  by (simp add: exec_main_def exec_child_def EXIT_FAILURE_def split: option.split)

end
