(* ===== verification/Pipe.thy ===== *)
theory Pipe
  imports Processes
begin

text \<open>
  \<open>S7_Pipe_FIFO/ex1_pipe.c\<close>: a parent and two children that run \<open>ls -l | wc -l\<close>. A process is its table of
  pipe descriptors and the calls it still has to make; every call of \<open>pipe\<close>, \<open>fork\<close>, \<open>dup2\<close>, \<open>execlp\<close> and
  \<open>waitpid\<close> may fail, and the process then dies with a message. \<open>wc\<close> reads until no process holds the write
  end any more, which is what all the calls of \<open>close\<close> are for; a write into a pipe that nobody can read
  kills the writer.
\<close>

section \<open>Processes and descriptors\<close>

datatype pipe_end = Read_end | Write_end

type_synonym table = "(nat \<times> pipe_end) list"

datatype who = Parent | Child1 | Child2

text \<open>
  The calls: \<open>Fork c\<close> starts child \<open>c\<close> with a copy of the table; \<open>Emit x\<close> is \<open>ls\<close> writing to its standard output;
  \<open>Count\<close> is \<open>wc\<close> reading its standard input to the end; \<open>Wait c\<close> is \<open>waitpid\<close>; \<open>Report c\<close> looks at the status
  that it has stored; \<open>Exit\<close> closes all descriptors.
\<close>

datatype call = Pipe | Fork who | Close nat | Dup2 nat nat | Execlp string | Emit string | Count | Wait who
  | Report who | Exit int

text \<open>The lines on standard error: \<open>perror\<close> of a call that failed, and the two reports at the end.\<close>

datatype pipe_message = Failed who call | Exited_with who int32

definition parent_program :: "call list" where
  "parent_program = [Pipe, Fork Child1, Fork Child2, Close 3, Close 4, Wait Child1, Wait Child2,
     Report Child1, Report Child2, Exit 0]"

definition child1_program :: "call list" where
  "child1_program = [Close 3, Dup2 4 1, Close 4, Execlp ''ls'']"

definition child2_program :: "call list" where
  "child2_program = [Close 4, Dup2 3 0, Close 3, Execlp ''wc'']"

text \<open>What lies outside the program: what \<open>ls\<close> prints, how the two tools end, and how much a pipe holds.\<close>

record tools =
  listing :: "string list"
  ls_code :: int
  wc_code :: int
  capacity :: nat

definition program_of :: "tools \<Rightarrow> string \<Rightarrow> call list" where
  "program_of t file = (if file = ''ls'' then map Emit (listing t) @ [Exit (ls_code t)]
     else [Count, Exit (wc_code t)])"

text \<open>A process that has not been started has no calls left; \<open>ended\<close> is how it ended.\<close>

record pipe_proc =
  started :: bool
  table :: table
  calls :: "call list"
  ended :: "ending option"

text \<open>\<open>statuses\<close> are the variables \<open>st1\<close> and \<open>st2\<close>, \<open>None\<close> before \<open>waitpid\<close> stores in them.\<close>

record pipeline =
  parent :: pipe_proc
  child1 :: pipe_proc
  child2 :: pipe_proc
  in_pipe :: "string list"
  written :: "string list"
  counted :: "string list"
  statuses :: "who \<rightharpoonup> int32"
  stderr :: "pipe_message list"

definition proc_of :: "who \<Rightarrow> pipeline \<Rightarrow> pipe_proc" where
  "proc_of w s = (case w of Parent \<Rightarrow> parent s | Child1 \<Rightarrow> child1 s | Child2 \<Rightarrow> child2 s)"

definition set_proc :: "who \<Rightarrow> pipe_proc \<Rightarrow> pipeline \<Rightarrow> pipeline" where
  "set_proc w p s = (case w of Parent \<Rightarrow> s\<lparr>parent := p\<rparr> | Child1 \<Rightarrow> s\<lparr>child1 := p\<rparr> | Child2 \<Rightarrow> s\<lparr>child2 := p\<rparr>)"

definition not_started :: pipe_proc where
  "not_started = \<lparr>started = False, table = [], calls = [], ended = None\<rparr>"

definition pipeline_start :: pipeline where
  "pipeline_start = \<lparr>parent = \<lparr>started = True, table = [], calls = parent_program, ended = None\<rparr>,
     child1 = not_started, child2 = not_started, in_pipe = [], written = [], counted = [],
     statuses = Map.empty, stderr = []\<rparr>"

definition close_fd :: "nat \<Rightarrow> table \<Rightarrow> table" where
  "close_fd fd t = filter (\<lambda>e. fst e \<noteq> fd) t"

definition dup2 :: "nat \<Rightarrow> nat \<Rightarrow> table \<Rightarrow> table" where
  "dup2 old new t = (case map_of t old of None \<Rightarrow> t | Some e \<Rightarrow> (new, e) # close_fd new t)"

definition pipe_fds :: table where
  "pipe_fds = [(3, Read_end), (4, Write_end)]"

text \<open>What a call does to the table of its process.\<close>

definition effect :: "call \<Rightarrow> table \<Rightarrow> table" where
  "effect c t = (case c of Pipe \<Rightarrow> pipe_fds | Close fd \<Rightarrow> close_fd fd t | Dup2 old new \<Rightarrow> dup2 old new t | _ \<Rightarrow> t)"

definition holds :: "pipe_end \<Rightarrow> pipe_proc \<Rightarrow> bool" where
  "holds e p \<longleftrightarrow> e \<in> snd ` set (table p)"

definition held :: "pipe_end \<Rightarrow> pipeline \<Rightarrow> bool" where
  "held e s \<longleftrightarrow> holds e (parent s) \<or> holds e (child1 s) \<or> holds e (child2 s)"

definition finish :: "who \<Rightarrow> ending \<Rightarrow> pipeline \<Rightarrow> pipeline" where
  "finish w e s = set_proc w ((proc_of w s)\<lparr>table := [], calls := [], ended := Some e\<rparr>) s"

text \<open>\<open>die\<close>, and the \<open>perror\<close> and \<open>_exit\<close> after \<open>execlp\<close>.\<close>

definition pipe_die :: "who \<Rightarrow> call \<Rightarrow> pipeline \<Rightarrow> pipeline" where
  "pipe_die w c s = (finish w (Exited EXIT_FAILURE) s)\<lparr>stderr := stderr s @ [Failed w c]\<rparr>"

definition fallible :: "call \<Rightarrow> bool" where
  "fallible c = (case c of Pipe \<Rightarrow> True | Fork _ \<Rightarrow> True | Dup2 _ _ \<Rightarrow> True | Execlp _ \<Rightarrow> True | Wait _ \<Rightarrow> True
     | _ \<Rightarrow> False)"

definition report :: "who \<Rightarrow> int32 \<Rightarrow> pipe_message list" where
  "report c st = (if WIFEXITED st \<and> WEXITSTATUS st \<noteq> 0 then [Exited_with c (WEXITSTATUS st)] else [])"

definition SIGPIPE :: nat where "SIGPIPE = 13"

definition goes_on :: "who \<Rightarrow> call \<Rightarrow> call list \<Rightarrow> pipeline \<Rightarrow> pipeline" where
  "goes_on w c cs s =
     set_proc w ((proc_of w s)\<lparr>table := effect c (table (proc_of w s)), calls := cs\<rparr>) s"

text \<open>
  A call of process \<open>w\<close> that does not fail; \<open>None\<close> while it blocks. A write blocks while the pipe is full; a read
  takes the first item in the pipe, and on an empty pipe it returns 0 when nobody holds the write end.
\<close>

fun perform :: "tools \<Rightarrow> who \<Rightarrow> call \<Rightarrow> call list \<Rightarrow> pipeline \<Rightarrow> pipeline option" where
  "perform t w Pipe cs s = Some (goes_on w Pipe cs s)"
| "perform t w (Fork child) cs s =
     Some (set_proc child \<lparr>started = True, table = table (proc_of w s),
       calls = (if child = Child1 then child1_program else child2_program), ended = None\<rparr>
       (goes_on w (Fork child) cs s))"
| "perform t w (Close fd) cs s = Some (goes_on w (Close fd) cs s)"
| "perform t w (Dup2 old new) cs s = Some (goes_on w (Dup2 old new) cs s)"
| "perform t w (Execlp file) cs s = Some (goes_on w (Execlp file) (program_of t file) s)"
| "perform t w (Emit x) cs s =
     (if map_of (table (proc_of w s)) 1 \<noteq> Some Write_end then Some (goes_on w (Emit x) cs s)
      else if \<not> held Read_end s then Some (finish w (Signalled SIGPIPE) s)
      else if length (in_pipe s) < capacity t
      then Some ((goes_on w (Emit x) cs s)\<lparr>in_pipe := in_pipe s @ [x], written := written s @ [x]\<rparr>)
      else None)"
| "perform t w Count cs s =
     (if map_of (table (proc_of w s)) 0 \<noteq> Some Read_end then None
      else (case in_pipe s of
          x # xs \<Rightarrow> Some (s\<lparr>in_pipe := xs, counted := counted s @ [x]\<rparr>)
        | [] \<Rightarrow> if held Write_end s then None else Some (goes_on w Count cs s)))"
| "perform t w (Wait child) cs s =
     map_option (\<lambda>e. (goes_on w (Wait child) cs s)\<lparr>statuses := (statuses s)(child \<mapsto> wait_status e)\<rparr>)
       (ended (proc_of child s))"
| "perform t w (Report child) cs s =
     map_option (\<lambda>st. (goes_on w (Report child) cs s)\<lparr>stderr := stderr s @ report child st\<rparr>)
       (statuses s child)"
| "perform t w (Exit n) cs s = Some (finish w (Exited n) s)"

text \<open>The next call of process \<open>w\<close>, which fails if it can and \<open>ok\<close> is false.\<close>

definition call_step :: "tools \<Rightarrow> bool \<Rightarrow> who \<Rightarrow> pipeline \<Rightarrow> pipeline option" where
  "call_step t ok w s = (case calls (proc_of w s) of
      [] \<Rightarrow> None
    | c # cs \<Rightarrow> if fallible c \<and> \<not> ok then Some (pipe_die w c s) else perform t w c cs s)"

inductive pipeline_step :: "tools \<Rightarrow> pipeline \<Rightarrow> pipeline \<Rightarrow> bool" for t where
  call_of: "call_step t ok w s = Some s' \<Longrightarrow> pipeline_step t s s'"

inductive_simps pipeline_step_iff: "pipeline_step t s s'"

end
