(* ===== verification/Pipe_Inv.thy ===== *)
theory Pipe_Inv
  imports Pipe
begin

text \<open>
  The invariant of the three processes of \<open>Pipe\<close>: each is at a point of its program, the parent knows the
  status of every child it has waited for and has reported it, and as long as no call has failed \<open>wc\<close>
  sees the end of file only after \<open>ls\<close> has written everything.
\<close>

section \<open>The states of a program\<close>

text \<open>The calls left and the table at each point of a program whose calls succeed.\<close>

fun trace :: "call list \<Rightarrow> table \<Rightarrow> (call list \<times> table) list" where
  "trace [] t = []"
| "trace (c # cs) t = (c # cs, t) # trace cs (effect c t)"

lemma trace_next: "(c # cs, t) \<in> set (trace prog t0) \<Longrightarrow> cs \<noteq> [] \<Longrightarrow> (cs, effect c t) \<in> set (trace prog t0)"
proof (induction prog arbitrary: t0)
  case (Cons c1 prog)
  then show ?case by (cases prog) auto
qed simp

lemmas program_defs = parent_program_def child1_program_def child2_program_def
lemmas table_defs = effect_def pipe_fds_def close_fd_def dup2_def

lemma parent_states:
  "(cs, t) \<in> set (trace parent_program []) \<longleftrightarrow>
     (cs, t) \<in> {(parent_program, []), (drop 1 parent_program, pipe_fds), (drop 2 parent_program, pipe_fds),
       (drop 3 parent_program, pipe_fds), (drop 4 parent_program, [(4, Write_end)])} \<or>
     t = [] \<and> cs \<in> (\<lambda>n. drop n parent_program) ` {5, 6, 7, 8, 9}"
  by (auto simp: parent_program_def table_defs)

lemma child1_states:
  "(cs, t) \<in> set (trace child1_program pipe_fds) \<longleftrightarrow>
     (cs, t) \<in> {(child1_program, pipe_fds), (drop 1 child1_program, [(4, Write_end)]),
       (drop 2 child1_program, [(1, Write_end), (4, Write_end)]), ([Execlp ''ls''], [(1, Write_end)])}"
  by (auto simp: child1_program_def table_defs)

lemma child2_states:
  "(cs, t) \<in> set (trace child2_program pipe_fds) \<longleftrightarrow>
     (cs, t) \<in> {(child2_program, pipe_fds), (drop 1 child2_program, [(3, Read_end)]),
       (drop 2 child2_program, [(0, Read_end), (3, Read_end)]), ([Execlp ''wc''], [(0, Read_end)])}"
  by (auto simp: child2_program_def table_defs)

section \<open>The invariant\<close>

definition alive :: "pipe_proc \<Rightarrow> bool" where
  "alive p \<longleftrightarrow> started p \<and> ended p = None"

definition idle :: "pipe_proc \<Rightarrow> bool" where
  "idle p \<longleftrightarrow> table p = [] \<and> calls p = []"

definition parent_ok :: "pipe_proc \<Rightarrow> bool" where
  "parent_ok p \<longleftrightarrow> started p \<and>
     (if ended p = None then (calls p, table p) \<in> set (trace parent_program []) else idle p)"

definition child1_ok :: "tools \<Rightarrow> string list \<Rightarrow> pipe_proc \<Rightarrow> bool" where
  "child1_ok t out p \<longleftrightarrow>
     (if alive p then
        out = [] \<and> (calls p, table p) \<in> set (trace child1_program pipe_fds) \<or>
        table p = [(1, Write_end)] \<and> (\<exists>rest. out @ rest = listing t \<and> calls p = map Emit rest @ [Exit (ls_code t)])
      else idle p \<and> (started p \<or> p = not_started \<and> out = []))"

definition child2_ok :: "tools \<Rightarrow> pipe_proc \<Rightarrow> bool" where
  "child2_ok t p \<longleftrightarrow>
     (if alive p then
        (calls p, table p) \<in> set (trace child2_program pipe_fds) \<or>
        table p = [(0, Read_end)] \<and> calls p \<in> {[Count, Exit (wc_code t)], [Exit (wc_code t)]}
      else idle p \<and> (started p \<or> p = not_started))"

text \<open>Each process is at a point of its program, and the children are started by the calls of \<open>fork\<close>.\<close>

definition procs_ok :: "tools \<Rightarrow> pipeline \<Rightarrow> bool" where
  "procs_ok t s \<longleftrightarrow> parent_ok (parent s) \<and> child1_ok t (written s) (child1 s) \<and> child2_ok t (child2 s) \<and>
     (ended (parent s) = None \<longrightarrow>
        (\<forall>c \<in> {Child1, Child2}. started (proc_of c s) \<longleftrightarrow> Fork c \<notin> set (calls (parent s)))) \<and>
     counted s @ in_pipe s = written s"

lemmas step_defs = call_step_def proc_of_def set_proc_def finish_def pipe_die_def fallible_def

lemma procs_ok_start: "procs_ok t pipeline_start"
  by (simp add: procs_ok_def pipeline_start_def parent_ok_def child1_ok_def child2_ok_def not_started_def
      alive_def idle_def proc_of_def parent_program_def)

text \<open>How the invariant follows a process that dies, or goes to its next call.\<close>

lemma finish_ok: "procs_ok t s \<Longrightarrow> started (proc_of w s) \<Longrightarrow> procs_ok t (finish w e s)"
  by (cases w) (auto simp: procs_ok_def finish_def set_proc_def proc_of_def parent_ok_def child1_ok_def
      child2_ok_def alive_def idle_def)

lemma procs_ok_frame [simp]:
  "procs_ok t (s\<lparr>stderr := x\<rparr>) = procs_ok t s" "procs_ok t (s\<lparr>statuses := y\<rparr>) = procs_ok t s"
  by (simp_all add: procs_ok_def proc_of_def)

lemma die_ok: "procs_ok t s \<Longrightarrow> started (proc_of w s) \<Longrightarrow> procs_ok t (pipe_die w c s)"
  by (simp add: pipe_die_def finish_ok)

lemma parent_moves:
  assumes "procs_ok t s" "ended (parent s) = None" "calls (parent s) = c # cs" "cs \<noteq> []" "\<And>w. c \<noteq> Fork w"
  shows "procs_ok t (s\<lparr>parent := (parent s)\<lparr>table := effect c (table (parent s)), calls := cs\<rparr>\<rparr>)"
  using assms trace_next [of c cs "table (parent s)" parent_program "[]"]
  by (auto simp: procs_ok_def parent_ok_def proc_of_def)

lemma parent_forks:
  assumes "procs_ok t s" "ended (parent s) = None" "calls (parent s) = Fork w # cs"
  shows "procs_ok t (set_proc w \<lparr>started = True, table = table (parent s),
      calls = (if w = Child1 then child1_program else child2_program), ended = None\<rparr>
      (s\<lparr>parent := (parent s)\<lparr>table := table (parent s), calls := cs\<rparr>\<rparr>))"
proof -
  have p: "(Fork w # cs, table (parent s)) \<in> set (trace parent_program [])"
    using assms by (auto simp: procs_ok_def parent_ok_def)
  then have "cs \<noteq> []" and w: "table (parent s) = pipe_fds"
    "w = Child1 \<and> cs = drop 2 parent_program \<or> w = Child2 \<and> cs = drop 3 parent_program"
    unfolding parent_states by (auto simp: parent_program_def)
  then have n: "(cs, pipe_fds) \<in> set (trace parent_program [])"
    using trace_next [OF p] by (simp add: effect_def)
  have ns: "\<not> started (proc_of w s)" using assms w by (auto simp: procs_ok_def)
  from w(2) show ?thesis
  proof (elim disjE conjE)
    assume "w = Child1" "cs = drop 2 parent_program"
    then show ?thesis using assms n w(1) ns
      by (auto simp: procs_ok_def parent_ok_def child1_ok_def proc_of_def set_proc_def alive_def child1_states
          parent_program_def)
  next
    assume "w = Child2" "cs = drop 3 parent_program"
    then show ?thesis using assms n w(1) ns
      by (auto simp: procs_ok_def parent_ok_def child2_ok_def proc_of_def set_proc_def alive_def child2_states
          parent_program_def)
  qed
qed

lemma parent_calls:
  assumes "procs_ok t s" "calls (parent s) = c # cs"
  shows "ended (parent s) = None \<and> started (parent s) \<and> (cs = [] \<longleftrightarrow> c = Exit 0) \<and>
    (c \<in> {Pipe, Close 3, Close 4, Exit 0} \<or> (\<exists>w \<in> {Child1, Child2}. c \<in> {Fork w, Wait w, Report w}))"
proof -
  have e: "ended (parent s) = None" "(c # cs, table (parent s)) \<in> set (trace parent_program [])" "started (parent s)"
    using assms by (auto simp: procs_ok_def parent_ok_def idle_def split: if_splits)
  from e(2) have "(cs = [] \<longleftrightarrow> c = Exit 0) \<and>
      (c \<in> {Pipe, Close 3, Close 4, Exit 0} \<or> (\<exists>w \<in> {Child1, Child2}. c \<in> {Fork w, Wait w, Report w}))"
    unfolding parent_states by (auto simp: parent_program_def)
  with e show ?thesis by blast
qed

text \<open>A step of a process: its next call fails, or is performed.\<close>

lemma call_step_cases [consumes 1, case_names died performed]:
  assumes "call_step t ok w s = Some s'"
  obtains c cs where "calls (proc_of w s) = c # cs" "s' = pipe_die w c s"
  | c cs where "calls (proc_of w s) = c # cs" "perform t w c cs s = Some s'"
proof (cases "calls (proc_of w s)")
  case Nil
  with assms show thesis by (simp add: call_step_def)
next
  case (Cons c cs)
  then show thesis using assms that by (cases "fallible c \<and> \<not> ok") (auto simp: call_step_def)
qed

lemma parent_procs_ok:
  assumes inv: "procs_ok t s" and step: "call_step t ok Parent s = Some s'"
  shows "procs_ok t s'"
  using step
proof (cases rule: call_step_cases)
  case (died c cs)
  with parent_calls [OF inv, of c cs] show ?thesis by (auto simp: proc_of_def intro!: die_ok [OF inv])
next
  case (performed c cs)
  then have c: "calls (parent s) = c # cs" by (simp add: proc_of_def)
  note p = parent_calls [OF inv c]
  have moves: "procs_ok t (goes_on Parent c cs s)" if "c \<noteq> Exit 0" "\<And>w. c \<noteq> Fork w"
    using parent_moves [OF inv _ c] p that by (simp add: goes_on_def proc_of_def set_proc_def)
  have forks: "procs_ok t s'" if "c = Fork w" for w
    using parent_forks [OF inv] p c performed that by (simp add: proc_of_def set_proc_def goes_on_def effect_def)
  show ?thesis
    using performed p moves forks finish_ok [OF inv, of Parent] by (auto simp: proc_of_def)
qed

text \<open>The first child; \<open>rest\<close> is what \<open>ls\<close> has still to write.\<close>

lemma child1_calls:
  assumes "procs_ok t s" "calls (child1 s) = c # cs"
  shows "alive (child1 s)" "written s = [] \<and> c = Close 3 \<and> cs = drop 1 child1_program \<and> table (child1 s) = pipe_fds \<or>
    written s = [] \<and> c = Dup2 4 1 \<and> cs = drop 2 child1_program \<and> table (child1 s) = [(4, Write_end)] \<or>
    written s = [] \<and> c = Close 4 \<and> cs = drop 3 child1_program \<and> table (child1 s) = [(1, Write_end), (4, Write_end)] \<or>
    written s = [] \<and> c = Execlp ''ls'' \<and> cs = [] \<and> table (child1 s) = [(1, Write_end)] \<or>
    (\<exists>x rest. written s @ x # rest = listing t \<and> c = Emit x \<and> cs = map Emit rest @ [Exit (ls_code t)]) \<and>
      table (child1 s) = [(1, Write_end)] \<or>
    written s = listing t \<and> c = Exit (ls_code t) \<and> cs = [] \<and> table (child1 s) = [(1, Write_end)]"
proof -
  show l: "alive (child1 s)" using assms by (auto simp: procs_ok_def child1_ok_def idle_def split: if_splits)
  then consider "written s = []" "(c # cs, table (child1 s)) \<in> set (trace child1_program pipe_fds)"
    | rest where "table (child1 s) = [(1, Write_end)]" "written s @ rest = listing t"
        "c # cs = map Emit rest @ [Exit (ls_code t)]"
    using assms by (auto simp: procs_ok_def child1_ok_def)
  then show "written s = [] \<and> c = Close 3 \<and> cs = drop 1 child1_program \<and> table (child1 s) = pipe_fds \<or>
    written s = [] \<and> c = Dup2 4 1 \<and> cs = drop 2 child1_program \<and> table (child1 s) = [(4, Write_end)] \<or>
    written s = [] \<and> c = Close 4 \<and> cs = drop 3 child1_program \<and> table (child1 s) = [(1, Write_end), (4, Write_end)] \<or>
    written s = [] \<and> c = Execlp ''ls'' \<and> cs = [] \<and> table (child1 s) = [(1, Write_end)] \<or>
    (\<exists>x rest. written s @ x # rest = listing t \<and> c = Emit x \<and> cs = map Emit rest @ [Exit (ls_code t)]) \<and>
      table (child1 s) = [(1, Write_end)] \<or>
    written s = listing t \<and> c = Exit (ls_code t) \<and> cs = [] \<and> table (child1 s) = [(1, Write_end)]"
  proof cases
    case 1
    then show ?thesis unfolding child1_states by (auto simp: child1_program_def)
  next
    case (2 rest)
    then show ?thesis by (cases rest) auto
  qed
qed

lemma child1_moves:
  assumes "procs_ok t s" "alive (child1 s)" "child1_ok t (written s) ((child1 s)\<lparr>table := tb, calls := cs\<rparr>)"
  shows "procs_ok t (s\<lparr>child1 := (child1 s)\<lparr>table := tb, calls := cs\<rparr>\<rparr>)"
  using assms by (auto simp: procs_ok_def proc_of_def)

lemma child1_procs_ok:
  assumes inv: "procs_ok t s" and step: "call_step t ok Child1 s = Some s'"
  shows "procs_ok t s'"
  using step
proof (cases rule: call_step_cases)
  case (died c cs)
  with child1_calls(1) [OF inv, of c cs] show ?thesis by (auto simp: proc_of_def alive_def intro!: die_ok [OF inv])
next
  case (performed c cs)
  then have c: "calls (child1 s) = c # cs" by (simp add: proc_of_def)
  note p = child1_calls [OF inv c]
  have goes: "goes_on Child1 c' cs' s = s\<lparr>child1 := (child1 s)\<lparr>table := effect c' (table (child1 s)), calls := cs'\<rparr>\<rparr>"
    for c' cs' by (simp add: goes_on_def proc_of_def set_proc_def)
  consider (emit) x rest where "written s @ x # rest = listing t" "c = Emit x" "cs = map Emit rest @ [Exit (ls_code t)]"
      "table (child1 s) = [(1, Write_end)]"
    | (exec) "c = Execlp ''ls''" "written s = []" "table (child1 s) = [(1, Write_end)]"
    | (exit) n where "c = Exit n"
    | (other) "written s = []" "(c # cs, table (child1 s)) \<in> set (trace child1_program pipe_fds)" "cs \<noteq> []"
        "c \<in> {Close 3, Dup2 4 1, Close 4}"
    using p(2) unfolding child1_states by (auto simp: child1_program_def)
  then show ?thesis
  proof cases
    case emit
    have w: "child1_ok t (written s @ [x]) ((child1 s)\<lparr>table := [(1, Write_end)], calls := cs\<rparr>)"
      using emit p(1) by (auto simp: child1_ok_def alive_def intro!: exI [of _ rest])
    have "map_of (table (child1 s)) 1 = Some Write_end" using emit by simp
    then consider "s' = finish Child1 (Signalled SIGPIPE) s"
      | "s' = (goes_on Child1 (Emit x) cs s)\<lparr>in_pipe := in_pipe s @ [x], written := written s @ [x]\<rparr>"
      using performed emit by (auto simp: proc_of_def split: if_splits)
    then show ?thesis
    proof cases
      case 1
      with finish_ok [OF inv, of Child1] p(1) show ?thesis by (simp add: proc_of_def alive_def)
    next
      case 2
      with inv w emit show ?thesis by (auto simp: goes effect_def procs_ok_def proc_of_def)
    qed
  next
    case exec
    then have "s' = s\<lparr>child1 := (child1 s)\<lparr>table := [(1, Write_end)], calls := program_of t ''ls''\<rparr>\<rparr>"
      using performed by (simp add: goes effect_def)
    with exec show ?thesis using p(1) by (auto intro!: child1_moves [OF inv p(1)] simp: child1_ok_def program_of_def alive_def)
  next
    case exit
    with performed finish_ok [OF inv, of Child1] p(1) show ?thesis by (auto simp: proc_of_def alive_def)
  next
    case other
    have "child1_ok t (written s) ((child1 s)\<lparr>table := effect c (table (child1 s)), calls := cs\<rparr>)"
      using trace_next [OF other(2,3)] other(1) p(1) by (simp add: child1_ok_def alive_def)
    moreover have "s' = goes_on Child1 c cs s" using other(4) performed by auto
    ultimately show ?thesis by (simp add: goes child1_moves [OF inv p(1)])
  qed
qed

text \<open>The second child.\<close>

lemma child2_calls:
  assumes "procs_ok t s" "calls (child2 s) = c # cs"
  shows "alive (child2 s)" "(c # cs, table (child2 s)) \<in> set (trace child2_program pipe_fds) \<and>
      (c \<in> {Close 4, Dup2 3 0, Close 3} \<and> cs \<noteq> [] \<or> c = Execlp ''wc'' \<and> table (child2 s) = [(0, Read_end)]) \<or>
    c = Count \<and> cs = [Exit (wc_code t)] \<and> table (child2 s) = [(0, Read_end)] \<or>
    c = Exit (wc_code t) \<and> cs = [] \<and> table (child2 s) = [(0, Read_end)]"
proof -
  show l: "alive (child2 s)" using assms by (auto simp: procs_ok_def child2_ok_def idle_def split: if_splits)
  then have "(c # cs, table (child2 s)) \<in> set (trace child2_program pipe_fds) \<or>
      table (child2 s) = [(0, Read_end)] \<and> c # cs \<in> {[Count, Exit (wc_code t)], [Exit (wc_code t)]}"
    using assms by (auto simp: procs_ok_def child2_ok_def)
  then show "(c # cs, table (child2 s)) \<in> set (trace child2_program pipe_fds) \<and>
      (c \<in> {Close 4, Dup2 3 0, Close 3} \<and> cs \<noteq> [] \<or> c = Execlp ''wc'' \<and> table (child2 s) = [(0, Read_end)]) \<or>
    c = Count \<and> cs = [Exit (wc_code t)] \<and> table (child2 s) = [(0, Read_end)] \<or>
    c = Exit (wc_code t) \<and> cs = [] \<and> table (child2 s) = [(0, Read_end)]"
    unfolding child2_states by (auto simp: child2_program_def)
qed

lemma child2_moves:
  assumes "procs_ok t s" "alive (child2 s)" "child2_ok t ((child2 s)\<lparr>table := tb, calls := cs\<rparr>)"
  shows "procs_ok t (s\<lparr>child2 := (child2 s)\<lparr>table := tb, calls := cs\<rparr>\<rparr>)"
  using assms by (auto simp: procs_ok_def proc_of_def)

lemma child2_procs_ok:
  assumes inv: "procs_ok t s" and step: "call_step t ok Child2 s = Some s'"
  shows "procs_ok t s'"
  using step
proof (cases rule: call_step_cases)
  case (died c cs)
  with child2_calls(1) [OF inv, of c cs] show ?thesis by (auto simp: proc_of_def alive_def intro!: die_ok [OF inv])
next
  case (performed c cs)
  then have c: "calls (child2 s) = c # cs" by (simp add: proc_of_def)
  note p = child2_calls [OF inv c]
  have goes: "goes_on Child2 c' cs' s = s\<lparr>child2 := (child2 s)\<lparr>table := effect c' (table (child2 s)), calls := cs'\<rparr>\<rparr>"
    for c' cs' by (simp add: goes_on_def proc_of_def set_proc_def)
  from p(2) consider (other) "(c # cs, table (child2 s)) \<in> set (trace child2_program pipe_fds)" "cs \<noteq> []"
      "c \<in> {Close 4, Dup2 3 0, Close 3}"
    | (exec) "c = Execlp ''wc''" "table (child2 s) = [(0, Read_end)]"
    | (count) "c = Count" "cs = [Exit (wc_code t)]" "table (child2 s) = [(0, Read_end)]"
    | (exit) n where "c = Exit n" by blast
  then show ?thesis
  proof cases
    case other
    have "child2_ok t ((child2 s)\<lparr>table := effect c (table (child2 s)), calls := cs\<rparr>)"
      using trace_next [OF other(1,2)] p(1) by (simp add: child2_ok_def alive_def)
    moreover have "s' = goes_on Child2 c cs s" using other(3) performed by auto
    ultimately show ?thesis by (simp add: goes child2_moves [OF inv p(1)])
  next
    case exec
    then have "s' = s\<lparr>child2 := (child2 s)\<lparr>table := [(0, Read_end)], calls := program_of t ''wc''\<rparr>\<rparr>"
      using performed by (simp add: goes effect_def)
    with exec show ?thesis using p(1) by (auto intro!: child2_moves [OF inv p(1)] simp: child2_ok_def program_of_def alive_def)
  next
    case count
    have "child2_ok t ((child2 s)\<lparr>table := [(0, Read_end)], calls := cs\<rparr>)"
      using p(1) count by (simp add: child2_ok_def alive_def)
    then have "procs_ok t (goes_on Child2 Count cs s)"
      using count by (simp add: goes effect_def child2_moves [OF inv p(1)])
    moreover have "procs_ok t (s\<lparr>in_pipe := xs, counted := counted s @ [x]\<rparr>)" if "in_pipe s = x # xs" for x xs
      using inv that by (auto simp: procs_ok_def proc_of_def)
    ultimately show ?thesis using performed count by (auto simp: proc_of_def split: list.splits if_splits)
  next
    case exit
    with performed finish_ok [OF inv, of Child2] p(1) show ?thesis by (auto simp: proc_of_def alive_def)
  qed
qed

lemma procs_ok_step: "procs_ok t s \<Longrightarrow> pipeline_step t s s' \<Longrightarrow> procs_ok t s'"
  by (metis (full_types) pipeline_step_iff parent_procs_ok child1_procs_ok child2_procs_ok who.exhaust)

section \<open>What the parent learns\<close>

definition clean :: "pipeline \<Rightarrow> bool" where
  "clean s \<longleftrightarrow> (\<forall>w c. Failed w c \<notin> set (stderr s))"

definition waited :: "who \<Rightarrow> pipeline \<Rightarrow> bool" where
  "waited c s \<longleftrightarrow> (\<exists>e. ended (proc_of c s) = Some e \<and> statuses s c = Some (wait_status e))"

text \<open>A parent beyond \<open>waitpid\<close> knows the status of the child; one that has died has said so.\<close>

definition waits_ok :: "pipeline \<Rightarrow> bool" where
  "waits_ok s \<longleftrightarrow> (case ended (parent s) of
      None \<Rightarrow> \<forall>c \<in> {Child1, Child2}. Wait c \<notin> set (calls (parent s)) \<longrightarrow> waited c s
    | Some e \<Rightarrow> e = Exited 0 \<and> waited Child1 s \<and> waited Child2 s \<or>
        e = Exited 1 \<and> (\<exists>c. Failed Parent c \<in> set (stderr s)))"

definition reports :: "pipeline \<Rightarrow> pipe_message list" where
  "reports s = filter (\<lambda>m. \<exists>w st. m = Exited_with w st) (stderr s)"

definition reported :: "who \<Rightarrow> pipeline \<Rightarrow> pipe_message list" where
  "reported c s = (if Report c \<in> set (calls (parent s)) then []
     else case statuses s c of None \<Rightarrow> [] | Some st \<Rightarrow> report c st)"

definition reports_ok :: "pipeline \<Rightarrow> bool" where
  "reports_ok s \<longleftrightarrow> reports s = (if ended (parent s) = Some (Exited 1) then [] else reported Child1 s @ reported Child2 s)"

lemma reports_append [simp]:
  "filter (\<lambda>m. \<exists>w st. m = Exited_with w st) (report c st) = report c st"
  "filter (\<lambda>m. \<exists>w st. m = Exited_with w st) [Failed w x] = []"
  by (simp_all add: report_def)

lemma no_failure_in_report [simp]: "Failed w x \<notin> set (report c st)"
  by (simp add: report_def)

lemma fields_of_die [simp]:
  "stderr (pipe_die w c s) = stderr s @ [Failed w c]" "statuses (pipe_die w c s) = statuses s"
  "in_pipe (pipe_die w c s) = in_pipe s" "written (pipe_die w c s) = written s"
  by (cases w; simp add: pipe_die_def finish_def set_proc_def)+

lemma fields_of_finish [simp]:
  "stderr (finish w e s) = stderr s" "statuses (finish w e s) = statuses s"
  "in_pipe (finish w e s) = in_pipe s" "written (finish w e s) = written s"
  by (cases w; simp add: finish_def set_proc_def)+

lemma proc_of_finish [simp]:
  "proc_of v (finish w e s) = (if v = w then (proc_of w s)\<lparr>table := [], calls := [], ended := Some e\<rparr> else proc_of v s)"
  by (cases v; cases w; simp add: finish_def set_proc_def proc_of_def)

lemma proc_of_die [simp]: "proc_of v (pipe_die w c s) = proc_of v (finish w (Exited 1) s)"
  by (cases v; simp add: pipe_die_def proc_of_def EXIT_FAILURE_def)

lemma proc_of_goes_on [simp]:
  "proc_of v (goes_on w c cs s) = (if v = w then (proc_of w s)\<lparr>table := effect c (table (proc_of w s)), calls := cs\<rparr>
     else proc_of v s)"
  by (cases v; cases w; simp add: goes_on_def set_proc_def proc_of_def)

lemma fields_of_goes_on [simp]:
  "stderr (goes_on w c cs s) = stderr s" "statuses (goes_on w c cs s) = statuses s"
  "in_pipe (goes_on w c cs s) = in_pipe s" "written (goes_on w c cs s) = written s"
  by (cases w; simp add: goes_on_def set_proc_def)+

lemma proc_of_set [simp]: "proc_of v (set_proc w p s) = (if v = w then p else proc_of v s)"
  by (cases v; cases w; simp add: set_proc_def proc_of_def)

lemma fields_of_set [simp]:
  "stderr (set_proc w p s) = stderr s" "statuses (set_proc w p s) = statuses s"
  "in_pipe (set_proc w p s) = in_pipe s" "written (set_proc w p s) = written s"
  by (cases w; simp add: set_proc_def)+

lemma proc_of_frame [simp]:
  "proc_of w (s\<lparr>stderr := a\<rparr>) = proc_of w s" "proc_of w (s\<lparr>statuses := b\<rparr>) = proc_of w s"
  "proc_of w (s\<lparr>in_pipe := c, written := d\<rparr>) = proc_of w s" "proc_of w (s\<lparr>in_pipe := c, counted := e\<rparr>) = proc_of w s"
  by (cases w; simp add: proc_of_def)+

lemma proc_names: "parent s = proc_of Parent s" "child1 s = proc_of Child1 s" "child2 s = proc_of Child2 s"
  by (simp_all add: proc_of_def)

text \<open>A step of a child leaves what the parent has seen.\<close>

lemma child_step_frame:
  assumes "procs_ok t s" "call_step t ok w s = Some s'" "w \<noteq> Parent"
  shows "proc_of Parent s' = proc_of Parent s \<and> statuses s' = statuses s \<and>
    (stderr s' = stderr s \<or> (\<exists>c. stderr s' = stderr s @ [Failed w c])) \<and>
    (\<forall>v. ended (proc_of v s) \<noteq> None \<longrightarrow> ended (proc_of v s') = ended (proc_of v s))"
  using assms(2)
proof (cases rule: call_step_cases)
  case (died c cs)
  then have "ended (proc_of w s) = None"
    using child1_calls(1) [OF assms(1), of c cs] child2_calls(1) [OF assms(1), of c cs] assms(3)
    by (cases w) (auto simp: alive_def proc_of_def)
  with died assms(3) show ?thesis by auto
next
  case (performed c cs)
  have l: "ended (proc_of w s) = None" "\<And>v. c \<noteq> Fork v" "\<And>v. c \<noteq> Wait v" "\<And>v. c \<noteq> Report v"
    using child1_calls [OF assms(1), of c cs] child2_calls [OF assms(1), of c cs] assms(3) performed
    by (cases w; auto simp: alive_def proc_of_def)+
  with performed assms(3) show ?thesis by (cases c) (auto split: if_splits list.splits)
qed

lemma waits_ok_step:
  assumes inv: "procs_ok t s" "waits_ok s" and step: "call_step t ok w s = Some s'"
  shows "waits_ok s'"
proof (cases "w = Parent")
  case False
  note f = child_step_frame [OF inv(1) step False]
  then have "waited c s \<Longrightarrow> waited c s'" for c by (auto simp: waited_def)
  moreover have "Failed Parent c \<in> set (stderr s) \<Longrightarrow> Failed Parent c \<in> set (stderr s')" for c using f by auto
  ultimately show ?thesis using inv(2) f unfolding waits_ok_def proc_names
    by (auto split: option.splits)
next
  case True
  from step show ?thesis unfolding True
  proof (cases rule: call_step_cases)
    case (died c cs)
    then show ?thesis by (auto simp: waits_ok_def proc_names)
  next
    case (performed c cs)
    then have c: "calls (parent s) = c # cs" by (simp add: proc_of_def)
    note p = parent_calls [OF inv(1) c]
    have w: "\<forall>v \<in> {Child1, Child2}. Wait v \<notin> set (c # cs) \<longrightarrow> waited v s"
      using inv(2) p c by (auto simp: waits_ok_def)
    have "(c # cs, table (parent s)) \<in> set (trace parent_program [])"
      using inv(1) p c by (simp add: procs_ok_def parent_ok_def)
    then have f: "Wait v \<in> set cs" if "c = Fork v" for v
      using that unfolding parent_states by (auto simp: parent_program_def)
    show ?thesis
    proof (cases c)
      case (Fork v)
      have "waited x s'" if "x \<in> {Child1, Child2}" "Wait x \<notin> set cs" for x
        using w that f [OF Fork] performed Fork by (auto simp: waited_def)
      moreover have "ended (proc_of Parent s') = None" using p performed Fork by (auto simp: proc_names)
      moreover have "calls (proc_of Parent s') = cs" using p performed Fork by auto
      ultimately show ?thesis by (simp add: waits_ok_def proc_names)
    qed (use performed p w in \<open>auto simp: waits_ok_def proc_names waited_def split: if_splits list.splits\<close>)
  qed
qed

lemma reported_frame:
  "calls (proc_of Parent s') = calls (proc_of Parent s) \<Longrightarrow> statuses s' = statuses s \<Longrightarrow>
   reported c s' = reported c s"
  by (simp add: reported_def proc_names)

lemma reports_ok_step:
  assumes inv: "procs_ok t s" "reports_ok s" and step: "call_step t ok w s = Some s'"
  shows "reports_ok s'"
proof (cases "w = Parent")
  case False
  note f = child_step_frame [OF inv(1) step False]
  then have "reported c s' = reported c s" for c by (intro reported_frame) auto
  moreover have "reports s' = reports s" using f by (auto simp: reports_def)
  ultimately show ?thesis using inv(2) f by (simp add: reports_ok_def proc_names)
next
  case True
  obtain c cs where c: "calls (parent s) = c # cs"
    using step True by (cases rule: call_step_cases) (auto simp: proc_of_def)
  note p = parent_calls [OF inv(1) c]
  have "(c # cs, table (parent s)) \<in> set (trace parent_program [])"
    using inv(1) p c by (simp add: procs_ok_def parent_ok_def)
  then have o: "fallible c \<Longrightarrow> Report Child1 \<in> set cs \<and> Report Child2 \<in> set cs"
      "c = Report Child1 \<Longrightarrow> Report Child1 \<notin> set cs \<and> Report Child2 \<in> set cs"
      "c = Report Child2 \<Longrightarrow> Report Child1 \<notin> set cs \<and> Report Child2 \<notin> set cs"
    unfolding parent_states by (auto simp: parent_program_def fallible_def)
  have r: "reports s = reported Child1 s @ reported Child2 s" using inv(2) p by (simp add: reports_ok_def)
  from step [unfolded True call_step_def] c have "s' = pipe_die Parent c s \<and> fallible c \<or> perform t Parent c cs s = Some s'"
    by (auto simp: proc_of_def split: if_splits)
  then show ?thesis
  proof (elim disjE conjE)
    assume s': "s' = pipe_die Parent c s" and fc: "fallible c"
    then have "reports s = []" using r o(1) c by (simp add: reported_def)
    then show ?thesis using s' by (simp add: reports_ok_def reports_def proc_names)
  next
    assume s': "perform t Parent c cs s = Some s'"
    have keep: "reports_ok s'"
      if "stderr s' = stderr s" "statuses s' = statuses s \<or> fallible c" "calls (proc_of Parent s') = cs"
        "\<And>v. c \<noteq> Report v" "ended (proc_of Parent s') \<noteq> Some (Exited 1)"
    proof -
      have "reported v s' = reported v s" if "v \<in> {Child1, Child2}" for v
        using that \<open>statuses s' = statuses s \<or> fallible c\<close> \<open>calls (proc_of Parent s') = cs\<close>
          \<open>\<And>v. c \<noteq> Report v\<close> o(1) c by (auto simp: reported_def proc_names)
      then show ?thesis using that r by (simp add: reports_ok_def reports_def proc_names)
    qed
    show ?thesis
    proof (cases "\<exists>v. c = Report v")
      case True
      then obtain v st where v: "c = Report v" "statuses s v = Some st"
        "s' = (goes_on Parent c cs s)\<lparr>stderr := stderr s @ report v st\<rparr>" using s' by auto
      then have "reports s' = reports s @ report v st" "statuses s' = statuses s" "calls (proc_of Parent s') = cs"
        "ended (proc_of Parent s') = None" using p by (auto simp: reports_def proc_names)
      moreover have "v = Child1 \<or> v = Child2" using p v(1) by auto
      ultimately show ?thesis using v o(2,3) r c by (auto simp: reports_ok_def reported_def proc_names)
    next
      case False
      then show ?thesis using p s' keep by (cases c) (auto simp: fallible_def proc_names)
    qed
  qed
qed

section \<open>What \<open>wc\<close> has counted\<close>

text \<open>As long as no call has failed: \<open>ls\<close> writes everything, and \<open>wc\<close> sees the end of file only after it.\<close>

definition clean_ok :: "tools \<Rightarrow> pipeline \<Rightarrow> bool" where
  "clean_ok t s \<longleftrightarrow> (clean s \<longrightarrow>
     (\<forall>e. ended (child1 s) = Some e \<longrightarrow> e = Exited (ls_code t) \<and> written s = listing t) \<and>
     (\<forall>e. ended (child2 s) = Some e \<longrightarrow> e = Exited (wc_code t)) \<and>
     (ended (child2 s) \<noteq> None \<or> calls (child2 s) = [Exit (wc_code t)] \<longrightarrow>
        ended (child1 s) \<noteq> None \<and> in_pipe s = []))"

lemma live_children_hold:
  assumes "procs_ok t s"
  shows "alive (child1 s) \<Longrightarrow> holds Write_end (child1 s)" "alive (child2 s) \<Longrightarrow> holds Read_end (child2 s)"
  using assms unfolding procs_ok_def child1_ok_def child2_ok_def child1_states child2_states
  by (auto simp: holds_def pipe_fds_def)

text \<open>While nothing has failed, a child that has not ended keeps the other's end of the pipe in use.\<close>

lemma parent_open:
  assumes "procs_ok t s" "waits_ok s" "clean s" "w \<in> {Child1, Child2}" "ended (proc_of w s) = None"
  shows "ended (parent s) = None" "\<not> started (proc_of w s) \<Longrightarrow> table (parent s) = pipe_fds \<or> calls (parent s) = parent_program"
proof -
  show e: "ended (parent s) = None"
    using assms(2-5) by (cases "ended (parent s)") (auto simp: waits_ok_def waited_def clean_def)
  assume n: "\<not> started (proc_of w s)"
  have "(calls (parent s), table (parent s)) \<in> set (trace parent_program [])"
    using assms(1) e by (simp add: procs_ok_def parent_ok_def)
  moreover have "Fork w \<in> set (calls (parent s))" using assms(1,4) e n by (auto simp: procs_ok_def)
  ultimately show "table (parent s) = pipe_fds \<or> calls (parent s) = parent_program"
    unfolding parent_states using assms(4) by (auto simp: parent_program_def)
qed

lemma clean_mono:
  assumes "call_step t ok w s = Some s'" "clean s'"
  shows "clean s"
  using assms(1)
proof (cases rule: call_step_cases)
  case (performed c cs)
  with assms(2) show ?thesis by (cases c) (auto simp: clean_def split: if_splits list.splits)
qed (use assms(2) in \<open>auto simp: clean_def\<close>)

lemma died_not_clean [simp]: "\<not> clean (pipe_die w c s)"
  by (auto simp: clean_def)

lemma parent_step_frame:
  assumes inv: "procs_ok t s" and step: "call_step t ok Parent s = Some s'"
  shows "written s' = written s \<and> in_pipe s' = in_pipe s \<and>
    (\<forall>c \<in> {Child1, Child2}. proc_of c s' = proc_of c s \<or>
      \<not> started (proc_of c s) \<and> ended (proc_of c s') = None \<and> length (calls (proc_of c s')) = 4)"
  using step
proof (cases rule: call_step_cases)
  case (performed c cs)
  then have c: "calls (parent s) = c # cs" by (simp add: proc_of_def)
  note p = parent_calls [OF inv c]
  have n: "\<not> started (proc_of v s)" if "c = Fork v" for v
    using inv p c that by (auto simp: procs_ok_def)
  show ?thesis using performed p n by (cases c) (auto simp: program_defs)
qed simp

lemma clean_ok_parent:
  assumes inv: "procs_ok t s" "clean_ok t s" and step: "call_step t ok Parent s = Some s'"
  shows "clean_ok t s'"
proof -
  have "ended (child1 s) = None" if "\<not> started (child1 s)"
    using inv(1) that by (auto simp: procs_ok_def child1_ok_def alive_def not_started_def)
  moreover have "ended (child2 s) = None" "calls (child2 s) = []" if "\<not> started (child2 s)"
    using inv(1) that by (auto simp: procs_ok_def child2_ok_def alive_def not_started_def)
  ultimately show ?thesis
    using inv(2) parent_step_frame [OF inv(1) step] clean_mono [OF step]
    unfolding clean_ok_def proc_names by auto
qed

lemma clean_ok_child1:
  assumes inv: "procs_ok t s" "waits_ok s" "clean_ok t s" and step: "call_step t ok Child1 s = Some s'"
  shows "clean_ok t s'"
  using step
proof (cases rule: call_step_cases)
  case (died c cs)
  then show ?thesis by (simp add: clean_ok_def)
next
  case (performed c cs)
  then have c: "calls (child1 s) = c # cs" by (simp add: proc_of_def)
  note p = child1_calls [OF inv(1) c]
  have e: "ended (child1 s) = None" using p(1) by (simp add: alive_def)
  have o: "ended (child2 s) = None \<and> calls (child2 s) \<noteq> [Exit (wc_code t)]" if "clean s"
    using inv(3) e that by (auto simp: clean_ok_def)
  have held: "held Read_end s" if "clean s"
  proof (cases "started (child2 s)")
    case True
    then show ?thesis using live_children_hold(2) [OF inv(1)] o [OF that] by (auto simp: held_def alive_def)
  next
    case False
    have "table (parent s) = pipe_fds \<or> calls (parent s) = parent_program"
      using parent_open(2) [OF inv(1,2) that, of Child2] o [OF that] False by (simp add: proc_of_def)
    moreover have "calls (parent s) \<noteq> parent_program"
      using inv(1) parent_open(1) [OF inv(1,2) that, of Child1] e p(1)
      by (auto simp: procs_ok_def parent_program_def proc_of_def alive_def)
    ultimately show ?thesis by (auto simp: held_def holds_def pipe_fds_def)
  qed
  have "proc_of Child2 s' = proc_of Child2 s" "stderr s' = stderr s"
    using p(2) performed by (auto split: if_splits)
  moreover have "ended (proc_of Child1 s') = None \<or> (\<not> clean s) \<or>
      ended (proc_of Child1 s') = Some (Exited (ls_code t)) \<and> written s' = listing t"
    using p(2) performed held e by (auto simp: proc_names split: if_splits)
  ultimately show ?thesis using o unfolding clean_ok_def clean_def proc_names by auto
qed

lemma clean_ok_child2:
  assumes inv: "procs_ok t s" "waits_ok s" "clean_ok t s" and step: "call_step t ok Child2 s = Some s'"
  shows "clean_ok t s'"
  using step
proof (cases rule: call_step_cases)
  case (died c cs)
  then show ?thesis by (simp add: clean_ok_def)
next
  case (performed c cs)
  then have c: "calls (child2 s) = c # cs" by (simp add: proc_of_def)
  note p = child2_calls [OF inv(1) c]
  have e: "ended (child2 s) = None" "started (child2 s)" using p(1) by (simp_all add: alive_def)
  have eof: "ended (child1 s) \<noteq> None" if "clean s" "\<not> held Write_end s"
  proof
    assume n: "ended (child1 s) = None"
    then have ns: "\<not> started (child1 s)"
      using live_children_hold(1) [OF inv(1)] that(2) by (auto simp: alive_def held_def)
    have "table (parent s) = pipe_fds \<or> calls (parent s) = parent_program"
      using parent_open(2) [OF inv(1,2) that(1), of Child1] n ns by (simp add: proc_of_def)
    moreover have "calls (parent s) \<noteq> parent_program"
      using inv(1) parent_open(1) [OF inv(1,2) that(1), of Child1] n e(2)
      by (auto simp: procs_ok_def parent_program_def proc_of_def)
    ultimately show False using that(2) by (auto simp: held_def holds_def pipe_fds_def)
  qed
  have same: "proc_of Child1 s' = proc_of Child1 s" "written s' = written s"
    using p(2) performed by (auto split: if_splits list.splits)
  have "ended (proc_of Child2 s') = None \<and> calls (proc_of Child2 s') \<noteq> [Exit (wc_code t)] \<or>
      c = Count \<and> \<not> held Write_end s \<and> in_pipe s' = [] \<and> ended (proc_of Child2 s') = None \<or>
      c = Exit (wc_code t) \<and> cs = [] \<and> in_pipe s' = in_pipe s \<and> ended (proc_of Child2 s') = Some (Exited (wc_code t))"
    using p(2) performed e unfolding child2_states
    by (auto simp: proc_names child2_program_def program_of_def split: if_splits list.splits)
  then show ?thesis
  proof (elim disjE conjE)
    assume "c = Count" "\<not> held Write_end s" "in_pipe s' = []" "ended (proc_of Child2 s') = None"
    then show ?thesis using inv(3) eof clean_mono [OF step] unfolding clean_ok_def proc_names same by auto
  next
    assume "c = Exit (wc_code t)" "cs = []" "in_pipe s' = in_pipe s"
      "ended (proc_of Child2 s') = Some (Exited (wc_code t))"
    then show ?thesis using inv(3) c clean_mono [OF step] unfolding clean_ok_def proc_names same by auto
  next
    assume "ended (proc_of Child2 s') = None" "calls (proc_of Child2 s') \<noteq> [Exit (wc_code t)]"
    then show ?thesis using inv(3) clean_mono [OF step] unfolding clean_ok_def proc_names same by auto
  qed
qed

text \<open>The only signal is the one for a pipe without readers.\<close>

definition signals_ok :: "pipeline \<Rightarrow> bool" where
  "signals_ok s \<longleftrightarrow> (\<forall>w n. ended (proc_of w s) = Some (Signalled n) \<longrightarrow> n = SIGPIPE)"

lemma signals_ok_step:
  assumes "signals_ok s" "call_step t ok w s = Some s'"
  shows "signals_ok s'"
  using assms(2)
proof (cases rule: call_step_cases)
  case (performed c cs)
  with assms(1) show ?thesis by (cases c) (auto simp: signals_ok_def split: if_splits list.splits)
qed (use assms(1) in \<open>auto simp: signals_ok_def\<close>)

definition pipeline_inv :: "tools \<Rightarrow> pipeline \<Rightarrow> bool" where
  "pipeline_inv t s \<longleftrightarrow> procs_ok t s \<and> waits_ok s \<and> reports_ok s \<and> clean_ok t s \<and> signals_ok s"

lemma pipeline_inv_start: "pipeline_inv t pipeline_start"
  by (simp add: pipeline_inv_def procs_ok_start)
    (simp add: waits_ok_def reports_ok_def clean_ok_def signals_ok_def proc_of_def reports_def reported_def pipeline_start_def not_started_def
      parent_program_def split: who.splits)

lemma pipeline_inv_step:
  assumes "pipeline_inv t s" "pipeline_step t s s'"
  shows "pipeline_inv t s'"
proof -
  obtain ok w where step: "call_step t ok w s = Some s'" using assms(2) by (auto simp: pipeline_step_iff)
  show ?thesis
    using assms(1) step waits_ok_step [OF _ _ step] reports_ok_step [OF _ _ step] parent_procs_ok child1_procs_ok
      child2_procs_ok clean_ok_parent clean_ok_child1 clean_ok_child2 signals_ok_step [OF _ step]
    unfolding pipeline_inv_def by (metis (full_types) who.exhaust)
qed

interpretation pipeline_sys: invariant_system "\<lambda>s. s = pipeline_start" "pipeline_step t" "pipeline_inv t"
  by unfold_locales (simp add: pipeline_inv_start, erule (1) pipeline_inv_step)

abbreviation pipeline_reach :: "tools \<Rightarrow> pipeline \<Rightarrow> bool" where
  "pipeline_reach t \<equiv> reach (\<lambda>s. s = pipeline_start) (pipeline_step t)"

end
