(* ===== verification/Pipe_Theorems.thy ===== *)
theory Pipe_Theorems
  imports Pipe_Inv
begin

text \<open>
  The properties of \<open>Pipe\<close>: the pipeline neither hangs nor runs forever, whichever calls fail; what \<open>wc\<close> has
  counted; and what the parent reports.
\<close>

section \<open>Progress\<close>

text \<open>A process that cannot go on has ended, or waits for a child, reads an empty pipe or writes to a full one.\<close>

lemma blocked:
  assumes inv: "pipeline_inv t s" and none: "call_step t True w s = None" and alive: "alive (proc_of w s)"
  shows "w = Parent \<and> table (parent s) = [] \<and> (\<exists>c. alive (proc_of c s) \<and> c \<noteq> Parent) \<or>
    w = Child1 \<and> table (child1 s) = [(1, Write_end)] \<and> held Read_end s \<and> capacity t \<le> length (in_pipe s) \<or>
    w = Child2 \<and> table (child2 s) = [(0, Read_end)] \<and> held Write_end s \<and> in_pipe s = []"
proof (cases w)
  case Parent
  with alive have e: "ended (parent s) = None" by (simp add: alive_def proc_of_def)
  then have st: "(calls (parent s), table (parent s)) \<in> set (trace parent_program [])"
    using inv by (simp add: pipeline_inv_def procs_ok_def parent_ok_def)
  have w: "\<forall>c \<in> {Child1, Child2}. Wait c \<notin> set (calls (parent s)) \<longrightarrow> waited c s"
    using inv e by (auto simp: pipeline_inv_def waits_ok_def)
  have "\<exists>c \<in> {Child1, Child2}. \<exists>cs. calls (parent s) = Wait c # cs \<and> ended (proc_of c s) = None"
    using st w none unfolding parent_states Parent call_step_def
    by (auto simp: parent_program_def proc_of_def waited_def)
  then obtain c cs where c: "c \<in> {Child1, Child2}" "calls (parent s) = Wait c # cs" "ended (proc_of c s) = None" by blast
  then have "table (parent s) = [] \<and> Fork c \<notin> set (calls (parent s))"
    using st unfolding parent_states by (auto simp: parent_program_def)
  moreover from this have "started (proc_of c s)" using inv c e by (auto simp: pipeline_inv_def procs_ok_def)
  ultimately show ?thesis using Parent c by (auto simp: alive_def)
next
  case Child1
  have inv1: "procs_ok t s" using inv by (simp add: pipeline_inv_def)
  obtain c cs where c: "calls (child1 s) = c # cs"
    using inv1 alive Child1 unfolding procs_ok_def child1_ok_def child1_states
    by (cases "calls (child1 s)") (auto simp: proc_of_def child1_program_def)
  have "perform t Child1 c cs s = None" using none c Child1 by (simp add: call_step_def proc_of_def)
  then show ?thesis using child1_calls(2) [OF inv1 c] Child1 by (auto simp: proc_of_def split: if_splits)
next
  case Child2
  have inv1: "procs_ok t s" using inv by (simp add: pipeline_inv_def)
  obtain c cs where c: "calls (child2 s) = c # cs"
    using inv1 alive Child2 unfolding procs_ok_def child2_ok_def child2_states
    by (cases "calls (child2 s)") (auto simp: proc_of_def child2_program_def)
  have "perform t Child2 c cs s = None" using none c Child2 by (simp add: call_step_def proc_of_def)
  then show ?thesis using child2_calls(2) [OF inv1 c] Child2 by (auto simp: proc_of_def split: if_splits list.splits)
qed

lemma holds_live: "procs_ok t s \<Longrightarrow> holds e (proc_of w s) \<Longrightarrow> alive (proc_of w s)"
  by (cases w) (auto simp: procs_ok_def parent_ok_def child1_ok_def child2_ok_def proc_of_def holds_def idle_def
      alive_def not_started_def split: if_splits)

lemma stuck_pipeline:
  assumes inv: "pipeline_inv t s" and room: "0 < capacity t" and stuck: "\<forall>w. call_step t True w s = None"
  shows "\<not> alive (proc_of w s)"
proof -
  have b: "alive (proc_of w s) \<Longrightarrow>
    w = Parent \<and> table (parent s) = [] \<and> (\<exists>c. alive (proc_of c s) \<and> c \<noteq> Parent) \<or>
    w = Child1 \<and> table (child1 s) = [(1, Write_end)] \<and> held Read_end s \<and> capacity t \<le> length (in_pipe s) \<or>
    w = Child2 \<and> table (child2 s) = [(0, Read_end)] \<and> held Write_end s \<and> in_pipe s = []" for w
    using blocked [OF inv] stuck by blast
  have h: "holds e (proc_of w s) \<Longrightarrow> alive (proc_of w s)" for e w
    using holds_live [of t s] inv unfolding pipeline_inv_def by blast
  have p: "\<not> holds e (parent s)" for e
  proof
    assume e: "holds e (parent s)"
    then have "table (parent s) = []" using b [OF h [of e Parent]] by (simp add: proc_of_def)
    with e show False by (simp add: holds_def)
  qed
  have "\<not> alive (child1 s) \<and> \<not> alive (child2 s)"
  proof (rule ccontr)
    assume "\<not> ?thesis"
    moreover have "alive (child2 s)" if "alive (child1 s)"
    proof -
      have "table (child1 s) = [(1, Write_end)]" "held Read_end s" using b [of Child1] that by (simp_all add: proc_names)
      with p have "holds Read_end (child2 s)" by (simp add: held_def holds_def)
      with h [of Read_end Child2] show ?thesis by (simp add: proc_names)
    qed
    moreover have "alive (child1 s)" if "alive (child2 s)"
    proof -
      have "table (child2 s) = [(0, Read_end)]" "held Write_end s" using b [of Child2] that by (simp_all add: proc_names)
      with p have "holds Write_end (child1 s)" by (simp add: held_def holds_def)
      with h [of Write_end Child1] show ?thesis by (simp add: proc_names)
    qed
    ultimately have "alive (child1 s)" "alive (child2 s)" by blast+
    with b [of Child1] b [of Child2] room show False by (simp add: proc_names)
  qed
  then have c: "\<not> alive (proc_of v s)" if "v \<noteq> Parent" for v using that by (cases v) (simp_all add: proc_of_def)
  then have "\<not> alive (proc_of Parent s)" using b [of Parent] by blast
  with c show ?thesis by (cases "w = Parent") simp_all
qed

text \<open>Every call brings the end nearer: a bound on the calls that all processes have still to make.\<close>

definition run_cost :: "call \<Rightarrow> nat" where
  "run_cost c = (case c of Emit _ \<Rightarrow> 2 | _ \<Rightarrow> 1)"

definition exec_cost :: "tools \<Rightarrow> call \<Rightarrow> nat" where
  "exec_cost t c = (case c of Execlp f \<Rightarrow> 1 + sum_list (map run_cost (program_of t f)) | _ \<Rightarrow> run_cost c)"

definition cost :: "tools \<Rightarrow> call \<Rightarrow> nat" where
  "cost t c = (case c of
      Fork w \<Rightarrow> 1 + sum_list (map (exec_cost t) (if w = Child1 then child1_program else child2_program))
    | _ \<Rightarrow> exec_cost t c)"

definition work :: "tools \<Rightarrow> pipe_proc \<Rightarrow> nat" where
  "work t p = sum_list (map (cost t) (calls p))"

definition potential :: "tools \<Rightarrow> pipeline \<Rightarrow> nat" where
  "potential t s = work t (parent s) + work t (child1 s) + work t (child2 s) + length (in_pipe s)"

lemma cost_program: "sum_list (map (cost t) (program_of t f)) = sum_list (map run_cost (program_of t f))"
  by (simp add: program_of_def o_def cost_def exec_cost_def run_cost_def)

lemma cost_child: "sum_list (map (cost t) (if w = Child1 then child1_program else child2_program)) =
    sum_list (map (exec_cost t) (if w = Child1 then child1_program else child2_program))"
  by (simp add: program_defs cost_def)

lemma work_calls: "calls p = c # cs \<Longrightarrow> work t p = cost t c + sum_list (map (cost t) cs)"
  by (simp add: work_def)

lemma cost_pos: "0 < cost t c"
  by (simp add: cost_def exec_cost_def run_cost_def split: call.splits)

lemma potential_set_proc:
  "potential t (set_proc w p s) + work t (proc_of w s) = potential t s + work t p"
  by (cases w) (simp_all add: potential_def set_proc_def proc_of_def)

lemma potential_goes_on:
  "potential t (goes_on w c cs s) + work t (proc_of w s) = potential t s + sum_list (map (cost t) cs)"
  using potential_set_proc [of t w "(proc_of w s)\<lparr>table := effect c (table (proc_of w s)), calls := cs\<rparr>" s]
  by (simp add: goes_on_def work_def)

lemma potential_finish: "potential t (finish w e s) + work t (proc_of w s) = potential t s"
  using potential_set_proc [of t w "(proc_of w s)\<lparr>table := [], calls := [], ended := Some e\<rparr>" s]
  by (simp add: finish_def work_def)

lemma potential_frame [simp]:
  "potential t (s\<lparr>stderr := a\<rparr>) = potential t s" "potential t (s\<lparr>statuses := b\<rparr>) = potential t s"
  "potential t (s\<lparr>in_pipe := xs, written := c\<rparr>) + length (in_pipe s) = potential t s + length xs"
  "potential t (s\<lparr>in_pipe := xs, counted := d\<rparr>) + length (in_pipe s) = potential t s + length xs"
  by (simp_all add: potential_def)

lemma potential_decreases:
  assumes "call_step t ok w s = Some s'"
  shows "potential t s' < potential t s"
  using assms
proof (cases rule: call_step_cases)
  case (died c cs)
  with work_calls [of "proc_of w s" c cs t] cost_pos [of t c] potential_finish [of t w "Exited EXIT_FAILURE" s]
  show ?thesis by (simp add: pipe_die_def)
next
  case (performed c cs)
  note w = work_calls [OF performed(1), of t] and p = cost_pos [of t c] and g = potential_goes_on [of t w c _ s]
    and f = potential_finish [of t w _ s]
  show ?thesis
  proof (cases c)
    case (Fork v)
    let ?p = "\<lparr>started = True, table = table (proc_of w s),
       calls = (if v = Child1 then child1_program else child2_program), ended = None\<rparr>"
    have "cost t c = 1 + work t ?p" using cost_child [of t v] by (simp add: Fork cost_def work_def)
    moreover have "potential t s' + work t (proc_of v (goes_on w c cs s)) = potential t (goes_on w c cs s) + work t ?p"
      using performed(2) Fork potential_set_proc [of t v ?p "goes_on w c cs s"] by auto
    ultimately show ?thesis using g [of cs] w by simp
  next
    case (Execlp x)
    then have "cost t c = 1 + sum_list (map (cost t) (program_of t x))"
      by (simp add: cost_def exec_cost_def cost_program)
    then show ?thesis using g [of "program_of t x"] w performed(2) Execlp by simp
  next
    case (Emit x)
    then have "cost t c = 2" by (simp add: cost_def exec_cost_def run_cost_def)
    then show ?thesis
      using g [of cs] w performed(2) Emit f [of "Signalled SIGPIPE"]
        potential_frame(3) [where s = "goes_on w c cs s" and xs = "in_pipe s @ [x]" and t = t]
      by (auto split: if_splits)
  next
    case Count
    show ?thesis
    proof (cases "in_pipe s")
      case Nil
      then have "s' = goes_on w c cs s" using performed(2) Count by (simp split: if_splits)
      then show ?thesis using g [of cs] w p by simp
    next
      case (Cons x xs)
      then have "s' = s\<lparr>in_pipe := xs, counted := counted s @ [x]\<rparr>" using performed(2) Count by (simp split: if_splits)
      then show ?thesis using potential_frame(4) [where s = s and t = t and xs = xs and d = "counted s @ [x]"] Cons by simp
    qed
  next
    case (Exit n)
    then show ?thesis using f [of "Exited n"] w p performed(2) by simp
  qed (use g [of cs] w p performed(2) in \<open>auto\<close>)
qed

section \<open>Properties\<close>

text \<open>A schedule: which process makes its next call, and whether the call succeeds.\<close>

fun pipeline_run :: "tools \<Rightarrow> (who \<times> bool) list \<Rightarrow> pipeline \<Rightarrow> pipeline option" where
  "pipeline_run t [] s = Some s"
| "pipeline_run t ((w, ok) # sched) s = Option.bind (call_step t ok w s) (pipeline_run t sched)"

lemma pipeline_run_reach:
  "pipeline_reach t s \<Longrightarrow> pipeline_run t sched s = Some s' \<Longrightarrow> pipeline_reach t s'"
proof (induction t sched s rule: pipeline_run.induct)
  case (2 t w ok sched s)
  from "2.prems"(2) obtain s1 where 1: "call_step t ok w s = Some s1" "pipeline_run t sched s1 = Some s'"
    by (auto simp: bind_eq_Some_conv)
  show ?case by (rule "2.IH" [OF 1(1) reach_step [OF "2.prems"(1) call_of [OF 1(1)]] 1(2)])
qed simp

definition two_files :: tools where
  "two_files = \<lparr>listing = [''a'', ''b''], ls_code = 0, wc_code = 0, capacity = 1\<rparr>"

definition good_run :: "(who \<times> bool) list" where
  "good_run = map (\<lambda>w. (w, True)) (replicate 5 Parent @ replicate 5 Child1 @ replicate 5 Child2 @
     [Child1, Child2, Child1, Child2, Child2] @ replicate 5 Parent)"

text \<open>
  C20: however the three processes are scheduled and whichever of their calls fail, the pipeline never
  hangs, if a pipe can hold anything at all: in every reachable state none of the processes is alive any
  more, or one of them can make its next call. In particular \<open>wc\<close> gets its end of file, as no process keeps
  the write end open, and \<open>ls\<close> never waits for room in a pipe that nobody reads. And when \<open>wc\<close> has ended
  and no call has failed, it has read exactly what \<open>ls\<close> prints.
\<close>

theorem pipeline_ends:
  assumes "pipeline_reach t s" "0 < capacity t"
  shows "((\<forall>w. \<not> alive (proc_of w s)) \<or> (\<exists>w s'. call_step t True w s = Some s')) \<and>
    (clean s \<and> ended (child2 s) \<noteq> None \<longrightarrow> counted s = listing t)"
proof -
  have inv: "pipeline_inv t s" by (rule pipeline_sys.reach_inv [OF assms(1)])
  then have "counted s @ in_pipe s = written s" "clean_ok t s" by (simp_all add: pipeline_inv_def procs_ok_def)
  then have "clean s \<and> ended (child2 s) \<noteq> None \<longrightarrow> counted s = listing t" by (auto simp: clean_ok_def)
  moreover have "\<exists>w s'. call_step t True w s = Some s'" if "\<not> (\<forall>w. call_step t True w s = None)"
    using that by auto
  ultimately show ?thesis using stuck_pipeline [OF inv assms(2)] by blast
qed

lemma pipeline_ends_witness:
  "\<exists>s. pipeline_run two_files good_run pipeline_start = Some s \<and> counted s = [''a'', ''b''] \<and>
     (\<forall>w. \<not> alive (proc_of w s))"
proof -
  have "case pipeline_run two_files good_run pipeline_start of None \<Rightarrow> False
    | Some s \<Rightarrow> ended (child2 s) \<noteq> None \<and> stderr s = [] \<and> call_step two_files True Parent s = None \<and>
        call_step two_files True Child1 s = None \<and> call_step two_files True Child2 s = None"
    by code_simp
  then obtain s where s: "pipeline_run two_files good_run pipeline_start = Some s" "ended (child2 s) \<noteq> None"
    "stderr s = []" "call_step two_files True w s = None" for w
    by (auto split: option.splits) (metis who.exhaust)
  have r: "pipeline_reach two_files s" by (rule pipeline_run_reach [OF reach_start s(1)]) simp
  have "0 < capacity two_files" by (simp add: two_files_def)
  from pipeline_ends [OF r this] s show ?thesis by (auto simp: clean_def two_files_def)
qed

lemma start_potential: "potential t pipeline_start = 21 + 2 * length (listing t)"
  by (simp add: potential_def pipeline_start_def work_def not_started_def program_defs cost_def exec_cost_def
      run_cost_def program_of_def o_def sum_list_triv)

interpretation pipeline_runs: bounded_system "\<lambda>s. s = pipeline_start" "pipeline_step t" "pipeline_inv t"
    "pipeline_step t" "\<lambda>_ _. False" "potential t" "21 + 2 * length (listing t)" 0
  by unfold_locales (auto simp: start_potential pipeline_step_iff intro: potential_decreases)

lemma pipeline_run_counted:
  "runs_to (\<lambda>s. s = pipeline_start) (pipeline_step t) (\<lambda>_ _. False) n 0 s \<Longrightarrow> pipeline_run t sched s = Some s' \<Longrightarrow>
     runs_to (\<lambda>s. s = pipeline_start) (pipeline_step t) (\<lambda>_ _. False) (n + length sched) 0 s'"
proof (induction t sched s arbitrary: n rule: pipeline_run.induct)
  case (2 t w ok sched s)
  from "2.prems"(2) obtain s1 where 1: "call_step t ok w s = Some s1" "pipeline_run t sched s1 = Some s'"
    by (auto simp: bind_eq_Some_conv)
  from "2.IH" [OF 1(1) counted_turn [OF "2.prems"(1) call_of [OF 1(1)]] 1(2)] show ?case by simp
qed simp

text \<open>
  C24: every run ends: whatever the schedule and whichever calls fail, the processes make at most
  \<open>21 + 2 n\<close> calls and reads before nothing is left to do, where \<open>ls\<close> prints \<open>n\<close> items.
\<close>

theorem pipeline_terminates:
  assumes "pipeline_run t sched pipeline_start = Some s"
  shows "length sched \<le> 21 + 2 * length (listing t)"
  using pipeline_runs.turns_bounded [OF pipeline_run_counted [OF counted_start assms]] by simp

lemma pipeline_terminates_witness: "length good_run \<le> 25"
proof -
  have "pipeline_run two_files good_run pipeline_start \<noteq> None" by code_simp
  then obtain s where "pipeline_run two_files good_run pipeline_start = Some s" by blast
  from pipeline_terminates [OF this] show ?thesis by (simp add: two_files_def)
qed

text \<open>What the parent prints about a child.\<close>

definition exit_report :: "who \<Rightarrow> ending \<Rightarrow> pipe_message list" where
  "exit_report w e = (case e of
      Exited n \<Rightarrow> if n mod 256 = 0 then [] else [Exited_with w (word_of_int (n mod 256))]
    | Signalled _ \<Rightarrow> [])"

lemma report_ending:
  assumes "\<And>n. e = Signalled n \<Longrightarrow> n = SIGPIPE"
  shows "report w (wait_status e) = exit_report w e"
proof (cases e)
  case (Exited n)
  have u: "uint (WEXITSTATUS (wait_status (Exited n))) = n mod 256" by (rule wexitstatus_status)
  then have "WEXITSTATUS (wait_status (Exited n)) = word_of_int (n mod 256)" by (metis word_of_int_uint)
  moreover have "WEXITSTATUS (wait_status (Exited n)) = 0 \<longleftrightarrow> n mod 256 = 0" using u by (metis uint_0_iff)
  ultimately show ?thesis using Exited by (simp add: report_def exit_report_def wifexited_status)
next
  case (Signalled n)
  with assms [of n] signalled_status [of n] show ?thesis
    by (simp add: report_def exit_report_def SIGPIPE_def)
qed

text \<open>
  C21: what the parent returns and reports. It exits with 0 only after both children have ended, and has
  then reported exactly the children whose exit status, modulo 256, is not 0, first \<open>ls\<close> and then \<open>wc\<close>, and
  nothing of a child that was killed for writing into a pipe without readers. Otherwise it exits with 1,
  one of its own calls has failed, with a message, and it has reported no child.
\<close>

theorem pipeline_reports:
  assumes "pipeline_reach t s" "ended (parent s) = Some e"
  shows "(e = Exited 0 \<and> (\<exists>e1 e2. ended (child1 s) = Some e1 \<and> ended (child2 s) = Some e2 \<and>
      reports s = exit_report Child1 e1 @ exit_report Child2 e2)) \<or>
    (e = Exited 1 \<and> (\<exists>c. Failed Parent c \<in> set (stderr s)) \<and> reports s = [])"
proof -
  have inv: "pipeline_inv t s" by (rule pipeline_sys.reach_inv [OF assms(1)])
  then have sig: "signals_ok s" and rep: "reports_ok s" and idle: "idle (parent s)"
    using assms(2) by (simp_all add: pipeline_inv_def procs_ok_def parent_ok_def)
  consider "e = Exited 0" "waited Child1 s" "waited Child2 s"
    | "e = Exited 1" "\<exists>c. Failed Parent c \<in> set (stderr s)"
    using inv assms(2) by (auto simp: pipeline_inv_def waits_ok_def)
  moreover have r: "report c (wait_status x) = exit_report c x" if "ended (proc_of c s) = Some x" for c x
    by (rule report_ending) (use sig that in \<open>auto simp: signals_ok_def\<close>)
  ultimately show ?thesis
  proof cases
    case 1
    then obtain e1 e2 where e: "ended (proc_of Child1 s) = Some e1" "statuses s Child1 = Some (wait_status e1)"
      "ended (proc_of Child2 s) = Some e2" "statuses s Child2 = Some (wait_status e2)" by (auto simp: waited_def)
    have "reports s = report Child1 (wait_status e1) @ report Child2 (wait_status e2)"
      using rep 1 e idle assms(2) by (simp add: reports_ok_def reported_def idle_def)
    also have "\<dots> = exit_report Child1 e1 @ exit_report Child2 e2"
      using r e by simp
    finally show ?thesis using 1 e by (simp add: proc_names)
  next
    case 2
    then show ?thesis using rep assms(2) by (simp add: reports_ok_def)
  qed
qed

definition no_wc_run :: "(who \<times> bool) list" where
  "no_wc_run = map (\<lambda>w. (w, True)) (replicate 3 Parent @ replicate 3 Child2) @ [(Child2, False)] @
     map (\<lambda>w. (w, True)) (replicate 2 Parent @ replicate 5 Child1 @ replicate 5 Parent)"

lemma pipeline_reports_witness:
  "\<exists>s. pipeline_run two_files no_wc_run pipeline_start = Some s \<and> ended (parent s) = Some (Exited 0) \<and>
     ended (child1 s) = Some (Signalled SIGPIPE) \<and> reports s = [Exited_with Child2 1]"
proof -
  have "case pipeline_run two_files no_wc_run pipeline_start of None \<Rightarrow> False
    | Some s \<Rightarrow> ended (parent s) = Some (Exited 0) \<and> ended (child1 s) = Some (Signalled SIGPIPE) \<and>
        ended (child2 s) = Some (Exited 1)" by code_simp
  then obtain s where s: "pipeline_run two_files no_wc_run pipeline_start = Some s"
    "ended (parent s) = Some (Exited 0)" "ended (child1 s) = Some (Signalled SIGPIPE)" "ended (child2 s) = Some (Exited 1)"
    by (auto split: option.splits)
  have r: "pipeline_reach two_files s" by (rule pipeline_run_reach [OF reach_start s(1)]) simp
  from pipeline_reports [OF r s(2)] s show ?thesis by (simp add: exit_report_def)
qed

end
