(* ===== verification/Shared_Memory.thy ===== *)
theory Shared_Memory
  imports C_Lib
begin

text \<open>
  \<open>S9_IPC_Shared_Memory\<close>: \<open>posix_shm_producer.c\<close> reads a product from standard input straight into a shared
  memory object, \<open>posix_shm_consumer.c\<close> prints it and removes the object. Prices are of an arbitrary type
  \<open>'p\<close>: what \<open>scanf (%f)\<close> makes of the input and what \<open>printf (%.2f)\<close> prints are parameters.
\<close>

section \<open>The product\<close>

text \<open>The contents of the object; \<open>name\<close> is an array of 50 bytes, here the string in it.\<close>

record 'p product =
  p_name :: string
  p_id :: int32
  p_price :: 'p

definition NAME_SIZE :: nat where "NAME_SIZE = 50"

text \<open>
  \<open>scanf (%d)\<close>: white space, a sign and digits; the number, or \<open>None\<close> when there is no digit, and the
  input that is left.
\<close>

definition scan_int :: "string \<Rightarrow> int32 option \<times> string" where
  "scan_int inp =
     (let (neg, u) = strtol_sign (dropWhile c_isspace inp); ds = takeWhile c_isdigit u; v = int (digits_val ds)
      in if ds = [] then (None, u)
         else (Some (word_of_int (clamp_long (if neg then - v else v))), dropWhile c_isdigit u))"

definition put_int :: "int32 \<Rightarrow> string" where
  "put_int v = (if sint v < 0 then ''-'' @ dec (nat (- sint v)) else dec (nat (sint v)))"

section \<open>The two programs\<close>

text \<open>
  \<open>shm\<close> is the object, if there is one; a new one is filled with zeros. The result is the exit status, the
  text printed, and the object.
\<close>

definition shm_producer ::
  "(string \<Rightarrow> 'p option \<times> string) \<Rightarrow> ('p \<Rightarrow> string) \<Rightarrow> 'p \<Rightarrow> string \<Rightarrow> 'p product option \<Rightarrow>
     nat \<times> string list \<times> 'p product option" where
  "shm_producer scan_float show_price zero inp shm =
     (let p0 = (case shm of None \<Rightarrow> \<lparr>p_name = [], p_id = 0, p_price = zero\<rparr> | Some p \<Rightarrow> p);
          prompts = [''[Producer] Enter information about product:'' @ [newline], ''Product ID: ''];
          (i, r1) = scan_int inp;
          p1 = (case i of None \<Rightarrow> p0 | Some v \<Rightarrow> p0\<lparr>p_id := v\<rparr>) in
      case fgets NAME_SIZE (drop 1 r1) of
        None \<Rightarrow> (1, prompts @ [''Product name: ''], Some p1)
      | Some (buf, r2) \<Rightarrow>
          (let p2 = p1\<lparr>p_name := cut_at (strcspn (c_str buf) [newline]) (c_str buf)\<rparr>;
               p3 = (case fst (scan_float r2) of None \<Rightarrow> p2 | Some x \<Rightarrow> p2\<lparr>p_price := x\<rparr>) in
           (0, prompts @ [''Product name: '', ''Product price: '',
              ''[Producer] Wrote: ID:'' @ put_int (p_id p3) @ '' | Name:'' @ p_name p3 @ '' | Price:'' @
                show_price (p_price p3) @ [newline]], Some p3)))"

definition shm_consumer :: "('p \<Rightarrow> string) \<Rightarrow> 'p product option \<Rightarrow> nat \<times> string list \<times> 'p product option" where
  "shm_consumer show_price shm =
     (case shm of
        None \<Rightarrow> (1, [], None)
      | Some p \<Rightarrow> (0, [''[Consummer] Read: ID:'' @ put_int (p_id p) @ '' | Name:'' @ p_name p @ '' | Price:'' @
          show_price (p_price p) @ [newline]], None))"

section \<open>Properties\<close>

lemma scan_int_dec:
  assumes "n < 2 ^ 31" "r = [] \<or> \<not> c_isdigit (hd r)"
  shows "scan_int (dec n @ r) = (Some (word_of_nat n), r)"
proof -
  have "strtol (dec n @ r) = (min (2 ^ 63 - 1) (int n), r)" by (rule strtol_dec [OF assms(2)])
  moreover have "min (2 ^ 63 - 1) (int n) = int n" using assms(1) by simp
  ultimately show ?thesis
    by (auto simp: scan_int_def strtol_def Let_def case_prod_beta split: if_splits)
qed

lemma put_int_nat: "n < 2 ^ 31 \<Longrightarrow> put_int (word_of_nat n) = dec n"
  using atoi_dec [of n] by (simp add: put_int_def atoi_def strtol_dec [of "[]", simplified])

text \<open>
  C32: what is typed into the producer is what the consumer prints, for a product number below 2^31, a
  name of at most 48 characters and any price that \<open>scanf\<close> reads; and the object is gone afterwards. Of a
  longer name the first 49 characters are stored, and the rest of the line is what \<open>scanf\<close> gets to read
  as the price.
\<close>

theorem product_arrives:
  assumes "n < 2 ^ 31" "newline \<notin> set name" "CHR 0x00 \<notin> set name"
  shows "case shm_producer scan_float show_price zero (dec n @ [newline] @ name @ [newline] @ price) shm of
      (status, _, shm') \<Rightarrow> status = 0 \<and> (\<exists>p. shm' = Some p \<and> p_name p = take 49 name \<and>
        shm_consumer show_price shm' = (0, [''[Consummer] Read: ID:'' @ dec n @ '' | Name:'' @ take 49 name @
          '' | Price:'' @ show_price (p_price p) @ [newline]], None) \<and>
        (if length name \<le> 48 then \<forall>x r. scan_float price = (Some x, r) \<longrightarrow> p_price p = x
         else \<forall>x r. scan_float (drop 49 name @ [newline] @ price) = (Some x, r) \<longrightarrow> p_price p = x))"
proof -
  have i: "scan_int (dec n @ [newline] @ name @ [newline] @ price) = (Some (word_of_nat n), [newline] @ name @ [newline] @ price)"
    by (rule scan_int_dec [OF assms(1)]) (simp add: c_isdigit_def newline_def)
  have nul: "c_str (take k (name @ [newline])) = take k (name @ [newline])" for k
    using assms(3) by (intro c_str_id) (auto simp: newline_def dest: in_set_takeD)
  have tw: "takeWhile (\<lambda>c. c \<noteq> newline) (name @ newline # r) = name" for r
    using assms(2) by (subst takeWhile_append2) auto
  have f: "fgets 50 (name @ [newline] @ price) = Some (take 49 (name @ [newline]),
      if length name \<le> 48 then price else drop 49 name @ [newline] @ price)"
    using tw [of price] by (auto simp: fgets_def Let_def min_def)
  have name: "cut_at (strcspn (take 49 (name @ [newline])) [newline]) (take 49 (name @ [newline])) = take 49 name"
  proof (cases "length name \<le> 48")
    case True
    then show ?thesis using tw [of "[]"] by (simp add: cut_strcspn)
  next
    case False
    then show ?thesis using assms(2) by (auto simp: cut_strcspn takeWhile_eq_all_conv dest: in_set_takeD)
  qed
  show ?thesis using i f name nul [of 49]
    by (cases "length name \<le> 48"; cases shm)
      (auto simp: shm_producer_def shm_consumer_def Let_def NAME_SIZE_def put_int_nat [OF assms(1)]
        split: option.split)
qed

lemma product_arrives_witness:
  "shm_consumer id (snd (snd (shm_producer (\<lambda>s. (Some s, [])) id [] (dec 7 @ [newline] @ ''tea'' @ [newline] @ ''2.50'') None))) =
     (0, [''[Consummer] Read: ID:'' @ dec 7 @ '' | Name:tea | Price:2.50'' @ [newline]], None)"
  using product_arrives [where n = 7 and name = "''tea''" and scan_float = "\<lambda>s. (Some s, [])" and show_price = id
      and zero = "[]" and price = "''2.50''" and shm = None]
  by (auto simp: newline_def split: prod.splits)

end
