(* ===== verification/Process_Table.thy ===== *)
theory Process_Table
  imports Prelude
begin

text \<open>
  \<open>zombie.c\<close> and \<open>orphan.c\<close> of \<open>S3_Process\<close>: a parent that does not wait for its child. What the programs show
  is the state of the process table: every process that has ended stays as a zombie until its parent waits for
  it, and the children of a process that has ended are given to another process, \<open>reaper\<close> (in most systems
  number 1). The two programs never wait; the shell that has started the parent, and the reaper, wait for their
  children, each at a time of its own, as soon or as late as they like. Processes run at any speed: the clock may
  advance at any moment, also while processes are ready, and all that \<open>sleep (n)\<close> promises is that the process is
  not ready before the clock has advanced by \<open>n\<close>.
\<close>

section \<open>Processes\<close>

datatype process_op = Fork "process_op list" | Say_child | Say_before | Say_after | Say_parent | Sleep nat | Exit int

definition zombie_main :: "process_op list" where
  "zombie_main = [Fork [Say_child, Exit 0], Say_parent, Sleep 30, Exit 0]"

definition orphan_main :: "process_op list" where
  "orphan_main = [Fork [Say_before, Sleep 3, Say_after, Exit 0], Say_parent, Exit 0]"

text \<open>The lines, with the numbers that \<open>getpid\<close> and \<open>getppid\<close> or \<open>fork\<close> have returned.\<close>

datatype ptable_line = Child_is int int | Before int int | After int int | Parent_of int int | Fork_failed

text \<open>\<open>wake\<close> is when the process is ready again, \<open>forked\<close> the variable \<open>child_pid\<close>.\<close>

record entry =
  ppid :: int
  todo :: "process_op list"
  wake :: nat
  forked :: int
  zombie :: bool

record ptable =
  procs :: "int \<rightharpoonup> entry"
  clock :: nat
  out :: "ptable_line list"

definition ptable_start :: "process_op list \<Rightarrow> int \<Rightarrow> int \<Rightarrow> ptable" where
  "ptable_start prog pid shell = \<lparr>procs = [pid \<mapsto> \<lparr>ppid = shell, todo = prog, wake = 0, forked = 0, zombie = False\<rparr>],
     clock = 0, out = []\<rparr>"

text \<open>The end of process \<open>i\<close>: it is a zombie now, and its children, zombies or not, are children of \<open>reaper\<close>.\<close>

definition end_process :: "int \<Rightarrow> int \<Rightarrow> ptable \<Rightarrow> ptable" where
  "end_process reaper i s =
     s\<lparr>procs := (\<lambda>k. map_option (\<lambda>e. if k = i then e\<lparr>todo := [], zombie := True\<rparr>
         else if ppid e = i then e\<lparr>ppid := reaper\<rparr> else e) (procs s k))\<rparr>"

text \<open>A process outside the two programs, the shell or the reaper, waits for its child \<open>c\<close>, which has ended.\<close>

definition wait_step :: "int \<Rightarrow> ptable \<Rightarrow> ptable option" where
  "wait_step c s = (case procs s c of
      None \<Rightarrow> None
    | Some e \<Rightarrow> if zombie e \<and> procs s (ppid e) = None then Some (s\<lparr>procs := (procs s)(c := None)\<rparr>) else None)"

definition ready :: "nat \<Rightarrow> entry \<Rightarrow> bool" where
  "ready now e \<longleftrightarrow> \<not> zombie e \<and> wake e \<le> now"

definition say :: "int \<Rightarrow> entry \<Rightarrow> process_op \<Rightarrow> ptable_line list" where
  "say i e a = (case a of
      Say_child \<Rightarrow> [Child_is i (ppid e)]
    | Say_before \<Rightarrow> [Before i (ppid e)]
    | Say_after \<Rightarrow> [After i (ppid e)]
    | Say_parent \<Rightarrow> [Parent_of i (forked e)]
    | _ \<Rightarrow> [])"

definition next_wake :: "nat \<Rightarrow> entry \<Rightarrow> process_op \<Rightarrow> nat" where
  "next_wake now e a = (case a of Sleep n \<Rightarrow> now + n | _ \<Rightarrow> wake e)"

text \<open>
  The next action of process \<open>i\<close>. \<open>new\<close> is the number \<open>fork\<close> gives to the child, \<open>None\<close> when it fails; then
  the program returns 1. A new number is not in use.
\<close>

definition action_step :: "int \<Rightarrow> int option \<Rightarrow> int \<Rightarrow> ptable \<Rightarrow> ptable option" where
  "action_step reaper new i s =
     (case procs s i of
        None \<Rightarrow> None
      | Some e \<Rightarrow> if \<not> ready (clock s) e then None else
          (case todo e of
             [] \<Rightarrow> None
           | Fork body # as \<Rightarrow> (case new of
                 None \<Rightarrow> Some (s\<lparr>procs := (procs s)(i \<mapsto> e\<lparr>todo := [Exit 1]\<rparr>), out := out s @ [Fork_failed]\<rparr>)
               | Some c \<Rightarrow> if procs s c \<noteq> None \<or> c \<le> 0 \<or> c = reaper \<or> c = ppid e then None
                   else Some (s\<lparr>procs := (procs s)(i \<mapsto> e\<lparr>todo := as, forked := c\<rparr>,
                     c \<mapsto> \<lparr>ppid = i, todo = body, wake = 0, forked = 0, zombie = False\<rparr>)\<rparr>))
           | Exit n # as \<Rightarrow> Some (end_process reaper i s)
           | a # as \<Rightarrow> Some (s\<lparr>procs := (procs s)(i \<mapsto> e\<lparr>todo := as, wake := next_wake (clock s) e a\<rparr>),
               out := out s @ say i e a\<rparr>)))"

inductive table_step :: "int \<Rightarrow> ptable \<Rightarrow> ptable \<Rightarrow> bool" for reaper where
  acts: "action_step reaper new i s = Some s' \<Longrightarrow> table_step reaper s s'"
| waits: "wait_step c s = Some s' \<Longrightarrow> table_step reaper s s'"
| tick: "table_step reaper s (s\<lparr>clock := Suc (clock s)\<rparr>)"

abbreviation later :: "int \<Rightarrow> ptable \<Rightarrow> ptable \<Rightarrow> bool" where
  "later reaper \<equiv> (table_step reaper)\<^sup>*\<^sup>*"

text \<open>Whether process \<open>i\<close> is there and has not ended.\<close>

definition lives :: "int \<Rightarrow> ptable \<Rightarrow> bool" where
  "lives i s \<longleftrightarrow> (case procs s i of None \<Rightarrow> False | Some e \<Rightarrow> \<not> zombie e)"

section \<open>Straight programs\<close>

text \<open>
  After \<open>fork\<close> both processes of both programs only print and sleep, and exit at the end. \<open>slept\<close> adds up the
  seconds in a list of actions; \<open>at_point\<close> says that a process is at some point of its program, and has slept all
  that is in front of that point once it is ready.
\<close>

definition slept :: "process_op list \<Rightarrow> nat" where
  "slept as = sum_list (map (\<lambda>a. case a of Sleep n \<Rightarrow> n | _ \<Rightarrow> 0) as)"

lemma slept_simps [simp]:
  "slept [] = 0" "slept (a # as) = (case a of Sleep n \<Rightarrow> n | _ \<Rightarrow> 0) + slept as" "slept (as @ bs) = slept as + slept bs"
  by (simp_all add: slept_def)

definition straight :: "process_op set \<Rightarrow> process_op list \<Rightarrow> bool" where
  "straight says pr \<longleftrightarrow> distinct pr \<and> (\<forall>a \<in> says. case a of Fork _ \<Rightarrow> False | Exit _ \<Rightarrow> False | _ \<Rightarrow> True) \<and>
     (\<exists>xs n. pr = xs @ [Exit n] \<and> (\<forall>a \<in> set xs. a \<in> says \<or> (\<exists>n. a = Sleep n)))"

definition at_point :: "process_op list \<Rightarrow> nat \<Rightarrow> entry \<Rightarrow> bool" where
  "at_point pr now e \<longleftrightarrow> (\<exists>before. pr = before @ todo e \<and> (zombie e \<longleftrightarrow> todo e = []) \<and>
     slept before \<le> (if zombie e then now else wake e))"

text \<open>What a process has done, \<open>pr\<close> when it has been removed.\<close>

definition done_ops :: "process_op list \<Rightarrow> entry option \<Rightarrow> process_op set" where
  "done_ops pr x = (case x of None \<Rightarrow> set pr | Some e \<Rightarrow> set pr - set (todo e))"

lemma at_point_ppid [simp]: "at_point pr now (e\<lparr>ppid := q\<rparr>) = at_point pr now e"
  by (simp add: at_point_def)

lemma at_point_tick: "at_point pr now e \<Longrightarrow> at_point pr (Suc now) e"
  by (force simp: at_point_def)

text \<open>A process that is ready: its action is an exit at the end of its program, or printing or sleeping.\<close>

lemma at_point_act [consumes 4, case_names exit plain]:
  assumes "at_point pr now e" "straight says pr" "ready now e" "todo e = a # as"
  obtains (exit) n where "a = Exit n" "as = []" "at_point pr now (e\<lparr>todo := [], zombie := True\<rparr>)"
  | (plain) "a \<in> says \<or> (\<exists>n. a = Sleep n)" "\<not> (\<exists>n. a = Exit n)" "as \<noteq> []"
      "at_point pr now (e\<lparr>todo := as, wake := next_wake now e a\<rparr>)"
      "done_ops pr (Some (e\<lparr>todo := as, wake := next_wake now e a\<rparr>)) = insert a (done_ops pr (Some e))"
      "slept (takeWhile (\<lambda>x. x \<noteq> a) pr) \<le> now"
proof -
  obtain before where b: "pr = before @ a # as" "slept before \<le> wake e" "wake e \<le> now" "\<not> zombie e"
    using assms by (auto simp: at_point_def ready_def)
  obtain xs n where x: "pr = xs @ [Exit n]" "\<forall>a \<in> set xs. a \<in> says \<or> (\<exists>n. a = Sleep n)"
    "\<forall>a \<in> says. case a of Fork _ \<Rightarrow> False | Exit _ \<Rightarrow> False | _ \<Rightarrow> True" "distinct pr"
    using assms(2) by (auto simp: straight_def)
  show thesis
  proof (cases "as = []")
    case True
    then have "a = Exit n" using b(1) x(1) by simp
    then show thesis using exit [of n] True b by (auto simp: at_point_def intro!: exI [of _ pr])
  next
    case False
    then obtain ys where ys: "as = ys @ [Exit n]" "xs = before @ a # ys" using b(1) x(1)
      by (metis append_butlast_last_id append_is_Nil_conv butlast.simps(2) butlast_append butlast_snoc last_appendR
          last_ConsR last_snoc list.distinct(1))
    then have a: "a \<in> says \<or> (\<exists>n. a = Sleep n)" "\<not> (\<exists>n. a = Exit n)" using x(2,3) by auto
    have t: "takeWhile (\<lambda>x. x \<noteq> a) pr = before" using x(4) b(1) by (subst b(1), subst takeWhile_append2) auto
    show thesis
    proof (rule plain [OF a False])
      show "at_point pr now (e\<lparr>todo := as, wake := next_wake now e a\<rparr>)"
        using b False unfolding at_point_def
        by (intro exI [of _ "before @ [a]"]) (auto simp: next_wake_def split: process_op.splits)
      show "done_ops pr (Some (e\<lparr>todo := as, wake := next_wake now e a\<rparr>)) = insert a (done_ops pr (Some e))"
        using assms(4) x(4) b(1) by (auto simp: done_ops_def)
      show "slept (takeWhile (\<lambda>x. x \<noteq> a) pr) \<le> now" using t b(2,3) by simp
    qed
  qed
qed

section \<open>Parent and child\<close>

text \<open>
  After \<open>fork\<close>: the parent \<open>P\<close> of the shell \<open>H\<close> at some point of \<open>pr\<close> or removed by the shell, and its child \<open>c\<close> at
  some point of \<open>body\<close>, which has \<open>P\<close> as its parent while \<open>P\<close> lives and \<open>R\<close> afterwards, and is not removed before.
\<close>

definition relatives :: "process_op list \<Rightarrow> process_op list \<Rightarrow> int \<Rightarrow> int \<Rightarrow> int \<Rightarrow> int \<Rightarrow> ptable \<Rightarrow> bool" where
  "relatives pr body R P H c s \<longleftrightarrow> c \<notin> {P, H, R} \<and> (\<forall>k. k \<noteq> P \<and> k \<noteq> c \<longrightarrow> procs s k = None) \<and>
     (case procs s P of None \<Rightarrow> slept pr \<le> clock s | Some e \<Rightarrow> ppid e = H \<and> forked e = c \<and> at_point pr (clock s) e) \<and>
     (case procs s c of None \<Rightarrow> \<not> lives P s
      | Some e \<Rightarrow> ppid e = (if lives P s then P else R) \<and> at_point body (clock s) e)"

text \<open>The lines: nothing but what the two have printed, with the parent of that moment, and all that they have printed.\<close>

definition lines_ok :: "process_op list \<Rightarrow> process_op list \<Rightarrow> int \<Rightarrow> int \<Rightarrow> int \<Rightarrow> ptable \<Rightarrow> bool" where
  "lines_ok pr body R P c s \<longleftrightarrow>
     (\<forall>l \<in> set (out s). l = Parent_of P c \<or>
        (\<exists>q. l \<in> {Child_is c q, Before c q, After c q} \<and> (q = P \<or> q = R \<and> \<not> lives P s) \<and>
          (l = After c q \<longrightarrow> slept (takeWhile (\<lambda>a. a \<noteq> Say_after) body) \<le> clock s))) \<and>
     (Say_parent \<in> done_ops pr (procs s P) \<longrightarrow> Parent_of P c \<in> set (out s)) \<and>
     (Say_before \<in> done_ops body (procs s c) \<longrightarrow> (\<exists>q. Before c q \<in> set (out s))) \<and>
     (Say_after \<in> done_ops body (procs s c) \<longrightarrow> (\<exists>q. After c q \<in> set (out s)))"

text \<open>The states of a program \<open>Fork body # pr\<close>: before \<open>fork\<close>, after one that has failed, and with both processes.\<close>

definition table_inv :: "process_op list \<Rightarrow> process_op list \<Rightarrow> int \<Rightarrow> int \<Rightarrow> int \<Rightarrow> ptable \<Rightarrow> bool" where
  "table_inv pr body R P H s \<longleftrightarrow>
     procs s = [P \<mapsto> \<lparr>ppid = H, todo = Fork body # pr, wake = 0, forked = 0, zombie = False\<rparr>] \<and> out s = [] \<or>
     out s = [Fork_failed] \<and> (\<forall>k. k \<noteq> P \<longrightarrow> procs s k = None) \<and>
       (\<forall>e. procs s P = Some e \<longrightarrow> ppid e = H \<and> (todo e = [Exit 1] \<and> \<not> zombie e \<or> zombie e)) \<or>
     (\<exists>c. relatives pr body R P H c s \<and> lines_ok pr body R P c s)"

lemma plain_step:
  assumes "procs s i = Some e" "ready (clock s) e" "todo e = a # as" "case a of Fork _ \<Rightarrow> False | Exit _ \<Rightarrow> False | _ \<Rightarrow> True"
  shows "action_step R new i s = Some (s\<lparr>procs := (procs s)(i \<mapsto> e\<lparr>todo := as, wake := next_wake (clock s) e a\<rparr>),
     out := out s @ say i e a\<rparr>)"
  using assms by (auto simp: action_step_def split: process_op.splits)

lemma exit_step:
  assumes "procs s i = Some e" "ready (clock s) e" "todo e = Exit n # as"
  shows "action_step R new i s = Some (end_process R i s)"
  using assms by (simp add: action_step_def)

lemma action_ready:
  assumes "action_step R new i s = Some s'"
  obtains e a as where "procs s i = Some e" "ready (clock s) e" "todo e = a # as"
  using assms by (auto simp: action_step_def split: option.splits if_splits list.splits)

lemma lives_simps:
  "procs s P = None \<Longrightarrow> \<not> lives P s" "procs s P = Some e \<Longrightarrow> lives P s \<longleftrightarrow> \<not> zombie e"
  by (simp_all add: lives_def)

text \<open>The two programs as \<open>fork\<close> leaves them; what they may print.\<close>

locale two_programs =
  fixes pr body :: "process_op list"
  assumes parent_straight: "straight {Say_parent} pr"
    and child_straight: "straight {Say_child, Say_before, Say_after} body"
begin

lemma parent_acts:
  assumes r: "relatives pr body R P H c s" and l: "lines_ok pr body R P c s" and n: "P \<noteq> H" "P \<noteq> R"
    and step: "action_step R new P s = Some s'"
  shows "relatives pr body R P H c s' \<and> lines_ok pr body R P c s'"
proof -
  obtain e a as where e: "procs s P = Some e" "ready (clock s) e" "todo e = a # as" using step by (rule action_ready)
  have pe: "ppid e = H" "forked e = c" "at_point pr (clock s) e" and c: "c \<noteq> P" "c \<noteq> H" "c \<noteq> R"
    using r e(1) by (auto simp: relatives_def)
  have liv: "lives P s" using e(1,2) by (simp add: lives_simps ready_def)
  then obtain d where d: "procs s c = Some d" "ppid d = P" "at_point body (clock s) d"
    using r by (auto simp: relatives_def split: option.splits)
  from pe(3) parent_straight e(2,3) show ?thesis
  proof (cases rule: at_point_act)
    case (exit n)
    have s': "s' = end_process R P s" using exit_step [OF e(1,2) e(3) [unfolded exit(1)]] step by simp
    have p: "procs s' P = Some (e\<lparr>todo := [], zombie := True\<rparr>)" "procs s' c = Some (d\<lparr>ppid := R\<rparr>)"
      "\<forall>k. k \<noteq> P \<and> k \<noteq> c \<longrightarrow> procs s' k = None" "clock s' = clock s" "out s' = out s"
      using s' e d c r by (auto simp: end_process_def relatives_def)
    have "\<not> lives P s'" using p by (simp add: lives_simps)
    moreover have "at_point body (clock s) (d\<lparr>ppid := R\<rparr>)" using d(3) by simp
    ultimately have "relatives pr body R P H c s'"
      using p c pe exit(3) by (simp add: relatives_def)
    moreover have "done_ops pr (procs s' P) = set pr" "Say_parent \<in> set pr \<Longrightarrow> Say_parent \<in> done_ops pr (procs s P)"
      "done_ops body (procs s' c) = done_ops body (procs s c)"
      using p e d exit(1,2) by (auto simp: done_ops_def)
    ultimately show ?thesis using l liv \<open>\<not> lives P s'\<close> p(4,5) by (auto simp: lines_ok_def)
  next
    case plain
    have "s' = s\<lparr>procs := (procs s)(P \<mapsto> e\<lparr>todo := as, wake := next_wake (clock s) e a\<rparr>), out := out s @ say P e a\<rparr>"
      using plain_step [OF e] plain(1) step by auto
    then have p: "procs s' P = Some (e\<lparr>todo := as, wake := next_wake (clock s) e a\<rparr>)" "procs s' c = procs s c"
      "\<forall>k. k \<noteq> P \<longrightarrow> procs s' k = procs s k" "clock s' = clock s" "out s' = out s @ say P e a" using c by simp_all
    have liv': "lives P s'" using p(1) liv e(1) by (simp add: lives_simps)
    have "relatives pr body R P H c s'"
      using r p liv liv' pe plain(4) d unfolding relatives_def by simp
    moreover have "say P e a = (if a = Say_parent then [Parent_of P c] else [])" using plain(1) pe(2) by (auto simp: say_def)
    moreover have "done_ops pr (procs s' P) = insert a (done_ops pr (procs s P))" using plain(5) p(1) e(1) by simp
    ultimately show ?thesis using l liv liv' p(2,4,5) by (auto simp: lines_ok_def)
  qed
qed

lemma child_acts:
  assumes r: "relatives pr body R P H c s" and l: "lines_ok pr body R P c s" and n: "P \<noteq> H" "P \<noteq> R"
    and step: "action_step R new c s = Some s'"
  shows "relatives pr body R P H c s' \<and> lines_ok pr body R P c s'"
    "lives P s' \<longleftrightarrow> lives P s"
    "\<exists>ls. out s' = out s @ ls \<and> (\<not> lives P s \<longrightarrow> (\<forall>k q. Before k q \<in> set ls \<or> After k q \<in> set ls \<longrightarrow> q = R))"
proof -
  obtain e a as where e: "procs s c = Some e" "ready (clock s) e" "todo e = a # as" using step by (rule action_ready)
  have pe: "ppid e = (if lives P s then P else R)" "at_point body (clock s) e" and c: "c \<noteq> P" "c \<noteq> H" "c \<noteq> R"
    using r e(1) by (auto simp: relatives_def)
  have pc: "P \<noteq> c" using c by simp
  have "(relatives pr body R P H c s' \<and> lines_ok pr body R P c s') \<and> (lives P s' \<longleftrightarrow> lives P s) \<and>
    (\<exists>ls. out s' = out s @ ls \<and> (\<not> lives P s \<longrightarrow> (\<forall>k q. Before k q \<in> set ls \<or> After k q \<in> set ls \<longrightarrow> q = R)))"
    using pe(2) child_straight e(2,3)
  proof (cases rule: at_point_act)
    case (exit n)
    have s': "s' = end_process R c s" using exit_step [OF e(1,2) e(3) [unfolded exit(1)]] step by simp
    have p: "procs s' c = Some (e\<lparr>todo := [], zombie := True\<rparr>)" "procs s' P = procs s P"
      "\<forall>k. k \<noteq> P \<and> k \<noteq> c \<longrightarrow> procs s' k = None" "clock s' = clock s" "out s' = out s"
      using s' e c r by (auto simp: end_process_def relatives_def split: option.splits)
    have liv: "lives P s' \<longleftrightarrow> lives P s" using p by (simp add: lives_def)
    have "relatives pr body R P H c s'"
      using r pe exit(3) unfolding relatives_def p(2,4) liv by (simp add: p(1,3))
    moreover have "done_ops body (procs s' c) = set body"
      "Say_before \<in> set body \<Longrightarrow> Say_before \<in> done_ops body (procs s c)"
      "Say_after \<in> set body \<Longrightarrow> Say_after \<in> done_ops body (procs s c)"
      using p e exit(1,2) by (auto simp: done_ops_def)
    ultimately show ?thesis using l liv p(2,4,5) by (auto simp: lines_ok_def)
  next
    case plain
    have "s' = s\<lparr>procs := (procs s)(c \<mapsto> e\<lparr>todo := as, wake := next_wake (clock s) e a\<rparr>), out := out s @ say c e a\<rparr>"
      using plain_step [OF e] plain(1) step by auto
    then have p: "procs s' c = Some (e\<lparr>todo := as, wake := next_wake (clock s) e a\<rparr>)" "procs s' P = procs s P"
      "\<forall>k. k \<noteq> c \<longrightarrow> procs s' k = procs s k" "clock s' = clock s" "out s' = out s @ say c e a" using c by simp_all
    have liv: "lives P s' \<longleftrightarrow> lives P s" using p by (simp add: lives_def)
    have rel: "relatives pr body R P H c s'"
      using r pe plain(4) c unfolding relatives_def p(2,4) liv by (simp add: p(1,3))
    have sa: "a = Say_child \<and> say c e a = [Child_is c (ppid e)] \<or> a = Say_before \<and> say c e a = [Before c (ppid e)] \<or>
        a = Say_after \<and> say c e a = [After c (ppid e)] \<or> (\<exists>n. a = Sleep n) \<and> say c e a = []"
      using plain(1) by (auto simp: say_def)
    have dn: "done_ops body (procs s' c) = insert a (done_ops body (procs s c))" using plain(5) p(1) e(1) by simp
    have "lines_ok pr body R P c s'"
      unfolding lines_ok_def p(2,4,5) liv dn
      using sa l pe(1) plain(6) unfolding lines_ok_def by (elim disjE; auto)
    moreover have "\<exists>ls. out s' = out s @ ls \<and>
        (\<not> lives P s \<longrightarrow> (\<forall>k q. Before k q \<in> set ls \<or> After k q \<in> set ls \<longrightarrow> q = R))"
      using p(5) sa pe(1) by (intro exI [of _ "say c e a"]) auto
    ultimately show ?thesis using rel liv by blast
  qed
  then show "relatives pr body R P H c s' \<and> lines_ok pr body R P c s'" "lives P s' \<longleftrightarrow> lives P s"
    "\<exists>ls. out s' = out s @ ls \<and> (\<not> lives P s \<longrightarrow> (\<forall>k q. Before k q \<in> set ls \<or> After k q \<in> set ls \<longrightarrow> q = R))" by blast+
qed

lemma waited_for:
  assumes r: "relatives pr body R P H c s" and l: "lines_ok pr body R P c s" and n: "P \<noteq> H" "P \<noteq> R"
    and step: "wait_step i s = Some s'"
  shows "relatives pr body R P H c s' \<and> lines_ok pr body R P c s'" "\<not> lives P s \<or> i \<noteq> c" "out s' = out s"
    "\<not> lives P s \<Longrightarrow> \<not> lives P s'"
proof -
  obtain e where e: "procs s i = Some e" "zombie e" "procs s (ppid e) = None" "s' = s\<lparr>procs := (procs s)(i := None)\<rparr>"
    using step by (auto simp: wait_step_def split: option.splits if_splits)
  have c: "c \<noteq> P" "c \<noteq> H" "c \<noteq> R" using r by (simp_all add: relatives_def)
  have i: "i = P \<or> i = c" using r e(1) by (auto simp: relatives_def)
  show "out s' = out s" using e(4) by simp
  have not: "\<not> lives P s" if "i = c"
    using r e(1,3) that by (auto simp: relatives_def lives_def split: option.splits if_splits)
  then show "\<not> lives P s \<or> i \<noteq> c" by blast
  have gone: "\<not> lives P s" "\<not> lives P s'"
    using i not e by (auto simp: lives_def split: option.splits)
  show "\<not> lives P s'" by (rule gone(2))
  have rel: "relatives pr body R P H c s'"
    using i
  proof
    assume [simp]: "i = P"
    have "slept pr \<le> clock s" using r e(1,2) by (auto simp: relatives_def at_point_def)
    with r e(4) c gone show ?thesis by (auto simp: relatives_def split: option.splits)
  next
    assume [simp]: "i = c"
    from r e(4) c gone show ?thesis by (auto simp: relatives_def split: option.splits)
  qed
  have done1: "done_ops q (procs s' i) = done_ops q (procs s i)" if "at_point q (clock s) e" for q
    using e that by (auto simp: done_ops_def at_point_def)
  have "done_ops pr (procs s' P) = done_ops pr (procs s P)" "done_ops body (procs s' c) = done_ops body (procs s c)"
    using i done1 [of pr] done1 [of body] r e c by (auto simp: relatives_def)
  with l e(4) gone have "lines_ok pr body R P c s'" by (simp add: lines_ok_def)
  with rel show "relatives pr body R P H c s' \<and> lines_ok pr body R P c s'" ..
qed

lemma time_passes:
  assumes r: "relatives pr body R P H c s" and l: "lines_ok pr body R P c s"
  shows "relatives pr body R P H c (s\<lparr>clock := Suc (clock s)\<rparr>) \<and> lines_ok pr body R P c (s\<lparr>clock := Suc (clock s)\<rparr>)"
proof -
  have "relatives pr body R P H c (s\<lparr>clock := Suc (clock s)\<rparr>)"
    using r unfolding relatives_def lives_def by (auto simp: at_point_tick split: option.splits)
  moreover have "lines_ok pr body R P c (s\<lparr>clock := Suc (clock s)\<rparr>)"
  proof -
    have "\<forall>l \<in> set (out s). l = Parent_of P c \<or>
        (\<exists>q. l \<in> {Child_is c q, Before c q, After c q} \<and> (q = P \<or> q = R \<and> \<not> lives P s) \<and>
          (l = After c q \<longrightarrow> slept (takeWhile (\<lambda>a. a \<noteq> Say_after) body) \<le> Suc (clock s)))"
      using l unfolding lines_ok_def by (meson le_SucI)
    moreover have "lives P (s\<lparr>clock := Suc (clock s)\<rparr>) = lives P s" by (simp add: lives_def)
    ultimately show ?thesis using l unfolding lines_ok_def by simp
  qed
  ultimately show ?thesis ..
qed

text \<open>A step of the two, and what it does to a parent that has ended.\<close>

lemma relatives_step:
  assumes r: "relatives pr body R P H c s" and l: "lines_ok pr body R P c s" and n: "P \<noteq> H" "P \<noteq> R"
    and step: "table_step R s s'"
  shows "relatives pr body R P H c s' \<and> lines_ok pr body R P c s'"
  using step
proof cases
  case (acts new i)
  then have "i = P \<or> i = c" using r by (auto simp: relatives_def action_step_def)
  then show ?thesis using parent_acts [OF r l n] child_acts(1) [OF r l n] acts by blast
next
  case (waits i)
  then show ?thesis using waited_for(1) [OF r l n] by blast
next
  case tick
  then show ?thesis using time_passes [OF r l] by simp
qed

lemma ended_parent_step:
  assumes r: "relatives pr body R P H c s" and l: "lines_ok pr body R P c s" and n: "P \<noteq> H" "P \<noteq> R"
    and dead: "\<not> lives P s" and step: "table_step R s s'"
  shows "\<not> lives P s'" "\<exists>ls. out s' = out s @ ls \<and> (\<forall>k q. Before k q \<in> set ls \<or> After k q \<in> set ls \<longrightarrow> q = R)"
proof -
  have "\<not> lives P s' \<and> (\<exists>ls. out s' = out s @ ls \<and> (\<forall>k q. Before k q \<in> set ls \<or> After k q \<in> set ls \<longrightarrow> q = R))"
    using step
  proof cases
    case (acts new i)
    have "i \<noteq> P" using acts dead by (auto simp: lives_def action_step_def ready_def split: option.splits)
    then have i: "i = c" using acts r by (auto simp: relatives_def action_step_def)
    with child_acts(2,3) [OF r l n acts [unfolded i]] dead show ?thesis by auto
  next
    case (waits i)
    then show ?thesis using waited_for(3,4) [OF r l n] dead by auto
  next
    case tick
    then show ?thesis using dead by (simp add: lives_def)
  qed
  then show "\<not> lives P s'" "\<exists>ls. out s' = out s @ ls \<and> (\<forall>k q. Before k q \<in> set ls \<or> After k q \<in> set ls \<longrightarrow> q = R)" by blast+
qed

text \<open>A child that has ended stays as it is while the parent lives.\<close>

lemma zombie_kept_step:
  assumes r: "relatives pr body R P H c s" and z: "procs s c = Some e" "zombie e" and liv: "lives P s" "lives P s'"
    and step: "table_step R s s'"
  shows "procs s' c = Some e"
  using step
proof cases
  case (acts new i)
  have "i \<noteq> c" using acts z by (auto simp: action_step_def ready_def)
  then have i: "i = P" using acts r by (auto simp: relatives_def action_step_def)
  have c: "c \<noteq> P" using r by (simp add: relatives_def)
  obtain d a as where d: "procs s P = Some d" "ready (clock s) d" "todo d = a # as" using acts i by (auto elim: action_ready)
  have "at_point pr (clock s) d" using r d(1) by (simp add: relatives_def)
  from this parent_straight d(2,3) show ?thesis
  proof (cases rule: at_point_act)
    case (exit n)
    have "s' = end_process R P s" using exit_step [OF d(1,2) d(3) [unfolded exit(1)]] acts i by simp
    then show ?thesis using liv(2) d(1) by (simp add: lives_def end_process_def)
  next
    case plain
    then show ?thesis using plain_step [OF d] acts i c z by auto
  qed
next
  case (waits i)
  then show ?thesis using r z liv(1) by (auto simp: wait_step_def relatives_def lives_def split: option.splits if_splits)
next
  case tick
  then show ?thesis using z by simp
qed

lemma straight_start: "straight says q \<Longrightarrow> at_point q now \<lparr>ppid = x, todo = q, wake = 0, forked = y, zombie = False\<rparr>"
  by (auto simp: at_point_def straight_def)

lemma table_inv_start: "table_inv pr body R P H (ptable_start (Fork body # pr) P H)"
  by (simp add: table_inv_def ptable_start_def)

lemma forking_step:
  assumes s: "procs s = [P \<mapsto> \<lparr>ppid = H, todo = Fork body # pr, wake = 0, forked = 0, zombie = False\<rparr>]" "out s = []"
    and n: "P \<noteq> H" "P \<noteq> R" and step: "table_step R s s'"
  shows "table_inv pr body R P H s'"
  using step
proof cases
  case (acts new i)
  have i: "i = P" using acts s by (auto simp: action_step_def split: if_splits)
  show ?thesis
  proof (cases new)
    case None
    then show ?thesis using acts i s by (auto simp: action_step_def ready_def table_inv_def)
  next
    case (Some c)
    let ?p = "\<lparr>ppid = H, todo = pr, wake = 0, forked = c, zombie = False\<rparr>"
    let ?c = "\<lparr>ppid = P, todo = body, wake = 0, forked = 0, zombie = False\<rparr>"
    have c: "c \<noteq> P" "c \<noteq> H" "c \<noteq> R" and s': "s' = s\<lparr>procs := [P \<mapsto> ?p, c \<mapsto> ?c]\<rparr>"
      using acts i s Some by (auto simp: action_step_def ready_def split: if_splits)
    have "relatives pr body R P H c s'"
      using c s' straight_start [OF parent_straight] straight_start [OF child_straight]
      by (simp add: relatives_def lives_def)
    moreover have "lines_ok pr body R P c s'" using c s' s(2) by (simp add: lines_ok_def done_ops_def)
    ultimately show ?thesis by (auto simp: table_inv_def)
  qed
next
  case (waits i)
  then show ?thesis using s by (simp add: wait_step_def split: if_splits)
next
  case tick
  then show ?thesis using s by (simp add: table_inv_def)
qed

lemma failed_step:
  assumes s: "out s = [Fork_failed]" "\<forall>k. k \<noteq> P \<longrightarrow> procs s k = None"
      "\<forall>e. procs s P = Some e \<longrightarrow> ppid e = H \<and> (todo e = [Exit 1] \<and> \<not> zombie e \<or> zombie e)"
    and n: "P \<noteq> H" and step: "table_step R s s'"
  shows "table_inv pr body R P H s' \<and> out s' = out s \<and> (\<not> lives P s \<longrightarrow> \<not> lives P s')"
  using step
proof cases
  case (acts new i)
  have i: "i = P" using acts s by (auto simp: action_step_def)
  obtain e a as where e: "procs s P = Some e" "ready (clock s) e" "todo e = a # as"
    using action_ready [OF acts [unfolded i]] by blast
  then have "todo e = [Exit 1]" "ppid e = H" using s(3) by (auto simp: ready_def)
  then have "s' = end_process R P s" using exit_step [OF e(1,2)] acts i by simp
  then show ?thesis using s e \<open>ppid e = H\<close> by (auto simp: table_inv_def end_process_def lives_def)
next
  case (waits i)
  then have "i = P" using s(2) by (auto simp: wait_step_def)
  then show ?thesis using waits s by (auto simp: wait_step_def table_inv_def lives_def split: option.splits if_splits)
next
  case tick
  then show ?thesis using s by (simp add: table_inv_def lives_def)
qed

lemma table_inv_step:
  assumes inv: "table_inv pr body R P H s" and n: "P \<noteq> H" "P \<noteq> R" and step: "table_step R s s'"
  shows "table_inv pr body R P H s'"
  using inv unfolding table_inv_def [of pr body R P H s]
proof (elim disjE exE conjE)
  fix c assume "relatives pr body R P H c s" "lines_ok pr body R P c s"
  then show ?thesis using relatives_step [OF _ _ n step] by (auto simp: table_inv_def)
qed (use forking_step [OF _ _ n step] failed_step [OF _ _ _ n(1) step] in blast)+

text \<open>Once the parent has ended, whatever is printed shows the reaper.\<close>

lemma ended_parent:
  assumes inv: "table_inv pr body R P H s" and n: "P \<noteq> H" "P \<noteq> R" and dead: "\<not> lives P s" and steps: "later R s s'"
  shows "table_inv pr body R P H s' \<and> \<not> lives P s' \<and>
    (\<exists>ls. out s' = out s @ ls \<and> (\<forall>k q. Before k q \<in> set ls \<or> After k q \<in> set ls \<longrightarrow> q = R))"
  using steps
proof (induction rule: rtranclp_induct)
  case base
  show ?case using inv dead by auto
next
  case (step s1 s2)
  then obtain ls where s1: "table_inv pr body R P H s1" "\<not> lives P s1" "out s1 = out s @ ls"
    "\<forall>k q. Before k q \<in> set ls \<or> After k q \<in> set ls \<longrightarrow> q = R" by blast
  have "\<not> lives P s2 \<and> (\<exists>ls. out s2 = out s1 @ ls \<and> (\<forall>k q. Before k q \<in> set ls \<or> After k q \<in> set ls \<longrightarrow> q = R))"
    using s1(1) unfolding table_inv_def
  proof (elim disjE exE conjE)
    fix c assume "relatives pr body R P H c s1" "lines_ok pr body R P c s1"
    then show ?thesis using ended_parent_step [OF _ _ n s1(2) step(2)] by blast
  next
    assume "procs s1 = [P \<mapsto> \<lparr>ppid = H, todo = Fork body # pr, wake = 0, forked = 0, zombie = False\<rparr>]"
    then show ?thesis using s1(2) by (simp add: lives_def)
  next
    assume "out s1 = [Fork_failed]" "\<forall>k. k \<noteq> P \<longrightarrow> procs s1 k = None"
      "\<forall>e. procs s1 P = Some e \<longrightarrow> ppid e = H \<and> (todo e = [Exit 1] \<and> \<not> zombie e \<or> zombie e)"
    from failed_step [OF this n(1) step(2)] s1(2) show ?thesis by (intro conjI exI [of _ "[]"]) auto
  qed
  then obtain ms where "\<not> lives P s2" "out s2 = out s @ (ls @ ms)"
      "\<forall>k q. Before k q \<in> set (ls @ ms) \<or> After k q \<in> set (ls @ ms) \<longrightarrow> q = R" using s1(3,4) by auto
  then show ?case using table_inv_step [OF s1(1) n step(2)] by blast
qed

text \<open>A zombie stays while its parent lives.\<close>

lemma zombie_kept:
  assumes inv: "table_inv pr body R P H s" and n: "P \<noteq> H" "P \<noteq> R" and z: "procs s c = Some e" "zombie e"
    and liv: "lives P s" "lives P s'" and steps: "later R s s'"
  shows "ppid e = P \<and> procs s' c = Some e"
proof -
  have c: "c \<noteq> P" using z liv(1) by (auto simp: lives_def)
  have rel: "relatives pr body R P H c t" if "table_inv pr body R P H t" "procs t c = Some e" for t
    using that(1) unfolding table_inv_def
  proof (elim disjE exE conjE)
    fix d assume r: "relatives pr body R P H d t"
    then have "d = c" using that(2) c by (auto simp: relatives_def)
    with r show ?thesis by simp
  qed (use that(2) c in auto)
  have p: "ppid e = P" using rel [OF inv z(1)] z(1) liv(1) by (simp add: relatives_def)
  from steps liv(2) have "table_inv pr body R P H s' \<and> procs s' c = Some e"
  proof (induction rule: rtranclp_induct)
    case base
    show ?case using inv z(1) by simp
  next
    case (step s1 s2)
    have inv1: "table_inv pr body R P H s1"
      using step(1) by (induction rule: rtranclp_induct) (rule inv, rule table_inv_step [OF _ n])
    have "lives P s1"
    proof (rule ccontr)
      assume "\<not> lives P s1"
      then show False using ended_parent [OF inv1 n _ r_into_rtranclp [of "table_step R", OF step(2)]] step(4) by blast
    qed
    with step.IH have s1: "procs s1 c = Some e" by blast
    then show ?case
      using zombie_kept_step [OF rel [OF inv1] s1 z(2) \<open>lives P s1\<close> step(4,2)] table_inv_step [OF inv1 n step(2)] by blast
  qed
  with p show ?thesis by blast
qed

end

interpretation zombie_programs: two_programs "[Say_parent, Sleep 30, Exit 0]" "[Say_child, Exit 0]"
  by unfold_locales (auto simp: straight_def)

interpretation orphan_programs: two_programs "[Say_parent, Exit 0]" "[Say_before, Sleep 3, Say_after, Exit 0]"
  by unfold_locales (auto simp: straight_def)

section \<open>Properties\<close>

abbreviation table_reach :: "process_op list \<Rightarrow> int \<Rightarrow> int \<Rightarrow> int \<Rightarrow> ptable \<Rightarrow> bool" where
  "table_reach prog R P H \<equiv> reach (\<lambda>s. s = ptable_start prog P H) (table_step R)"

abbreviation zombie_inv :: "int \<Rightarrow> int \<Rightarrow> int \<Rightarrow> ptable \<Rightarrow> bool" where
  "zombie_inv \<equiv> table_inv [Say_parent, Sleep 30, Exit 0] [Say_child, Exit 0]"

abbreviation orphan_inv :: "int \<Rightarrow> int \<Rightarrow> int \<Rightarrow> ptable \<Rightarrow> bool" where
  "orphan_inv \<equiv> table_inv [Say_parent, Exit 0] [Say_before, Sleep 3, Say_after, Exit 0]"

interpretation zombie_sys: invariant_system "\<lambda>s. P \<noteq> H \<and> P \<noteq> R \<and> s = ptable_start zombie_main P H"
  "\<lambda>s s'. P \<noteq> H \<and> P \<noteq> R \<and> table_step R s s'" "zombie_inv R P H"
  by unfold_locales (simp add: zombie_main_def zombie_programs.table_inv_start, blast intro: zombie_programs.table_inv_step)

interpretation orphan_sys: invariant_system "\<lambda>s. P \<noteq> H \<and> P \<noteq> R \<and> s = ptable_start orphan_main P H"
  "\<lambda>s s'. P \<noteq> H \<and> P \<noteq> R \<and> table_step R s s'" "orphan_inv R P H"
  by unfold_locales (simp add: orphan_main_def orphan_programs.table_inv_start, blast intro: orphan_programs.table_inv_step)

lemma table_reach_inv:
  assumes "P \<noteq> H" "P \<noteq> R"
  shows "table_reach zombie_main R P H s \<Longrightarrow> zombie_inv R P H s" "table_reach orphan_main R P H s \<Longrightarrow> orphan_inv R P H s"
  using zombie_sys.reach_inv [of P H R s] orphan_sys.reach_inv [of P H R s] assms by simp_all

text \<open>What the invariant says in a single state.\<close>

lemma parent_ended_late:
  assumes "table_inv pr body R P H s" "Fork_failed \<notin> set (out s)" "\<not> lives P s"
  shows "slept pr \<le> clock s"
  using assms(1) unfolding table_inv_def
proof (elim disjE exE conjE)
  fix c assume "relatives pr body R P H c s"
  then show ?thesis using assms(3) by (auto simp: relatives_def at_point_def lives_def split: option.splits)
qed (use assms(2,3) in \<open>auto simp: lives_def\<close>)

lemma no_lines_failed: "table_inv pr body R P H s \<Longrightarrow> l \<in> set (out s) \<Longrightarrow> l \<noteq> Fork_failed \<Longrightarrow>
  \<exists>c. relatives pr body R P H c s \<and> lines_ok pr body R P c s"
  by (auto simp: table_inv_def)

lemma line_parents:
  assumes "table_inv pr body R P H s" "Child_is k q \<in> set (out s) \<or> Before k q \<in> set (out s) \<or> After k q \<in> set (out s)"
  shows "(lives P s \<longrightarrow> q = P \<and> procs s k \<noteq> None) \<and> (q = P \<or> q = R)"
    "After k q \<in> set (out s) \<Longrightarrow> slept (takeWhile (\<lambda>a. a \<noteq> Say_after) body) \<le> clock s"
proof -
  obtain c where c: "relatives pr body R P H c s" "lines_ok pr body R P c s"
    using no_lines_failed [OF assms(1)] assms(2) by blast
  have "k = c \<and> (q = P \<or> q = R \<and> \<not> lives P s) \<and>
      (After k q \<in> set (out s) \<longrightarrow> slept (takeWhile (\<lambda>a. a \<noteq> Say_after) body) \<le> clock s)"
    using assms(2) c(2) unfolding lines_ok_def by fastforce
  then show "(lives P s \<longrightarrow> q = P \<and> procs s k \<noteq> None) \<and> (q = P \<or> q = R)"
    "After k q \<in> set (out s) \<Longrightarrow> slept (takeWhile (\<lambda>a. a \<noteq> Say_after) body) \<le> clock s"
    using c(1) by (auto simp: relatives_def)
qed

lemma orphaned_zombie:
  assumes "table_inv pr body R P H s" "P \<noteq> R" "procs s c = Some e" "zombie e" "c \<noteq> P" "\<not> lives P s"
  shows "ppid e = R \<and> wait_step c s \<noteq> None"
  using assms(1) unfolding table_inv_def
proof (elim disjE exE conjE)
  fix d assume r: "relatives pr body R P H d s"
  then have "d = c" using assms(3,5) by (auto simp: relatives_def)
  with r assms show ?thesis by (auto simp: relatives_def wait_step_def)
qed (use assms in auto)

text \<open>
  C26: the two programs about processes that nobody waits for, at any speed of the processes, of the shell
  and of the reaper. In \<open>zombie.c\<close> the parent lives for the 30 seconds of its sleep at least, unless \<open>fork\<close> has failed;
  while it lives, the child it has started is in the process table, and once it has ended nobody can remove its
  entry: it stays a zombie, with the same parent, for as long as the parent lives. When the parent has ended, a zombie
  is a child of the reaper, which can remove it. In \<open>orphan.c\<close> a line of the child shows the parent of that
  moment: \<open>P\<close> in all lines printed while the parent lives, the reaper in all lines printed after its end. The line
  after the sleep comes at second 3 at the earliest, so it shows the reaper whenever the parent has ended by
  then; and when nothing is left of the two, all three lines have been printed, unless \<open>fork\<close> has failed.
\<close>

theorem children_not_waited_for:
  assumes "P \<noteq> H" "P \<noteq> R"
  shows "(table_reach zombie_main R P H s \<longrightarrow>
      (clock s < 30 \<and> Fork_failed \<notin> set (out s) \<longrightarrow> lives P s) \<and>
      (\<forall>c q. Child_is c q \<in> set (out s) \<and> lives P s \<longrightarrow> q = P \<and> procs s c \<noteq> None) \<and>
      (\<forall>c e. procs s c = Some e \<and> zombie e \<and> lives P s \<longrightarrow>
         ppid e = P \<and> (\<forall>s'. later R s s' \<and> lives P s' \<longrightarrow> procs s' c = Some e)) \<and>
      (\<forall>c e. procs s c = Some e \<and> zombie e \<and> c \<noteq> P \<and> \<not> lives P s \<longrightarrow> ppid e = R \<and> wait_step c s \<noteq> None)) \<and>
    (table_reach orphan_main R P H s \<longrightarrow>
      (\<forall>c q. Before c q \<in> set (out s) \<or> After c q \<in> set (out s) \<longrightarrow> (q = P \<or> q = R) \<and> (lives P s \<longrightarrow> q = P)) \<and>
      (\<forall>s'. \<not> lives P s \<and> later R s s' \<longrightarrow>
         (\<exists>ls. out s' = out s @ ls \<and> (\<forall>c q. Before c q \<in> set ls \<or> After c q \<in> set ls \<longrightarrow> q = R))) \<and>
      (\<forall>c q. After c q \<in> set (out s) \<longrightarrow> 3 \<le> clock s) \<and>
      (procs s = Map.empty \<longrightarrow> Fork_failed \<in> set (out s) \<or>
         (\<exists>c q r. {Parent_of P c, Before c q, After c r} \<subseteq> set (out s))))"
proof (intro conjI impI)
  assume r: "table_reach zombie_main R P H s"
  note inv = table_reach_inv(1) [OF assms r]
  show "lives P s" if "clock s < 30 \<and> Fork_failed \<notin> set (out s)" using parent_ended_late [OF inv] that by force
  show "\<forall>c q. Child_is c q \<in> set (out s) \<and> lives P s \<longrightarrow> q = P \<and> procs s c \<noteq> None" using line_parents(1) [OF inv] by blast
  show "\<forall>c e. procs s c = Some e \<and> zombie e \<and> lives P s \<longrightarrow>
      ppid e = P \<and> (\<forall>s'. later R s s' \<and> lives P s' \<longrightarrow> procs s' c = Some e)"
    using zombie_programs.zombie_kept [OF inv assms] by blast
  show "\<forall>c e. procs s c = Some e \<and> zombie e \<and> c \<noteq> P \<and> \<not> lives P s \<longrightarrow> ppid e = R \<and> wait_step c s \<noteq> None"
    using orphaned_zombie [OF inv assms(2)] by blast
next
  assume r: "table_reach orphan_main R P H s"
  note inv = table_reach_inv(2) [OF assms r]
  show "\<forall>c q. Before c q \<in> set (out s) \<or> After c q \<in> set (out s) \<longrightarrow> (q = P \<or> q = R) \<and> (lives P s \<longrightarrow> q = P)"
    using line_parents(1) [OF inv] by blast
  show "\<forall>s'. \<not> lives P s \<and> later R s s' \<longrightarrow>
      (\<exists>ls. out s' = out s @ ls \<and> (\<forall>c q. Before c q \<in> set ls \<or> After c q \<in> set ls \<longrightarrow> q = R))"
    using orphan_programs.ended_parent [OF inv assms] by blast
  show "\<forall>c q. After c q \<in> set (out s) \<longrightarrow> 3 \<le> clock s" using line_parents(2) [OF inv] by force
  show "Fork_failed \<in> set (out s) \<or> (\<exists>c q r. {Parent_of P c, Before c q, After c r} \<subseteq> set (out s))" if "procs s = Map.empty"
    using inv unfolding table_inv_def
  proof (elim disjE exE conjE)
    fix c assume "lines_ok [Say_parent, Exit 0] [Say_before, Sleep 3, Say_after, Exit 0] R P c s"
    then show ?thesis using that by (auto simp: lines_ok_def done_ops_def)
  next
    assume "procs s = [P \<mapsto> \<lparr>ppid = H, todo = Fork [Say_before, Sleep 3, Say_after, Exit 0] # [Say_parent, Exit 0],
      wake = 0, forked = 0, zombie = False\<rparr>]"
    then have "procs s P \<noteq> None" by simp
    with that show ?thesis by simp
  qed (use that in simp)
qed

text \<open>Runs of the two programs: the choices are an action, a wait, or a second that passes.\<close>

datatype table_choice = Act int "int option" | Wait_for int | Tick

fun table_run :: "int \<Rightarrow> table_choice list \<Rightarrow> ptable \<Rightarrow> ptable option" where
  "table_run R [] s = Some s"
| "table_run R (Act i new # cs) s = Option.bind (action_step R new i s) (table_run R cs)"
| "table_run R (Wait_for c # cs) s = Option.bind (wait_step c s) (table_run R cs)"
| "table_run R (Tick # cs) s = table_run R cs (s\<lparr>clock := Suc (clock s)\<rparr>)"

lemma table_run_reach:
  "table_reach prog R P H s \<Longrightarrow> table_run R cs s = Some s' \<Longrightarrow> table_reach prog R P H s'"
proof (induction R cs s rule: table_run.induct)
  case (2 R i new cs s)
  then obtain t where t: "action_step R new i s = Some t" "table_run R cs t = Some s'" by (auto simp: bind_eq_Some_conv)
  show ?case by (rule "2.IH" [OF t(1) reach_step [OF "2.prems"(1)] t(2)]) (rule acts [OF t(1)])
next
  case (3 R c cs s)
  then obtain t where t: "wait_step c s = Some t" "table_run R cs t = Some s'" by (auto simp: bind_eq_Some_conv)
  show ?case by (rule "3.IH" [OF t(1) reach_step [OF "3.prems"(1)] t(2)]) (rule waits [OF t(1)])
next
  case (4 R cs s)
  show ?case by (rule "4.IH" [OF reach_step [OF "4.prems"(1)]]) (rule tick, use "4.prems"(2) in simp)
qed simp

text \<open>
  In the first run the child 101 has ended and a second has passed; in the second the parent has ended before
  the child goes on, so that the line after the sleep shows the reaper.
\<close>

lemma children_not_waited_for_witness:
  "(\<exists>s e. table_reach zombie_main 1 100 50 s \<and> clock s = 1 \<and> procs s 101 = Some e \<and> zombie e \<and> ppid e = 100) \<and>
   (\<exists>s. table_reach orphan_main 1 100 50 s \<and> out s = [Parent_of 100 101, Before 101 100, After 101 1] \<and> 3 \<le> clock s)"
proof
  let ?run = "table_run 1 [Act 100 (Some 101), Act 101 None, Act 101 None, Act 100 None, Tick, Act 100 None]
    (ptable_start zombie_main 100 50)"
  have "case ?run of None \<Rightarrow> False | Some s \<Rightarrow> clock s = 1 \<and> lives 100 s \<and>
      (case procs s 101 of None \<Rightarrow> False | Some e \<Rightarrow> zombie e)" by code_simp
  then obtain s e where s: "?run = Some s" "clock s = 1" "lives 100 s" "procs s 101 = Some e" "zombie e"
    by (auto split: option.splits)
  have r: "table_reach zombie_main 1 100 50 s" by (rule table_run_reach [OF reach_start s(1)]) simp
  have n: "(100 :: int) \<noteq> 50" "(100 :: int) \<noteq> 1" by simp_all
  note z = children_not_waited_for [OF n, of s, THEN conjunct1, THEN mp, OF r, THEN conjunct2, THEN conjunct2, THEN conjunct1]
  have "ppid e = 100" by (rule z [rule_format, THEN conjunct1]) (use s in simp)
  with r s show "\<exists>s e. table_reach zombie_main 1 100 50 s \<and> clock s = 1 \<and> procs s 101 = Some e \<and> zombie e \<and> ppid e = 100"
    by (intro exI [of _ s] exI [of _ e]) (simp add: s)
next
  let ?run = "table_run 1 [Act 100 (Some 101), Act 100 None, Act 101 None, Act 101 None, Act 100 None, Wait_for 100,
    Tick, Tick, Tick, Act 101 None] (ptable_start orphan_main 100 50)"
  have "case ?run of None \<Rightarrow> False | Some s \<Rightarrow> out s = [Parent_of 100 101, Before 101 100, After 101 1]" by code_simp
  then obtain s where s: "?run = Some s" "out s = [Parent_of 100 101, Before 101 100, After 101 1]"
    by (auto split: option.splits)
  have r: "table_reach orphan_main 1 100 50 s" by (rule table_run_reach [OF reach_start s(1)]) simp
  have "After 101 1 \<in> set (out s)" using s(2) by simp
  have n: "(100 :: int) \<noteq> 50" "(100 :: int) \<noteq> 1" by simp_all
  note a = children_not_waited_for [OF n, of s, THEN conjunct2, THEN mp, OF r, THEN conjunct2, THEN conjunct2, THEN conjunct1]
  have "3 \<le> clock s" by (rule a [rule_format]) (rule \<open>After 101 1 \<in> set (out s)\<close>)
  with r s(2) show "\<exists>s. table_reach orphan_main 1 100 50 s \<and> out s = [Parent_of 100 101, Before 101 100, After 101 1] \<and> 3 \<le> clock s"
    by (intro exI [of _ s]) simp
qed

end
