(* ===== verification/Spec2Isabelle.thy ===== *)
theory Spec2Isabelle
  imports Chat_Main_Theorems Restaurant_Main N_Consumer_Runs
    Cond_Var_Runs Race_Main Rw_Lock_Runs Threads_Join Threads_Create Echo_Typing Echo_Datagrams
    Task_Queue Signals Pipe_Theorems Shared_Memory Processes Process_Table
begin

text \<open>
  A model of the programs of this repository, exercises in Linux system programming in C, with the
  properties that make them correct. Each part of the repository is a group of programs of its own;
  they share no code, and the theories of one part do not use those of another. What they share is
  in two theories:

  \<^item> \<open>Prelude\<close>: counting in a list in which one place changes, and \<open>invariant_system\<close>, the interface
    between a step relation and an invariant, which every interleaving model instantiates; \<open>bounded_system\<close>
    extends it by a potential that every step lowers, from which follows a bound on the length of all runs.
  \<^item> \<open>C_Lib\<close>: \<open>atoi\<close>, \<open>strtol\<close>, \<open>strtok\<close>, \<open>strcspn\<close>, \<open>strncmp\<close>, \<open>fgets\<close>, \<open>snprintf\<close> and decimal numbers. A string is
    its bytes before the terminating NUL; \<open>c_str\<close> cuts a buffer at its first NUL.

  \<^bold>\<open>The peer-to-peer chat\<close>, \<open>S6_IPC_Socket/ex2_p2pchat\<close>. The program keeps a linked list of connections
  under a mutex. A listener thread appends the connections it accepts, every connection has a
  receiving thread that marks it inactive when the peer goes, and the main thread reads commands and
  removes dead connections.

  \<^item> \<open>Inet\<close>: addresses and \<open>is_valid_ipv4\<close> of \<open>src/connection.c\<close>.
  \<^item> \<open>Conn_State\<close>: the nodes (\<open>PeerConn\<close>) as a heap with a head pointer, the other globals of
    \<open>include/common.h\<close>, the trace of lock operations, system calls and output.
  \<^item> \<open>Connection\<close>: \<open>add_connection\<close>, \<open>find_connection_by_id\<close>, \<open>remove_node_locked\<close> of \<open>src/connection.c\<close> and the
    rollback of \<open>src/listener.c\<close>, with lemmas that relate each to an operation on lists.
  \<^item> \<open>Receiver\<close>: \<open>conn_recv_thread\<close> on a script of what \<open>recv\<close> delivers.
  \<^item> \<open>Listener\<close>: \<open>listener_thread\<close>, one accepted connection after the other.
  \<^item> \<open>Reaper\<close>: \<open>pthread_join\<close> and \<open>reap_connections\<close>. In the windows in which \<open>reap_connections\<close> does not hold
    the mutex, an arbitrary schedule of the other threads runs (\<open>env_act\<close>).
  \<^item> \<open>Command\<close>, \<open>Command_Props\<close>: the commands of \<open>src/command.c\<close>.
  \<^item> \<open>Chat_Main\<close>: \<open>app/main_p2pchat.c\<close> and \<open>get_local_ip\<close> of \<open>src/utils.c\<close>.
  \<^item> \<open>Chat_List_Theorems\<close>, \<open>Chat_Connect_Theorems\<close>, \<open>Chat_Message_Theorems\<close>, \<open>Chat_Exit_Theorems\<close>,
    \<open>Chat_Main_Theorems\<close>: the properties: the list stays well formed under every schedule, no node is
    freed while it is used by the code that holds the mutex, what each command does and prints on every
    branch, the order of lock and unlock, and when \<open>exit\<close> returns.

  Loops whose end depends on the heap or on other threads are \<open>partial_function (option)\<close>; the value
  \<open>None\<close> is an access to a freed node or a wait that does not end, and the theorems state that the value
  is \<open>Some\<close> where it is. For the command loop \<open>loop_waits\<close> describes the second alone, by the threads that have not
  returned, and \<open>main_loop_outcome\<close> shows that it is the only one. \<open>malloc\<close> returns any block that is not in use at the
  time, also one freed before. \<open>connect\<close> leaves the other threads two stretches without the lock, the second between
  \<open>add_connection\<close> and \<open>pthread_create\<close>; \<open>p2p_on\<close> is the invariant while a node in the list has no thread yet. \<open>int\<close> is 32 bits (\<open>int32\<close>), ports are 16 bits, \<open>long\<close> is clamped at 64 bits. The listener's
  \<open>add_connection\<close> and the \<open>pthread_create\<close> that follows it are one action in the schedules, and so are the marking
  of a connection by its receiving thread and the \<open>return NULL\<close> after it; bytes are
  delivered by \<open>recv\<close> as the script says, and \<open>send\<close> succeeds or fails as a whole. A \<open>send\<close> that fails with \<open>EPIPE\<close>
  also raises \<open>SIGPIPE\<close>, which the program does not handle and which ends it: the theorems are about runs in which
  that signal does not arrive.

  \<^bold>\<open>The restaurant\<close>, \<open>S10_IPC_Semafore\<close>: five processes put dishes on two trays in shared memory and take
  them off, with three semaphores for each tray. \<open>Restaurant\<close> has the shared data (\<open>src/shared.c\<close>), the loops
  of the chefs and the customers as jobs of single steps, the one-shot functions for the tests, and the
  parent's loop and clean-up (\<open>app/main.c\<close>). \<open>Restaurant_Inv\<close> has the invariant of all interleavings, and
  \<open>Restaurant_Theorems\<close> mutual exclusion, the absence of deadlock, that a search of a tray finds what the
  semaphores promise, and what the one-shot functions do. \<open>Restaurant_Main\<close> has the whole of \<open>main\<close> with
  the calls of \<open>fork\<close> and of \<open>init_shared_memory\<close> that fail, the machine (\<open>machine_run\<close>) on which its clean-up
  signals processes, as far as the user ids permit it, and waits for the children, and the three programs of \<open>tests/\<close>.

  \<^bold>\<open>Threads\<close>, \<open>S4_Thread\<close>. \<open>Monitor\<close> has what the programs with a condition variable share: the states of a
  thread, \<open>pthread_cond_signal\<close>, and the interface \<open>bounded_fifo\<close> of the buffer between two sides.

  \<^item> \<open>N_Consumer\<close>, \<open>N_Consumer_Theorems\<close>, \<open>N_Consumer_Runs\<close>: \<open>nConsumer.c\<close>, with the ring buffer as a
    \<open>bounded_fifo\<close>: order of the items, no deadlock, every run ends, two items left over.
  \<^item> \<open>Cond_Var\<close>, \<open>Cond_Var_Theorems\<close>, \<open>Cond_Var_Runs\<close>: \<open>ex3_condition_variable.c\<close>, with one variable and a flag
    as a \<open>bounded_fifo\<close> of one place: every value arrives, no wake-up is lost, every run ends.
  \<^item> \<open>Race_Counter\<close>, \<open>Race_Main\<close>: \<open>ex2_race_condition_mutx.c\<close>: exactly which results the increments without
    the mutex have, and which runs the whole program has when its calls may fail.
  \<^item> \<open>Rw_Lock\<close>, \<open>Rw_Lock_Runs\<close>: \<open>ex4_rw_lock.c\<close>: exclusion, the values readers and writers print, every run
    ends.
  \<^item> \<open>Threads\<close>, \<open>Threads_Join\<close>, \<open>Threads_Create\<close>: \<open>fun_thread_join.c\<close> and \<open>ex1_creat_thread.c\<close>: what threads
    return, the memory they allocate, as blocks of bytes with their size, and \<open>main\<close> frees, and the failures of
    \<open>pthread_create\<close>. Writing beyond a block or reading what was never stored is an outcome of its own.

  A step of these models is what a thread does between two points at which another thread can matter;
  \<open>rand\<close> and the choice of the thread that a signal wakes are inputs of the steps, \<open>usleep\<close> is no step, and
  spurious wake-ups are steps of their own. The bounds (190, 100 and 125 steps, and 2 more for each
  spurious wake-up) hold for every schedule, so that the programs finish under all of them. In \<open>nConsumer.c\<close>, \<open>ex3_condition_variable.c\<close> and
  \<open>ex4_rw_lock.c\<close> all threads are created successfully.

  \<^bold>\<open>Echo programs\<close>, \<open>S6_IPC_Socket/ex1_4sockets\<close>. \<open>Sockets\<close> has the system calls on a table of open descriptors
  and the eight functions that set a socket up, each an interpretation of the locale \<open>socket_setup\<close>;
  \<open>Echo\<close> the loops and main functions of the four servers and four clients, on a script of what arrives;
  \<open>Echo_Theorems\<close> that sockets are set up or the error path is clean, that no answer is cut off (the locale
  \<open>echo_server\<close>, interpreted for the four servers), and what a session of a client with its server prints;
  \<open>Echo_Datagrams\<close> has the sessions over datagrams, in which the UDP client follows the last sender;
  \<open>Echo_Typing\<close> the types of sockets and messages, which all eight programs keep.

  \<^bold>\<open>Message queue\<close>, \<open>S8_Message_Queue\<close>: \<open>Task_Queue\<close> has the dispatcher and the worker on a POSIX queue, an
  interpretation of the locale \<open>prio_queue\<close>: the order of the tasks and the limits of their length.

  \<^bold>\<open>Signals\<close>, \<open>S5_IPC_Signal\<close>: \<open>Signals\<close> has the three counting programs, the parent of the third, and the loop
  around \<open>select\<close>: when they end.

  \<^bold>\<open>Pipe\<close>, \<open>S7_Pipe_FIFO\<close>: \<open>Pipe\<close> has the three processes of \<open>ls -l | wc -l\<close> with their descriptors, on a pipe
  of any capacity; every call may fail, and a write without readers kills the writer. \<open>Pipe_Inv\<close> has the
  invariant, built from the points of the three programs, and \<open>Pipe_Theorems\<close> that no process waits for
  ever, a bound on the length of every run, what \<open>wc\<close> has read, and what the parent reports.

  \<^bold>\<open>Shared memory\<close>, \<open>S9_IPC_Shared_Memory\<close>: \<open>Shared_Memory\<close> has the producer and the consumer of a product:
  what is typed in is what is printed, and what becomes of a name that is too long.

  \<^bold>\<open>Processes\<close>, \<open>S3_Process\<close>: \<open>Processes\<close> has \<open>fork.c\<close> and \<open>exec.c\<close> with the encoding of the status of a child;
  \<open>Process_Table\<close> has \<open>zombie.c\<close> and \<open>orphan.c\<close> on a process table with a clock. Every process that ends is a zombie
  until its parent waits for it; the shell and the process that takes over orphans wait at any time of their choice,
  and the clock advances at any moment, so nothing is assumed of the speed of the processes. The locale \<open>two_programs\<close>
  has the proof for a parent and a child that print and sleep, interpreted for both programs.

  \<^bold>\<open>Not modelled\<close>: the signal \<open>SIGPIPE\<close> in the chat; the four headers of the chat that hold only prototypes; \<open>scanf\<close> and \<open>printf\<close> of
  floating-point numbers, which are parameters; texts that are not ASCII, which are messages of a
  datatype; makefiles, a text on processes, and the binaries checked in beside the sources.
\<close>

end
